(* ===== verification/Rust_Prelude.thy ===== *)
theory Rust_Prelude
  imports Main "HOL-Library.Word" "HOL-Library.Code_Target_Nat" "HOL-Library.List_Lexorder" "HOL-Library.Char_ord"
begin

text \<open>
  What every component of the router shares: the machine integers of the
  source at their width, the checked and saturating operations of the standard
  library on them, the ordered map (\<open>BTreeMap\<close>) as a list sorted by key, and
  the monotonic clock (\<open>Instant\<close>). Plain \<open>+\<close>, \<open>*\<close> and \<open>-\<close> on
  words wrap around, which is what the released binary does (the crate has no
  profile that turns overflow checks on); a debug build panics where a result here wraps.
\<close>

named_theorems rust_arith \<open>words read as natural numbers\<close>
named_theorems rust_splits \<open>case and if splits used to unfold the models\<close>

declare option.splits [rust_splits] if_splits [rust_splits] sum.splits [rust_splits]
  prod.splits [rust_splits] list.splits [rust_splits]

section \<open>Machine integers\<close>

type_synonym u8 = "8 word"
type_synonym u16 = "16 word"
type_synonym u32 = "32 word"
type_synonym u64 = "64 word"
type_synonym u128 = "128 word"

text \<open>\<open>usize\<close> is 64 bits on every platform the router is built for.\<close>

type_synonym usize = "64 word"

definition saturating_sub :: "'a::len word \<Rightarrow> 'a word \<Rightarrow> 'a word" where
  "saturating_sub a b = (if a \<le> b then 0 else a - b)"

definition checked_sub :: "'a::len word \<Rightarrow> 'a word \<Rightarrow> 'a word option" where
  "checked_sub a b = (if b \<le> a then Some (a - b) else None)"

definition checked_mul :: "'a::len word \<Rightarrow> 'a word \<Rightarrow> 'a word option" where
  "checked_mul a b = (if unat a * unat b < 2 ^ LENGTH('a) then Some (a * b) else None)"

definition checked_div :: "'a::len word \<Rightarrow> 'a word \<Rightarrow> 'a word option" where
  "checked_div a b = (if b = 0 then None else Some (a div b))"

text \<open>\<open>u32::try_from\<close> on a wider unsigned integer.\<close>

definition try_u32 :: "'a::len word \<Rightarrow> u32 option" where
  "try_u32 a = (if unat a < 2 ^ 32 then Some (ucast a) else None)"

text \<open>\<open>div_ceil\<close>: no intermediate sum, so it never wraps below the maximum.\<close>

definition div_ceil :: "'a::len word \<Rightarrow> 'a word \<Rightarrow> 'a word" where
  "div_ceil a b = (let q = a div b in if a mod b = 0 then q else q + 1)"

lemma unat_saturating_sub [simp, rust_arith]:
  "unat (saturating_sub a b) = unat a - unat b"
  by (auto simp: saturating_sub_def word_le_nat_alt unat_sub_if')

lemma checked_sub_Some [rust_arith]:
  "checked_sub a b = Some c \<longleftrightarrow> unat b \<le> unat a \<and> c = a - b"
  by (auto simp: checked_sub_def word_le_nat_alt)

lemma checked_mul_Some:
  "checked_mul a b = Some c \<Longrightarrow> unat c = unat a * unat b"
  by (auto simp: checked_mul_def unat_word_ariths split: if_splits)

lemma try_u32_Some: "try_u32 (a :: 'a::len word) = Some c \<Longrightarrow> unat c = unat a"
  by (auto simp: try_u32_def unsigned_ucast_eq take_bit_eq_mod split: if_splits)

lemma unat_plus_exact [rust_arith]:
  fixes a b :: "'a::len word"
  assumes "unat a + unat b < 2 ^ LENGTH('a)"
  shows "unat (a + b) = unat a + unat b"
  using assms by (simp add: unat_word_ariths)

lemma unat_mult_exact [rust_arith]:
  fixes a b :: "'a::len word"
  assumes "unat a * unat b < 2 ^ LENGTH('a)"
  shows "unat (a * b) = unat a * unat b"
  using assms by (simp add: unat_word_ariths)

lemma unat_max [simp, rust_arith]: "unat (max a b) = max (unat a) (unat (b :: 'a::len word))"
  by (simp add: max_def word_le_nat_alt)

lemma unat_min [simp, rust_arith]: "unat (min a b) = min (unat a) (unat (b :: 'a::len word))"
  by (simp add: min_def word_le_nat_alt)

lemma unat_sum_list_exact:
  fixes xs :: "'a::len word list"
  assumes "sum_list (map unat xs) < 2 ^ LENGTH('a)"
  shows "unat (sum_list xs) = sum_list (map unat xs)"
  using assms
proof (induction xs)
  case Nil
  then show ?case by simp
next
  case (Cons x xs)
  then have "sum_list (map unat xs) < 2 ^ LENGTH('a)" by simp
  with Cons show ?case by (simp add: unat_plus_exact)
qed

lemma unat_ucast_up [rust_arith]:
  "LENGTH('a) \<le> LENGTH('b) \<Longrightarrow> unat (ucast (a :: 'a::len word) :: 'b::len word) = unat a"
proof -
  assume le: "LENGTH('a) \<le> LENGTH('b)"
  have "unat a < 2 ^ LENGTH('a)" by (rule unsigned_less)
  also have "(2::nat) ^ LENGTH('a) \<le> 2 ^ LENGTH('b)" using le by simp
  finally have "unat a < 2 ^ LENGTH('b)" .
  then show ?thesis by (simp add: unsigned_ucast_eq take_bit_eq_mod)
qed

lemma unat_u32_to_u64 [simp]: "unat (ucast (a :: u32) :: u64) = unat a"
  by (rule unat_ucast_up) simp

lemma unat_u64_to_u128 [simp]: "unat (ucast (a :: u64) :: u128) = unat a"
  by (rule unat_ucast_up) simp

lemma unat_u32_to_u128 [simp]: "unat (ucast (a :: u32) :: u128) = unat a"
  by (rule unat_ucast_up) simp

lemma unat_u32_less [simp]: "unat (a :: u32) < 4294967296"
  using unsigned_less [of a, where ?'a = nat] by simp

lemma unat_u64_less [simp]: "unat (a :: u64) < 18446744073709551616"
  using unsigned_less [of a, where ?'a = nat] by simp

lemma unat_of_nat_u64: "n < 2 ^ 64 \<Longrightarrow> unat (word_of_nat n :: u64) = n"
  by (simp add: unsigned_of_nat take_bit_nat_eq_self)

section \<open>Fallible steps\<close>

text \<open>The \<open>?\<close> operator: the error ends the function, the value goes on.\<close>

fun attempt :: "'e + 'a \<Rightarrow> ('a \<Rightarrow> 'e + 'b) \<Rightarrow> 'e + 'b" where
  "attempt (Inl e) f = Inl e"
| "attempt (Inr x) f = f x"

lemma attempt_Inr: "attempt m f = Inr y \<longleftrightarrow> (\<exists>x. m = Inr x \<and> f x = Inr y)"
  by (cases m) auto

lemma attempt_Inl: "attempt m f = Inl e \<longleftrightarrow> m = Inl e \<or> (\<exists>x. m = Inr x \<and> f x = Inl e)"
  by (cases m) auto

lemma attempt_cong [fundef_cong]:
  "m = m' \<Longrightarrow> (\<And>x. m' = Inr x \<Longrightarrow> f x = g x) \<Longrightarrow> attempt m f = attempt m' g"
  by (cases m') auto

text \<open>\<open>Option::or\<close> and \<open>unwrap_or\<close>.\<close>

fun or_else :: "'a option \<Rightarrow> 'a option \<Rightarrow> 'a option" where
  "or_else (Some x) _ = Some x"
| "or_else None y = y"

fun unwrap_or :: "'a option \<Rightarrow> 'a \<Rightarrow> 'a" where
  "unwrap_or (Some x) _ = x"
| "unwrap_or None y = y"

section \<open>Lists\<close>

lemma sum_list_filter_le:
  "sum_list (map f (filter P xs)) \<le> sum_list (map f (xs :: 'b list) :: nat list)"
  by (induction xs) auto

lemma sum_list_filter_split:
  "sum_list (map f (filter P xs)) + sum_list (map f (filter (\<lambda>x. \<not> P x) xs))
     = sum_list (map f (xs :: 'b list) :: nat list)"
  by (induction xs) auto

lemma sum_list_take_le: "sum_list (map f (take n xs)) \<le> sum_list (map f (xs :: 'b list) :: nat list)"
  by (metis append_take_drop_id le_add1 map_append sum_list.append)

section \<open>Ordered maps\<close>

text \<open>
  \<open>BTreeMap<K, V>\<close> as the list of its pairs, strictly sorted by key; iterating the map
  walks the list, \<open>get\<close> is \<^const>\<open>map_of\<close>.
\<close>

type_synonym ('k, 'v) btree = "('k \<times> 'v) list"

fun bt_insert :: "'k::linorder \<Rightarrow> 'v \<Rightarrow> ('k, 'v) btree \<Rightarrow> ('k, 'v) btree" where
  "bt_insert k v [] = [(k, v)]"
| "bt_insert k v ((k', v') # m) =
     (if k < k' then (k, v) # (k', v') # m
      else if k = k' then (k, v) # m
      else (k', v') # bt_insert k v m)"

text \<open>\<open>extend\<close> inserts the pairs one by one, so the last value of a key wins.\<close>

definition bt_extend :: "('k::linorder, 'v) btree \<Rightarrow> ('k \<times> 'v) list \<Rightarrow> ('k, 'v) btree" where
  "bt_extend m kvs = fold (\<lambda>(k, v). bt_insert k v) kvs m"

definition bt_wf :: "('k::linorder, 'v) btree \<Rightarrow> bool" where
  "bt_wf m \<longleftrightarrow> sorted_wrt (<) (map fst m)"

lemma bt_wf_Nil [simp]: "bt_wf []"
  by (simp add: bt_wf_def)

lemma bt_wf_Cons: "bt_wf ((k, v) # m) \<longleftrightarrow> (\<forall>k' \<in> fst ` set m. k < k') \<and> bt_wf m"
  by (auto simp: bt_wf_def)

lemma keys_bt_insert [simp]: "fst ` set (bt_insert k v m) = insert k (fst ` set m)"
  by (induction k v m rule: bt_insert.induct) (simp_all add: insert_commute)

lemma ball_bt_insert [simp]:
  "(\<forall>x \<in> set (bt_insert k v m). P (fst x)) \<longleftrightarrow> P k \<and> (\<forall>x \<in> set m. P (fst x))"
  by (induction k v m rule: bt_insert.induct) auto

lemma bt_wf_insert [simp, intro]: "bt_wf m \<Longrightarrow> bt_wf (bt_insert k v m)"
  by (induction k v m rule: bt_insert.induct) (fastforce simp: bt_wf_Cons)+

lemma map_of_bt_insert [simp]:
  "bt_wf m \<Longrightarrow> map_of (bt_insert k v m) = (map_of m)(k \<mapsto> v)"
proof (induction m)
  case Nil
  then show ?case by simp
next
  case (Cons kv m)
  obtain k' v' where kv: "kv = (k', v')" by (cases kv)
  have "k < k' \<Longrightarrow> map_of ((k', v') # m) k = map_of ((k', v') # m) k" by simp
  then show ?case using Cons kv by (auto simp: bt_wf_Cons fun_eq_iff)
qed

lemma bt_wf_extend [simp, intro]: "bt_wf m \<Longrightarrow> bt_wf (bt_extend m kvs)"
  unfolding bt_extend_def by (induction kvs arbitrary: m) auto

lemma map_of_bt_extend:
  "bt_wf m \<Longrightarrow> bt_wf kvs \<Longrightarrow> map_of (bt_extend m kvs) = map_of m ++ map_of kvs"
  unfolding bt_extend_def
proof (induction kvs arbitrary: m)
  case Nil
  then show ?case by simp
next
  case (Cons kv kvs)
  obtain k v where kv: "kv = (k, v)" by (cases kv)
  have notin: "k \<notin> fst ` set kvs" using Cons.prems(2) kv by (auto simp: bt_wf_Cons)
  then have "map_of kvs k = None" by (simp add: map_of_eq_None_iff)
  then show ?case using Cons kv by (auto simp: bt_wf_Cons fun_eq_iff map_add_def split: option.split)
qed

lemma bt_wf_distinct: "bt_wf m \<Longrightarrow> distinct (map fst m)"
  by (simp add: bt_wf_def strict_sorted_iff)

section \<open>The monotonic clock\<close>

text \<open>
  A \<open>Duration\<close> is a number of nanoseconds. An \<open>Instant\<close> is opaque in the standard
  library; here it is a reading of the clock in nanoseconds, ordered by time.
  \<open>duration_since\<close> saturates at zero, as the standard library's does.
\<close>

type_synonym duration = nat

datatype instant = Instant (nanos: nat)

instantiation instant :: linorder
begin

definition less_eq_instant :: "instant \<Rightarrow> instant \<Rightarrow> bool" where
  "less_eq_instant a b \<longleftrightarrow> nanos a \<le> nanos b"

definition less_instant :: "instant \<Rightarrow> instant \<Rightarrow> bool" where
  "less_instant a b \<longleftrightarrow> nanos a < nanos b"

instance
  by standard (auto simp: less_eq_instant_def less_instant_def instant.expand)

end

definition from_secs :: "u64 \<Rightarrow> duration" where
  "from_secs s = unat s * 1000000000"

definition from_millis :: "u64 \<Rightarrow> duration" where
  "from_millis ms = unat ms * 1000000"

definition as_secs :: "duration \<Rightarrow> nat" where
  "as_secs d = d div 1000000000"

definition duration_since :: "instant \<Rightarrow> instant \<Rightarrow> duration" where
  "duration_since now earlier = nanos now - nanos earlier"

text \<open>
  \<open>Instant + Duration\<close> panics past the last representable instant: on the platforms
  the router runs on, an instant holds a signed 64-bit count of seconds.
\<close>

definition instant_limit :: nat where
  "instant_limit = 2 ^ 63 * 1000000000"

definition instant_plus :: "instant \<Rightarrow> duration \<Rightarrow> instant option" where
  "instant_plus t d =
     (if nanos t + d < instant_limit then Some (Instant (nanos t + d)) else None)"

lemma as_secs_from_secs [simp]: "as_secs (from_secs s) = unat s"
  by (simp add: as_secs_def from_secs_def)

lemma instant_plus_Some:
  "instant_plus t d = Some u \<Longrightarrow> u = Instant (nanos t + d)"
  by (simp add: instant_plus_def split: if_splits)

end
