(* ===== verification/Rust_Str.thy ===== *)
theory Rust_Str
  imports Rust_Prelude
begin

text \<open>
  The part of the standard library's \<open>str\<close> the router uses. A Rust string is its UTF-8
  bytes, one \<^typ>\<open>char\<close> per byte; byte slices have the same type. Trimming and
  splitting follow \<open>char::is_whitespace\<close>, including its multi-byte members.
\<close>

section \<open>Bytes\<close>

definition code :: "char \<Rightarrow> nat" where
  "code c = of_char c"

definition byte :: "nat \<Rightarrow> char" where
  "byte n = char_of n"

definition is_ascii_digit :: "char \<Rightarrow> bool" where
  "is_ascii_digit c \<longleftrightarrow> 48 \<le> code c \<and> code c \<le> 57"

definition is_ascii_lowercase :: "char \<Rightarrow> bool" where
  "is_ascii_lowercase c \<longleftrightarrow> 97 \<le> code c \<and> code c \<le> 122"

definition is_ascii_uppercase :: "char \<Rightarrow> bool" where
  "is_ascii_uppercase c \<longleftrightarrow> 65 \<le> code c \<and> code c \<le> 90"

definition is_ascii_alphabetic :: "char \<Rightarrow> bool" where
  "is_ascii_alphabetic c \<longleftrightarrow> is_ascii_lowercase c \<or> is_ascii_uppercase c"

definition is_ascii_alphanumeric :: "char \<Rightarrow> bool" where
  "is_ascii_alphanumeric c \<longleftrightarrow> is_ascii_alphabetic c \<or> is_ascii_digit c"

definition ascii_lower :: "char \<Rightarrow> char" where
  "ascii_lower c = (if is_ascii_uppercase c then byte (code c + 32) else c)"

definition to_ascii_lowercase :: "string \<Rightarrow> string" where
  "to_ascii_lowercase s = map ascii_lower s"

definition eq_ignore_ascii_case :: "string \<Rightarrow> string \<Rightarrow> bool" where
  "eq_ignore_ascii_case a b \<longleftrightarrow> to_ascii_lowercase a = to_ascii_lowercase b"

lemma code_byte [simp]: "n < 256 \<Longrightarrow> code (byte n) = n"
  by (simp add: code_def byte_def)

lemma byte_code [simp]: "byte (code c) = c"
  by (simp add: code_def byte_def)

lemma code_less [simp]: "code c < 256"
  by (simp add: code_def)

lemma ascii_lower_idem [simp]: "ascii_lower (ascii_lower c) = ascii_lower c"
  by (auto simp: ascii_lower_def is_ascii_uppercase_def)

lemma ascii_lower_alnum:
  "is_ascii_alphanumeric c \<Longrightarrow> is_ascii_lowercase (ascii_lower c) \<or> is_ascii_digit (ascii_lower c)"
  by (auto simp: ascii_lower_def is_ascii_alphanumeric_def is_ascii_alphabetic_def
      is_ascii_uppercase_def is_ascii_lowercase_def is_ascii_digit_def)

lemma to_ascii_lowercase_idem [simp]:
  "to_ascii_lowercase (to_ascii_lowercase s) = to_ascii_lowercase s"
  by (simp add: to_ascii_lowercase_def)

section \<open>Patterns\<close>

fun is_prefix :: "string \<Rightarrow> string \<Rightarrow> bool" where
  "is_prefix [] s = True"
| "is_prefix (p # ps) [] = False"
| "is_prefix (p # ps) (c # cs) = (p = c \<and> is_prefix ps cs)"

definition starts_with :: "string \<Rightarrow> string \<Rightarrow> bool" where
  "starts_with s p = is_prefix p s"

definition ends_with :: "string \<Rightarrow> string \<Rightarrow> bool" where
  "ends_with s p = is_prefix (rev p) (rev s)"

definition strip_prefix :: "string \<Rightarrow> string \<Rightarrow> string option" where
  "strip_prefix p s = (if is_prefix p s then Some (drop (length p) s) else None)"

text \<open>\<open>split_once\<close>: around the first occurrence; \<open>rsplit_once\<close>: around the last.\<close>

fun split_once :: "string \<Rightarrow> string \<Rightarrow> (string \<times> string) option" where
  "split_once p [] = (if p = [] then Some ([], []) else None)"
| "split_once p (c # cs) =
     (if is_prefix p (c # cs) then Some ([], drop (length p) (c # cs))
      else map_option (\<lambda>(a, b). (c # a, b)) (split_once p cs))"

fun rsplit_once :: "string \<Rightarrow> string \<Rightarrow> (string \<times> string) option" where
  "rsplit_once p [] = (if p = [] then Some ([], []) else None)"
| "rsplit_once p (c # cs) =
     (case rsplit_once p cs of
        Some (a, b) \<Rightarrow> Some (c # a, b)
      | None \<Rightarrow> if is_prefix p (c # cs) then Some ([], drop (length p) (c # cs)) else None)"

fun contains :: "string \<Rightarrow> string \<Rightarrow> bool" where
  "contains [] p = (p = [])"
| "contains (c # cs) p = (is_prefix p (c # cs) \<or> contains cs p)"

text \<open>Splitting at every byte of a kind; a string without one is a single part.\<close>

fun split_on :: "(char \<Rightarrow> bool) \<Rightarrow> string \<Rightarrow> string list" where
  "split_on p [] = [[]]"
| "split_on p (c # cs) =
     (if p c then [] # split_on p cs
      else (case split_on p cs of [] \<Rightarrow> [[c]] | w # ws \<Rightarrow> (c # w) # ws))"

fun join :: "string \<Rightarrow> string list \<Rightarrow> string" where
  "join sep [] = []"
| "join sep [x] = x"
| "join sep (x # y # ys) = x @ sep @ join sep (y # ys)"

text \<open>A value between single quotes, as the messages name one.\<close>

definition quoted :: "string \<Rightarrow> string" where
  "quoted s = [CHR 0x27] @ s @ [CHR 0x27]"

lemma is_prefix_iff: "is_prefix p s \<longleftrightarrow> (\<exists>t. s = p @ t)"
  by (induction p s rule: is_prefix.induct) auto

lemma is_prefix_append [simp]: "is_prefix p (p @ t)"
  by (auto simp: is_prefix_iff)

lemma contains_iff: "contains s p \<longleftrightarrow> (\<exists>u v. s = u @ p @ v)"
proof (induction s)
  case Nil
  then show ?case by auto
next
  case (Cons c s)
  have "(\<exists>u v. c # s = u @ p @ v) \<longleftrightarrow> is_prefix p (c # s) \<or> (\<exists>u v. s = u @ p @ v)"
  proof
    assume "\<exists>u v. c # s = u @ p @ v"
    then obtain u v where "c # s = u @ p @ v" by blast
    then show "is_prefix p (c # s) \<or> (\<exists>u v. s = u @ p @ v)"
      by (cases u) (auto simp: is_prefix_iff)
  next
    assume "is_prefix p (c # s) \<or> (\<exists>u v. s = u @ p @ v)"
    then show "\<exists>u v. c # s = u @ p @ v"
      by (auto simp: is_prefix_iff intro: exI [of _ "[]"]) (metis append_Cons)
  qed
  with Cons show ?case by simp
qed

lemma strip_prefix_Some: "strip_prefix p s = Some t \<longleftrightarrow> s = p @ t"
  by (auto simp: strip_prefix_def is_prefix_iff)

lemma split_once_Some:
  "split_once p s = Some (a, b) \<Longrightarrow> s = a @ p @ b"
  by (induction p s arbitrary: a rule: split_once.induct)
    (auto simp: is_prefix_iff split: if_splits)

lemma split_once_char:
  "c \<notin> set a \<Longrightarrow> split_once [c] (a @ c # b) = Some (a, b)"
  by (induction a) auto

lemma split_once_char_None: "split_once [c] s = None \<longleftrightarrow> c \<notin> set s"
  by (induction s) (auto split: if_splits)

lemma split_once_char_notin: "split_once [c] s = Some (a, b) \<Longrightarrow> c \<notin> set a"
  by (induction s arbitrary: a) (auto split: if_splits)

lemma rsplit_once_Some:
  "rsplit_once p s = Some (a, b) \<Longrightarrow> s = a @ p @ b"
  by (induction p s arbitrary: a b rule: rsplit_once.induct)
    (auto simp: is_prefix_iff split: if_splits option.splits)

lemma rsplit_once_char_None: "rsplit_once [c] s = None \<longleftrightarrow> c \<notin> set s"
  by (induction s) (auto split: option.splits)

lemma rsplit_once_char_notin: "rsplit_once [c] s = Some (a, b) \<Longrightarrow> c \<notin> set b"
  by (induction s arbitrary: a b) (auto simp: rsplit_once_char_None split: option.splits if_splits)

lemma rsplit_once_char:
  "c \<notin> set b \<Longrightarrow> rsplit_once [c] (a @ c # b) = Some (a, b)"
proof (induction a)
  case Nil
  then have "rsplit_once [c] b = None" by (simp add: rsplit_once_char_None)
  then show ?case by simp
next
  case (Cons x a)
  then show ?case by simp
qed

lemma split_on_ne [simp]: "split_on p s \<noteq> []"
  by (induction s) (auto split: list.splits)

lemma split_on_no: "w \<in> set (split_on p s) \<Longrightarrow> c \<in> set w \<Longrightarrow> \<not> p c"
proof (induction s arbitrary: w)
  case Nil
  then show ?case by simp
next
  case (Cons a s)
  obtain v vs where v: "split_on p s = v # vs" by (cases "split_on p s") auto
  have "\<forall>w \<in> set (split_on p s). c \<in> set w \<longrightarrow> \<not> p c" using Cons.IH by blast
  with Cons.prems v show ?case by (auto split: if_splits)
qed

lemma join_no: "set (join sep xs) \<subseteq> set sep \<union> \<Union> (set ` set xs)"
  by (induction sep xs rule: join.induct) auto

section \<open>White space\<close>

text \<open>The UTF-8 spellings of the code points of \<open>char::is_whitespace\<close>.\<close>

definition white_spaces :: "string list" where
  "white_spaces =
     [[CHR 0x09], [CHR 0x0A], [CHR 0x0B], [CHR 0x0C], [CHR 0x0D], [CHR 0x20],
      [CHR 0xC2, CHR 0x85], [CHR 0xC2, CHR 0xA0], [CHR 0xE1, CHR 0x9A, CHR 0x80]]
     @ map (\<lambda>c. [CHR 0xE2, CHR 0x80, c])
         [CHR 0x80, CHR 0x81, CHR 0x82, CHR 0x83, CHR 0x84, CHR 0x85, CHR 0x86, CHR 0x87,
          CHR 0x88, CHR 0x89, CHR 0x8A, CHR 0xA8, CHR 0xA9, CHR 0xAF]
     @ [[CHR 0xE2, CHR 0x81, CHR 0x9F], [CHR 0xE3, CHR 0x80, CHR 0x80]]"

text \<open>How many bytes the white space at the front of a string takes, zero for none.\<close>

definition space_at :: "string list \<Rightarrow> string \<Rightarrow> nat" where
  "space_at ws s = (case find (\<lambda>w. is_prefix w s) ws of None \<Rightarrow> 0 | Some w \<Rightarrow> length w)"

function strip_spaces :: "string list \<Rightarrow> string \<Rightarrow> string" where
  "strip_spaces ws s =
     (if s = [] \<or> space_at ws s = 0 then s else strip_spaces ws (drop (space_at ws s) s))"
  by pat_completeness auto
termination
  by (relation "measure (\<lambda>(ws, s). length s)") auto

declare strip_spaces.simps [simp del]

definition trim_start :: "string \<Rightarrow> string" where
  "trim_start s = strip_spaces white_spaces s"

definition trim_end :: "string \<Rightarrow> string" where
  "trim_end s = rev (strip_spaces (map rev white_spaces) (rev s))"

definition trim :: "string \<Rightarrow> string" where
  "trim s = trim_end (trim_start s)"

text \<open>\<open>split_whitespace\<close>: the maximal runs without white space.\<close>

function words_from :: "string \<Rightarrow> string \<Rightarrow> string list" where
  "words_from cur s =
     (if s = [] then (if cur = [] then [] else [cur])
      else if space_at white_spaces s = 0 then words_from (cur @ [hd s]) (tl s)
      else (if cur = [] then [] else [cur]) @ words_from [] (drop (space_at white_spaces s) s))"
  by pat_completeness auto
termination
  by (relation "measure (\<lambda>(cur, s). length s)") auto

declare words_from.simps [simp del]

definition split_whitespace :: "string \<Rightarrow> string list" where
  "split_whitespace s = words_from [] s"

text \<open>\<open>trim_matches\<close> and its one-sided forms, for a set of single bytes.\<close>

definition trim_start_matches :: "(char \<Rightarrow> bool) \<Rightarrow> string \<Rightarrow> string" where
  "trim_start_matches p s = dropWhile p s"

definition trim_end_matches :: "(char \<Rightarrow> bool) \<Rightarrow> string \<Rightarrow> string" where
  "trim_end_matches p s = rev (dropWhile p (rev s))"

definition trim_matches :: "(char \<Rightarrow> bool) \<Rightarrow> string \<Rightarrow> string" where
  "trim_matches p s = trim_end_matches p (trim_start_matches p s)"

text \<open>\<open>lines\<close>: split at newlines, a carriage return before one dropped, no empty last line.\<close>

definition newline :: char where
  "newline = CHR 0x0A"

definition carriage :: char where
  "carriage = CHR 0x0D"

definition crlf :: string where
  "crlf = [carriage, newline]"

definition strip_carriage :: "string \<Rightarrow> string" where
  "strip_carriage s = (if s \<noteq> [] \<and> last s = carriage then butlast s else s)"

definition lines :: "string \<Rightarrow> string list" where
  "lines s =
     (let parts = split_on (\<lambda>c. c = newline) s
      in map strip_carriage (butlast parts) @ (if last parts = [] then [] else [last parts]))"

lemma newline_carriage [simp]: "newline \<noteq> carriage" "carriage \<noteq> newline"
  by (simp_all add: newline_def carriage_def)

lemma strip_spaces_suffix: "\<exists>p. s = p @ strip_spaces ws s"
proof (induction ws s rule: strip_spaces.induct)
  case (1 ws s)
  show ?case
  proof (cases "s = [] \<or> space_at ws s = 0")
    case True
    then show ?thesis by (simp add: strip_spaces.simps [of ws s])
  next
    case False
    with 1 obtain p where "drop (space_at ws s) s = p @ strip_spaces ws (drop (space_at ws s) s)"
      by blast
    then have "s = (take (space_at ws s) s @ p) @ strip_spaces ws (drop (space_at ws s) s)"
      by (metis append.assoc append_take_drop_id)
    moreover have "strip_spaces ws s = strip_spaces ws (drop (space_at ws s) s)"
      using False by (simp add: strip_spaces.simps [of ws s])
    ultimately show ?thesis by metis
  qed
qed

lemma set_trim_start: "set (trim_start s) \<subseteq> set s"
  using strip_spaces_suffix [of s white_spaces] unfolding trim_start_def
  by (metis Un_upper2 set_append)

lemma set_trim_end: "set (trim_end s) \<subseteq> set s"
  using strip_spaces_suffix [of "rev s" "map rev white_spaces"] unfolding trim_end_def
  by (metis Un_upper2 set_append set_rev)

lemma set_trim: "set (trim s) \<subseteq> set s"
  unfolding trim_def using set_trim_end set_trim_start by blast

text \<open>Trimming around text whose ends are visible ASCII removes exactly the spaces.\<close>

definition visible :: "char \<Rightarrow> bool" where
  "visible c \<longleftrightarrow> 33 \<le> code c \<and> code c \<le> 126"

lemma white_spaces_ends: "list_all (\<lambda>w. w \<noteq> [] \<and> \<not> visible (hd w) \<and> \<not> visible (last w)) white_spaces"
  by code_simp

lemma space_at_visible: "visible c \<Longrightarrow> space_at white_spaces (c # s) = 0"
  and space_at_visible_rev: "visible c \<Longrightarrow> space_at (map rev white_spaces) (c # s) = 0"
proof -
  assume c: "visible c"
  have "\<not> is_prefix w (c # s)" if "w \<in> set white_spaces" for w
    using white_spaces_ends that c by (cases w) (auto simp: list_all_iff)
  then show "space_at white_spaces (c # s) = 0"
    by (auto simp: space_at_def find_Some_iff split: option.split)
  have "\<not> is_prefix (rev w) (c # s)" if "w \<in> set white_spaces" for w
    using white_spaces_ends that c by (cases "rev w") (auto simp: list_all_iff hd_rev)
  then have "find (\<lambda>w. is_prefix w (c # s)) (map rev white_spaces) = None"
    by (auto simp: find_None_iff)
  then show "space_at (map rev white_spaces) (c # s) = 0" by (simp add: space_at_def)
qed

lemma space_at_space: "space_at white_spaces (CHR '' '' # s) = 1" "space_at (map rev white_spaces) (CHR '' '' # s) = 1"
  by (simp_all add: space_at_def white_spaces_def)

lemma strip_spaces_blank:
  assumes "space_at ws (CHR '' '' # t) = 1" "\<And>t. space_at ws (CHR '' '' # t) = 1" "s = [] \<or> space_at ws s = 0"
  shows "strip_spaces ws (replicate n (CHR '' '') @ s) = s"
  using assms(3)
proof (induction n)
  case 0
  then show ?case by (subst strip_spaces.simps) simp
next
  case (Suc n)
  then show ?case using assms(2) by (subst strip_spaces.simps) simp
qed

lemma trim_visible:
  assumes "s \<noteq> []" and "visible (hd s)" and "visible (last s)"
  shows "trim (replicate n (CHR '' '') @ s @ replicate m (CHR '' '')) = s"
proof -
  obtain c t where s: "s = c # t" using assms(1) by (cases s) auto
  have start: "trim_start (replicate n (CHR '' '') @ s @ replicate m (CHR '' '')) = s @ replicate m (CHR '' '')"
    unfolding trim_start_def using assms(2) s space_at_space space_at_visible
    by (intro strip_spaces_blank) auto
  obtain d u where u: "rev s = d # u" using assms(1) by (cases "rev s") auto
  then have "visible d" using assms(3) by (metis last_rev list.sel(1) rev_rev_ident hd_rev)
  then have "strip_spaces (map rev white_spaces) (replicate m (CHR '' '') @ rev s) = rev s"
    unfolding u using space_at_space space_at_visible_rev by (intro strip_spaces_blank) auto
  then show ?thesis unfolding trim_def start trim_end_def by simp
qed

lemma trim_digits: "list_all is_ascii_digit s \<Longrightarrow> s \<noteq> [] \<Longrightarrow> trim s = s" "list_all is_ascii_digit s \<Longrightarrow> s \<noteq> [] \<Longrightarrow> trim (CHR '' '' # s) = s"
proof -
  assume s: "list_all is_ascii_digit s" "s \<noteq> []"
  have "visible c" if "c \<in> set s" for c
    using s(1) that by (auto simp: list_all_iff visible_def is_ascii_digit_def)
  then have "visible (hd s)" "visible (last s)" using s(2) by simp_all
  with s trim_visible [of s 0 0] trim_visible [of s 1 0] show "trim s = s" "trim (CHR '' '' # s) = s" by simp_all
qed

lemma lines_joined:
  assumes "\<forall>l \<in> set ls. newline \<notin> set l \<and> (l = [] \<or> last l \<noteq> carriage)"
  shows "lines (concat (map (\<lambda>l. l @ [newline]) ls)) = ls"
proof -
  have split: "split_on (\<lambda>c. c = newline) (concat (map (\<lambda>l. l @ [newline]) ls)) = ls @ [[]]"
    using assms
  proof (induction ls)
    case Nil
    then show ?case by simp
  next
    case (Cons l ls)
    have "split_on (\<lambda>c. c = newline) (l @ newline # s) = l # split_on (\<lambda>c. c = newline) s"
      if "newline \<notin> set l" for l s
      using that by (induction l) auto
    then show ?case using Cons by simp
  qed
  have "map strip_carriage ls = ls" using assms by (auto simp: strip_carriage_def intro!: map_idI)
  then show ?thesis by (simp add: lines_def split)
qed

lemma words_from_ne: "w \<in> set (words_from cur s) \<Longrightarrow> w \<noteq> []"
proof (induction cur s rule: words_from.induct)
  case (1 cur s)
  then show ?case
    by (subst (asm) words_from.simps) (auto split: if_splits)
qed

lemma split_whitespace_ne: "w \<in> set (split_whitespace s) \<Longrightarrow> w \<noteq> []"
  unfolding split_whitespace_def by (rule words_from_ne)

lemma trim_end_matches_last:
  "trim_end_matches p s \<noteq> [] \<Longrightarrow> \<not> p (last (trim_end_matches p s))"
  unfolding trim_end_matches_def by (simp add: last_rev hd_dropWhile)

lemma trim_end_matches_prefix: "\<exists>t. s = trim_end_matches p s @ t"
  unfolding trim_end_matches_def
  by (metis rev_append rev_rev_ident takeWhile_dropWhile_id)

lemma trim_end_matches_id: "s = [] \<or> \<not> p (last s) \<Longrightarrow> trim_end_matches p s = s"
  unfolding trim_end_matches_def by (cases s rule: rev_cases) auto

section \<open>Numbers as text\<close>

definition digit :: "nat \<Rightarrow> char" where
  "digit n = byte (48 + n)"

fun show_nat :: "nat \<Rightarrow> string" where
  "show_nat n = (if n < 10 then [digit n] else show_nat (n div 10) @ [digit (n mod 10)])"

declare show_nat.simps [simp del]

definition show_word :: "'a::len word \<Rightarrow> string" where
  "show_word w = show_nat (unat w)"

definition show_int :: "int \<Rightarrow> string" where
  "show_int i = (if i < 0 then ''-'' @ show_nat (nat (- i)) else show_nat (nat i))"

definition zero_padded :: "nat \<Rightarrow> string \<Rightarrow> string" where
  "zero_padded width s = replicate (width - length s) (CHR ''0'') @ s"

definition digits_value :: "string \<Rightarrow> nat" where
  "digits_value s = foldl (\<lambda>n c. 10 * n + (code c - 48)) 0 s"

text \<open>\<open>parse\<close> to an unsigned integer: an optional plus sign, then digits, within the width.\<close>

definition parse_uint :: "nat \<Rightarrow> string \<Rightarrow> nat option" where
  "parse_uint width s =
     (let body = (case s of [] \<Rightarrow> [] | c # cs \<Rightarrow> if c = CHR ''+'' then cs else s)
      in if body \<noteq> [] \<and> list_all is_ascii_digit body \<and> digits_value body < 2 ^ width
         then Some (digits_value body) else None)"

definition parse_u32 :: "string \<Rightarrow> u32 option" where
  "parse_u32 s = map_option of_nat (parse_uint 32 s)"

definition parse_u64 :: "string \<Rightarrow> u64 option" where
  "parse_u64 s = map_option of_nat (parse_uint 64 s)"

lemma digit_is_digit: "n < 10 \<Longrightarrow> is_ascii_digit (digit n)"
  by (simp add: digit_def is_ascii_digit_def)

lemma show_nat_ne [simp]: "show_nat n \<noteq> []"
  by (subst show_nat.simps) simp

lemma show_nat_digits: "list_all is_ascii_digit (show_nat n)"
proof (induction n rule: show_nat.induct)
  case (1 n)
  then show ?case
    by (subst show_nat.simps) (auto simp: digit_is_digit)
qed

lemma digits_value_show [simp]: "digits_value (show_nat n) = n"
proof (induction n rule: show_nat.induct)
  case (1 n)
  show ?case
  proof (cases "n < 10")
    case True
    then show ?thesis by (subst show_nat.simps) (simp add: digits_value_def digit_def)
  next
    case False
    with 1 have "digits_value (show_nat (n div 10)) = n div 10" by simp
    with False show ?thesis
      by (subst show_nat.simps) (simp add: digits_value_def digit_def)
  qed
qed

lemma show_nat_no_plus: "hd (show_nat n) \<noteq> CHR ''+''"
proof -
  have "is_ascii_digit (hd (show_nat n))"
    using show_nat_digits [of n] by (cases "show_nat n") auto
  then show ?thesis by (auto simp: is_ascii_digit_def code_def)
qed

theorem parse_show_nat: "n < 2 ^ width \<Longrightarrow> parse_uint width (show_nat n) = Some n"
proof -
  assume n: "n < 2 ^ width"
  have "(case show_nat n of [] \<Rightarrow> [] | c # cs \<Rightarrow> if c = CHR ''+'' then cs else show_nat n) = show_nat n"
    using show_nat_no_plus [of n] by (cases "show_nat n") auto
  with n show ?thesis
    using show_nat_digits [of n] by (simp add: parse_uint_def Let_def)
qed

lemma parse_show_u64 [simp]: "parse_u64 (show_word (w :: u64)) = Some w"
  by (simp add: parse_u64_def show_word_def parse_show_nat)

lemma parse_show_u32 [simp]: "parse_u32 (show_word (w :: u32)) = Some w"
  by (simp add: parse_u32_def show_word_def parse_show_nat)

lemma show_nat_inj [simp]: "show_nat a = show_nat b \<longleftrightarrow> a = b"
  by (metis digits_value_show)

section \<open>UTF-8\<close>

text \<open>The ranges the bytes after a first byte must lie in, or none for no first byte.\<close>

definition continuations :: "nat \<Rightarrow> (nat \<times> nat) list option" where
  "continuations b =
     (let c = (0x80, 0xBF) in
      if b < 0x80 then Some []
      else if 0xC2 \<le> b \<and> b \<le> 0xDF then Some [c]
      else if b = 0xE0 then Some [(0xA0, 0xBF), c]
      else if b = 0xED then Some [(0x80, 0x9F), c]
      else if 0xE1 \<le> b \<and> b \<le> 0xEF then Some [c, c]
      else if b = 0xF0 then Some [(0x90, 0xBF), c, c]
      else if 0xF1 \<le> b \<and> b \<le> 0xF3 then Some [c, c, c]
      else if b = 0xF4 then Some [(0x80, 0x8F), c, c]
      else None)"

fun matched :: "(nat \<times> nat) list \<Rightarrow> string \<Rightarrow> nat" where
  "matched [] s = 0"
| "matched (r # rs) [] = 0"
| "matched ((lo, hi) # rs) (c # cs) = (if lo \<le> code c \<and> code c \<le> hi then Suc (matched rs cs) else 0)"

text \<open>Whether a string begins with a whole character, and the bytes to step over.\<close>

definition utf8_step :: "string \<Rightarrow> bool \<times> nat" where
  "utf8_step s =
     (case s of
        [] \<Rightarrow> (True, 0)
      | c # cs \<Rightarrow>
          (case continuations (code c) of
             None \<Rightarrow> (False, 1)
           | Some rs \<Rightarrow> (matched rs cs = length rs, Suc (matched rs cs))))"

lemma utf8_step_pos: "s \<noteq> [] \<Longrightarrow> 0 < snd (utf8_step s)"
  by (auto simp: utf8_step_def split: list.splits option.splits)

function utf8_valid :: "string \<Rightarrow> bool" where
  "utf8_valid s =
     (if s = [] then True
      else fst (utf8_step s) \<and> utf8_valid (drop (snd (utf8_step s)) s))"
  by pat_completeness auto
termination
  by (relation "measure length") (auto simp: utf8_step_pos)

text \<open>\<open>from_utf8_lossy\<close>: every malformed part becomes the replacement character.\<close>

function from_utf8_lossy :: "string \<Rightarrow> string" where
  "from_utf8_lossy s =
     (if s = [] then []
      else (if fst (utf8_step s) then take (snd (utf8_step s)) s else [CHR 0xEF, CHR 0xBF, CHR 0xBD])
           @ from_utf8_lossy (drop (snd (utf8_step s)) s))"
  by pat_completeness auto
termination
  by (relation "measure length") (auto simp: utf8_step_pos)

declare utf8_valid.simps [simp del] from_utf8_lossy.simps [simp del]

lemma utf8_valid_ascii: "list_all (\<lambda>c. code c < 0x80) s \<Longrightarrow> utf8_valid s"
proof (induction s)
  case Nil
  then show ?case by (simp add: utf8_valid.simps)
next
  case (Cons c s)
  then have "utf8_step (c # s) = (True, Suc 0)"
    by (simp add: utf8_step_def continuations_def)
  with Cons show ?case by (simp add: utf8_valid.simps [of "c # s"])
qed

lemma from_utf8_lossy_valid: "utf8_valid s \<Longrightarrow> from_utf8_lossy s = s"
proof (induction s rule: utf8_valid.induct)
  case (1 s)
  show ?case
  proof (cases "s = []")
    case True
    then show ?thesis by (simp add: from_utf8_lossy.simps)
  next
    case False
    with "1.prems" have "fst (utf8_step s)" "utf8_valid (drop (snd (utf8_step s)) s)"
      by (simp_all add: utf8_valid.simps [of s])
    with 1 False show ?thesis by (simp add: from_utf8_lossy.simps [of s])
  qed
qed

end
