(* ===== verification/Catalog.thy ===== *)
theory Catalog
  imports Rust_Str
begin

text \<open>
  The catalog's data (\<open>src/src/catalog.rs\<close>), its relative locations
  (\<open>src/src/catalog/path.rs\<close>) and what an entry can be asked for
  (\<open>src/src/catalog/capability.rs\<close>). A path of the operating system is its text, with
  the Unix separator; the ordered flags table is a \<open>btree\<close>.
\<close>

section \<open>Locations (path.rs)\<close>

datatype relative_path = RelativePath (as_str: string)

definition anchor_of :: "string \<Rightarrow> string option" where
  "anchor_of value =
     (if starts_with value [CHR 0x5C, CHR 0x5C] then Some ''a network share''
      else if starts_with value ''/'' \<or> starts_with value [CHR 0x5C] then Some ''a filesystem root''
      else (case value of
              letter # c # _ \<Rightarrow>
                if c = CHR '':'' \<and> is_ascii_alphabetic letter then Some ''a drive letter'' else None
            | _ \<Rightarrow> None))"

definition relative_path_new :: "string \<Rightarrow> string + relative_path" where
  "relative_path_new value =
     (if value = [] then Inl ''must not be empty''
      else (case anchor_of value of
              Some anchor \<Rightarrow>
                Inl (''must be relative to the models root, but '' @ [CHR 0x27] @ value @ [CHR 0x27]
                     @ '' is anchored to '' @ anchor)
            | None \<Rightarrow> Inr (RelativePath value)))"

text \<open>\<open>Path::join\<close> on Unix: an absolute second part replaces the first.\<close>

definition path_join :: "string \<Rightarrow> string \<Rightarrow> string" where
  "path_join root p =
     (if starts_with p ''/'' then p
      else if root = [] \<or> ends_with root ''/'' then root @ p
      else root @ ''/'' @ p)"

definition path_resolve :: "relative_path \<Rightarrow> string \<Rightarrow> string" where
  "path_resolve p root = path_join root (as_str p)"

section \<open>Entries and catalogs (catalog.rs)\<close>

datatype residency = Resident | OnDemand

definition residency_names :: "string list" where
  "residency_names = [''resident'', ''on-demand'']"

definition residency_parse :: "string \<Rightarrow> residency option" where
  "residency_parse value =
     (if value = ''resident'' then Some Resident
      else if value = ''on-demand'' then Some OnDemand else None)"

type_synonym flags = "(string, string) btree"

record entry =
  e_id :: string
  e_path :: relative_path
  e_draft_path :: "relative_path option"
  e_projector_path :: "relative_path option"
  e_context_size :: u32
  e_residency :: residency
  e_memory_estimate_mib :: u32
  e_reasoning_format :: "string option"
  e_reasoning_effort :: "string option"
  e_startup_timeout_seconds :: u32
  e_runtime :: "string option"
  e_flags :: flags

record catalog =
  c_version :: u32
  c_entries :: "entry list"
  c_derived :: "string set"
  c_discovered :: "string set"

text \<open>A report is the list of its problems, in the order they were found.\<close>

datatype report = Report (problems: "string list")

definition report_single :: "string \<Rightarrow> report" where
  "report_single problem = Report [problem]"

definition report_text :: "report \<Rightarrow> string" where
  "report_text r = join [newline] (problems r)"

datatype estimate_source = Declared | Derived_from_files

definition resident_reservation_mib :: "catalog \<Rightarrow> u64" where
  "resident_reservation_mib c =
     sum_list (map (\<lambda>e. ucast (e_memory_estimate_mib e))
       (filter (\<lambda>e. e_residency e = Resident) (c_entries c)))"

definition catalog_entry :: "catalog \<Rightarrow> string \<Rightarrow> entry option" where
  "catalog_entry c i = find (\<lambda>e. e_id e = i) (c_entries c)"

definition estimate_source_of :: "catalog \<Rightarrow> string \<Rightarrow> estimate_source option" where
  "estimate_source_of c i =
     (case catalog_entry c i of
        None \<Rightarrow> None
      | Some _ \<Rightarrow> Some (if i \<in> c_derived c then Derived_from_files else Declared))"

definition is_discovered :: "catalog \<Rightarrow> string \<Rightarrow> bool" where
  "is_discovered c i \<longleftrightarrow> i \<in> c_discovered c"

section \<open>Capabilities (capability.rs)\<close>

text \<open>Whether a flag's value switches its mode on: anything but false and zero.\<close>

definition switched_on :: "string \<Rightarrow> bool" where
  "switched_on value \<longleftrightarrow> to_ascii_lowercase (trim value) \<notin> {''false'', ''0''}"

definition generates :: "entry \<Rightarrow> bool" where
  "generates e \<longleftrightarrow>
     \<not> list_ex switched_on
         (List.map_filter (\<lambda>name. map_of (e_flags e) name)
           [''embeddings'', ''embedding'', ''reranking'', ''rerank''])"

definition accepts :: "entry \<Rightarrow> string list" where
  "accepts e = (if e_projector_path e \<noteq> None then [''text'', ''image''] else [''text''])"

section \<open>Facts about locations\<close>

lemma anchor_of_None:
  "anchor_of value = None \<longleftrightarrow>
     \<not> starts_with value ''/'' \<and> \<not> starts_with value [CHR 0x5C] \<and>
     \<not> (\<exists>letter rest. value = letter # CHR '':'' # rest \<and> is_ascii_alphabetic letter)"
  by (cases "value") (auto simp: anchor_of_def starts_with_def split: list.splits if_splits)

lemma relative_path_new_Inr:
  "relative_path_new value = Inr p \<longleftrightarrow> value \<noteq> [] \<and> anchor_of value = None \<and> p = RelativePath value"
  by (auto simp: relative_path_new_def split: option.splits)

text \<open>A location the constructor lets through never replaces the root it is resolved against.\<close>

lemma path_resolve_under_root:
  assumes "relative_path_new value = Inr p"
  shows "path_resolve p root = (if root = [] \<or> ends_with root ''/'' then root else root @ ''/'') @ value"
  using assms by (auto simp: relative_path_new_Inr path_resolve_def path_join_def anchor_of_None)

section \<open>Facts about catalogs\<close>

lemma catalog_entry_Some:
  "catalog_entry c i = Some e \<Longrightarrow> e \<in> set (c_entries c) \<and> e_id e = i"
  by (auto simp: catalog_entry_def find_Some_iff)

lemma catalog_entry_distinct:
  "distinct (map e_id (c_entries c)) \<Longrightarrow> e \<in> set (c_entries c) \<Longrightarrow> catalog_entry c (e_id e) = Some e"
proof -
  assume d: "distinct (map e_id (c_entries c))" and e: "e \<in> set (c_entries c)"
  then obtain e' where e': "catalog_entry c (e_id e) = Some e'"
    by (cases "catalog_entry c (e_id e)") (auto simp: catalog_entry_def find_None_iff)
  then have "e' \<in> set (c_entries c)" "e_id e' = e_id e" by (auto dest: catalog_entry_Some)
  with d e have "e' = e" by (auto simp: distinct_map inj_on_def)
  with e' show ?thesis by simp
qed

text \<open>
  The reservation does not wrap: fewer than \<open>2^32\<close> entries of at most \<open>2^32 - 1\<close> MiB each
  sum below \<open>2^64\<close>.
\<close>

lemma sum_list_u32_bound:
  "sum_list (map (\<lambda>x. unat (f x :: u32)) xs) \<le> length xs * (2 ^ 32 - 1)"
proof (induction xs)
  case Nil
  then show ?case by simp
next
  case (Cons x xs)
  have "unat (f x) < 2 ^ 32" by simp
  then have "unat (f x) \<le> 2 ^ 32 - 1" by linarith
  with Cons show ?case by simp
qed

lemma resident_reservation_exact:
  assumes "length (c_entries c) \<le> 2 ^ 32"
  shows "unat (resident_reservation_mib c) =
     sum_list (map (\<lambda>e. unat (e_memory_estimate_mib e))
       (filter (\<lambda>e. e_residency e = Resident) (c_entries c)))"
proof -
  let ?es = "filter (\<lambda>e. e_residency e = Resident) (c_entries c)"
  have len: "length ?es \<le> 2 ^ 32" using assms length_filter_le le_trans by blast
  have "sum_list (map (\<lambda>e. unat (e_memory_estimate_mib e)) ?es) \<le> length ?es * (2 ^ 32 - 1)"
    by (rule sum_list_u32_bound)
  also have "\<dots> \<le> 2 ^ 32 * (2 ^ 32 - 1)" using len by (intro mult_right_mono) auto
  also have "\<dots> < (2::nat) ^ 64" by simp
  finally have "sum_list (map unat (map (\<lambda>e. ucast (e_memory_estimate_mib e) :: u64) ?es)) < 2 ^ LENGTH(64)"
    by (simp add: comp_def)
  from unat_sum_list_exact [OF this] show ?thesis
    by (simp add: resident_reservation_mib_def comp_def)
qed

text \<open>An entry with nothing set that it need not have, for the concrete inputs below and elsewhere.\<close>

definition sample_catalog_entry :: entry where
  "sample_catalog_entry =
     \<lparr>e_id = ''m'', e_path = RelativePath ''m.gguf'', e_draft_path = None, e_projector_path = None,
      e_context_size = 8192, e_residency = OnDemand, e_memory_estimate_mib = 0,
      e_reasoning_format = None, e_reasoning_effort = None, e_startup_timeout_seconds = 300,
      e_runtime = None, e_flags = []\<rparr>"

end
