(* ===== verification/Catalog_Read.thy ===== *)
theory Catalog_Read
  imports Catalog "HOL-Library.State_Monad"
begin

text \<open>
  Reading a catalog's text (\<open>src/src/catalog/field.rs\<close>, \<open>src/src/catalog/read.rs\<close> and
  \<open>Catalog::parse\<close> in \<open>src/src/catalog.rs\<close>). The \<open>toml\<close> crate is a parameter: a
  function from the text to its top table or the crate's complaint. A table is the crate's
  \<open>BTreeMap\<close>, in key order. The two lists the source pushes onto (the problems, and the
  set of entries without an estimate) are the state of a state monad, so that every reader
  reports as it goes and none of them stops the walk.
\<close>

section \<open>TOML values\<close>

datatype toml_value =
    TString string
  | TInteger u64 \<comment> \<open>an \<open>i64\<close>, read with \<^const>\<open>sint\<close>\<close>
  | TTable "(string \<times> toml_value) list"
  | TOther \<comment> \<open>a float, a boolean, a date or an array\<close>

type_synonym toml_table = "(string, toml_value) btree"

fun value_as_str :: "toml_value \<Rightarrow> string option" where
  "value_as_str (TString s) = Some s"
| "value_as_str _ = None"

fun value_as_integer :: "toml_value \<Rightarrow> u64 option" where
  "value_as_integer (TInteger n) = Some n"
| "value_as_integer _ = None"

fun value_as_table :: "toml_value \<Rightarrow> toml_table option" where
  "value_as_table (TTable t) = Some t"
| "value_as_table _ = None"

section \<open>What a walk of the text accumulates\<close>

record walk =
  w_undeclared :: "string set"
  w_problems :: "string list"

definition walk_start :: walk where
  "walk_start = \<lparr>w_undeclared = {}, w_problems = []\<rparr>"

type_synonym 'a reader = "(walk, 'a) state"

definition push_problem :: "string \<Rightarrow> unit reader" where
  "push_problem p = State_Monad.update (\<lambda>w. w\<lparr>w_problems := w_problems w @ [p]\<rparr>)"

definition mark_undeclared :: "string \<Rightarrow> unit reader" where
  "mark_undeclared i = State_Monad.update (\<lambda>w. w\<lparr>w_undeclared := insert i (w_undeclared w)\<rparr>)"

section \<open>One field (field.rs)\<close>

definition problem :: "string \<Rightarrow> string \<Rightarrow> string \<Rightarrow> string" where
  "problem scope field complaint = scope @ '': field '' @ quoted field @ '' '' @ complaint"

fun report_unknown :: "toml_table \<Rightarrow> string list \<Rightarrow> string \<Rightarrow> unit reader" where
  "report_unknown [] known scope = State_Monad.return ()"
| "report_unknown ((key, _) # table) known scope =
     do {
       (if key \<in> set known then State_Monad.return ()
        else push_problem (problem scope key ''is not recognised''));
       report_unknown table known scope
     }"

definition table_at :: "toml_table \<Rightarrow> string \<Rightarrow> string \<Rightarrow> toml_table option reader" where
  "table_at table scope field =
     (case map_of table field of
        None \<Rightarrow> State_Monad.return None
      | Some v \<Rightarrow>
          (case value_as_table v of
             Some inner \<Rightarrow> State_Monad.return (Some inner)
           | None \<Rightarrow>
               do {
                 push_problem (problem scope field ''must be a table'');
                 State_Monad.return None
               }))"

definition optional :: "toml_table \<Rightarrow> string \<Rightarrow> string \<Rightarrow> (toml_value \<Rightarrow> string + 'a) \<Rightarrow> 'a option reader" where
  "optional table scope field parse =
     (case map_of table field of
        None \<Rightarrow> State_Monad.return None
      | Some v \<Rightarrow>
          (case parse v of
             Inr x \<Rightarrow> State_Monad.return (Some x)
           | Inl complaint \<Rightarrow>
               do {
                 push_problem (problem scope field complaint);
                 State_Monad.return None
               }))"

definition required :: "toml_table \<Rightarrow> string \<Rightarrow> string \<Rightarrow> (toml_value \<Rightarrow> string + 'a) \<Rightarrow> 'a option reader" where
  "required table scope field parse =
     (if map_of table field = None
      then do {
        push_problem (problem scope field ''is required'');
        State_Monad.return None
      }
      else optional table scope field parse)"

definition as_text :: "toml_value \<Rightarrow> string + string" where
  "as_text v = (case value_as_str v of Some s \<Rightarrow> Inr s | None \<Rightarrow> Inl ''must be a string'')"

definition as_positive :: "toml_value \<Rightarrow> string + u32" where
  "as_positive v =
     (case value_as_integer v of
        None \<Rightarrow> Inl ''must be a whole number''
      | Some number \<Rightarrow>
          if 0 < sint number \<and> sint number < 2 ^ 32 then Inr (of_int (sint number))
          else Inl (''must be greater than zero, but is '' @ show_int (sint number)))"

definition as_residency :: "toml_value \<Rightarrow> string + residency" where
  "as_residency v =
     (case as_text v of
        Inl complaint \<Rightarrow> Inl complaint
      | Inr t \<Rightarrow>
          (case residency_parse t of
             Some r \<Rightarrow> Inr r
           | None \<Rightarrow> Inl (''must be one of '' @ join '' or '' residency_names
                          @ '', but is '' @ quoted t)))"

definition runtime_char :: "char \<Rightarrow> bool" where
  "runtime_char c \<longleftrightarrow> is_ascii_lowercase c \<or> is_ascii_digit c \<or> c = CHR ''-''"

definition as_runtime :: "toml_value \<Rightarrow> string + string" where
  "as_runtime v =
     (case as_text v of
        Inl complaint \<Rightarrow> Inl complaint
      | Inr t \<Rightarrow>
          if t \<noteq> [] \<and> list_all runtime_char t then Inr t
          else Inl (''must be lowercase letters, digits and hyphens, because it names ''
                    @ ''a binary beside llama-server, but is '' @ quoted t))"

definition as_location :: "toml_value \<Rightarrow> string + relative_path" where
  "as_location v =
     (case as_text v of Inl complaint \<Rightarrow> Inl complaint | Inr t \<Rightarrow> relative_path_new t)"

fun flags_loop :: "toml_table \<Rightarrow> string \<Rightarrow> flags \<Rightarrow> flags reader" where
  "flags_loop [] scope out = State_Monad.return out"
| "flags_loop ((key, v) # inner) scope out =
     (case as_text v of
        Inr t \<Rightarrow> flags_loop inner scope (bt_insert key t out)
      | Inl _ \<Rightarrow>
          do {
            push_problem (problem scope ''flags''
              (''carries '' @ quoted key @ '', which must be a string''));
            flags_loop inner scope out
          })"

definition read_flags :: "toml_table \<Rightarrow> string \<Rightarrow> flags reader" where
  "read_flags table scope =
     do {
       found \<leftarrow> table_at table scope ''flags'';
       (case found of None \<Rightarrow> State_Monad.return [] | Some inner \<Rightarrow> flags_loop inner scope [])
     }"

section \<open>The shape of a catalog (read.rs)\<close>

definition entry_fields :: "string list" where
  "entry_fields =
     [''path'', ''draft_path'', ''projector_path'', ''context_size'', ''residency'',
      ''memory_estimate_mib'', ''reasoning_format'', ''runtime'', ''reasoning_effort'',
      ''startup_timeout_seconds'', ''flags'']"

definition default_fields :: "string list" where
  "default_fields =
     [''context_size'', ''residency'', ''memory_estimate_mib'', ''reasoning_format'', ''runtime'',
      ''reasoning_effort'', ''startup_timeout_seconds'', ''flags'']"

definition default_startup_timeout_seconds :: u32 where
  "default_startup_timeout_seconds = 300"

record defaults =
  d_context_size :: "u32 option"
  d_residency :: "residency option"
  d_memory_estimate_mib :: "u32 option"
  d_reasoning_format :: "string option"
  d_runtime :: "string option"
  d_reasoning_effort :: "string option"
  d_startup_timeout_seconds :: "u32 option"
  d_flags :: flags

definition no_defaults :: defaults where
  "no_defaults =
     \<lparr>d_context_size = None, d_residency = None, d_memory_estimate_mib = None,
      d_reasoning_format = None, d_runtime = None, d_reasoning_effort = None,
      d_startup_timeout_seconds = None, d_flags = []\<rparr>"

definition read_defaults :: "toml_table \<Rightarrow> defaults reader" where
  "read_defaults table =
     do {
       found \<leftarrow> table_at table ''catalog'' ''defaults'';
       (case found of
          None \<Rightarrow> State_Monad.return no_defaults
        | Some inner \<Rightarrow>
            do {
              report_unknown inner default_fields ''catalog defaults'';
              context_size \<leftarrow> optional inner ''catalog defaults'' ''context_size'' as_positive;
              residency \<leftarrow> optional inner ''catalog defaults'' ''residency'' as_residency;
              memory \<leftarrow> optional inner ''catalog defaults'' ''memory_estimate_mib'' as_positive;
              format \<leftarrow> optional inner ''catalog defaults'' ''reasoning_format'' as_text;
              runtime \<leftarrow> optional inner ''catalog defaults'' ''runtime'' as_runtime;
              effort \<leftarrow> optional inner ''catalog defaults'' ''reasoning_effort'' as_text;
              startup \<leftarrow> optional inner ''catalog defaults'' ''startup_timeout_seconds'' as_positive;
              flags \<leftarrow> read_flags inner ''catalog defaults'';
              State_Monad.return
                \<lparr>d_context_size = context_size, d_residency = residency,
                 d_memory_estimate_mib = memory, d_reasoning_format = format,
                 d_runtime = runtime, d_reasoning_effort = effort,
                 d_startup_timeout_seconds = startup, d_flags = flags\<rparr>
            })
     }"

definition settled :: "toml_table \<Rightarrow> u32 option \<Rightarrow> string \<Rightarrow> string \<Rightarrow> u32 option reader" where
  "settled table v scope field =
     do {
       (if v = None \<and> map_of table field = None
        then push_problem (problem scope field ''is required, and no default supplies it'')
        else State_Monad.return ());
       State_Monad.return v
     }"

definition entry_scope :: "string \<Rightarrow> string" where
  "entry_scope i = ''entry '' @ quoted i"

definition read_entry :: "string \<Rightarrow> toml_value \<Rightarrow> defaults \<Rightarrow> entry option reader" where
  "read_entry i v defaults =
     (let scope = entry_scope i in
      case value_as_table v of
        None \<Rightarrow>
          do {
            push_problem (scope @ '': must be a table'');
            State_Monad.return None
          }
      | Some table \<Rightarrow>
          do {
            report_unknown table entry_fields scope;
            own_flags \<leftarrow> read_flags table scope;
            path \<leftarrow> required table scope ''path'' as_location;
            draft \<leftarrow> optional table scope ''draft_path'' as_location;
            projector \<leftarrow> optional table scope ''projector_path'' as_location;
            own_context \<leftarrow> optional table scope ''context_size'' as_positive;
            context_size \<leftarrow>
              settled table (or_else own_context (d_context_size defaults)) scope ''context_size'';
            own_memory \<leftarrow> optional table scope ''memory_estimate_mib'' as_positive;
            residency \<leftarrow> optional table scope ''residency'' as_residency;
            format \<leftarrow> optional table scope ''reasoning_format'' as_text;
            runtime \<leftarrow> optional table scope ''runtime'' as_runtime;
            effort \<leftarrow> optional table scope ''reasoning_effort'' as_text;
            startup \<leftarrow> optional table scope ''startup_timeout_seconds'' as_positive;
            (let memory = or_else own_memory (d_memory_estimate_mib defaults) in
             do {
               (if memory = None then mark_undeclared i else State_Monad.return ());
               State_Monad.return
                 (case (path, context_size) of
                    (Some path, Some context_size) \<Rightarrow>
                      Some
                        \<lparr>e_id = i, e_path = path, e_draft_path = draft, e_projector_path = projector,
                         e_context_size = context_size,
                         e_residency = unwrap_or (or_else residency (d_residency defaults)) OnDemand,
                         e_memory_estimate_mib = unwrap_or memory 0,
                         e_reasoning_format = or_else format (d_reasoning_format defaults),
                         e_reasoning_effort = or_else effort (d_reasoning_effort defaults),
                         e_startup_timeout_seconds =
                           unwrap_or (or_else startup (d_startup_timeout_seconds defaults))
                             default_startup_timeout_seconds,
                         e_runtime = or_else runtime (d_runtime defaults),
                         e_flags = bt_extend (d_flags defaults) own_flags\<rparr>
                  | _ \<Rightarrow> None)
             })
          })"

fun entries_loop :: "toml_table \<Rightarrow> defaults \<Rightarrow> entry list reader" where
  "entries_loop [] defaults = State_Monad.return []"
| "entries_loop ((i, v) # models) defaults =
     do {
       read \<leftarrow> read_entry i v defaults;
       rest \<leftarrow> entries_loop models defaults;
       State_Monad.return (case read of None \<Rightarrow> rest | Some e \<Rightarrow> e # rest)
     }"

definition read_entries :: "toml_table \<Rightarrow> defaults \<Rightarrow> entry list reader" where
  "read_entries table defaults =
     (if map_of table ''models'' = None
      then do {
        push_problem (problem ''catalog'' ''models'' ''is required'');
        State_Monad.return []
      }
      else do {
        models \<leftarrow> table_at table ''catalog'' ''models'';
        (case models of None \<Rightarrow> State_Monad.return [] | Some ms \<Rightarrow> entries_loop ms defaults)
      })"

record drafts =
  dr_version :: "u32 option"
  dr_defaults :: defaults
  dr_entries :: "entry list"
  dr_undeclared :: "string set"
  dr_problems :: "string list"

definition drafts_reader :: "toml_table \<Rightarrow> (u32 option \<times> defaults \<times> entry list) reader" where
  "drafts_reader table =
     do {
       version \<leftarrow> required table ''catalog'' ''version'' as_positive;
       defaults \<leftarrow> read_defaults table;
       entries \<leftarrow> read_entries table defaults;
       State_Monad.return (version, defaults, entries)
     }"

definition read_drafts :: "(string \<Rightarrow> string + toml_table) \<Rightarrow> string \<Rightarrow> report + drafts" where
  "read_drafts toml_parse text =
     (case toml_parse text of
        Inl e \<Rightarrow> Inl (report_single (''the catalog is not valid TOML: '' @ e))
      | Inr table \<Rightarrow>
          (case run_state (drafts_reader table) walk_start of
             ((version, defaults, entries), w) \<Rightarrow>
               Inr \<lparr>dr_version = version, dr_defaults = defaults, dr_entries = entries,
                    dr_undeclared = w_undeclared w, dr_problems = w_problems w\<rparr>))"

section \<open>Parsing text alone (catalog.rs)\<close>

text \<open>The estimates nobody declared become problems, in the order of the set of identifiers.\<close>

definition undeclared_problems :: "string set \<Rightarrow> string list" where
  "undeclared_problems ids =
     map (\<lambda>i. problem (entry_scope i) ''memory_estimate_mib''
               ''is required, and no default supplies it'') (sorted_list_of_set ids)"

definition catalog_parse :: "(string \<Rightarrow> string + toml_table) \<Rightarrow> string \<Rightarrow> report + catalog" where
  "catalog_parse toml_parse text =
     (case read_drafts toml_parse text of
        Inl r \<Rightarrow> Inl r
      | Inr d \<Rightarrow>
          (let found = dr_problems d @ undeclared_problems (dr_undeclared d)
           in if found = []
              then Inr \<lparr>c_version = unwrap_or (dr_version d) 0, c_entries = dr_entries d,
                        c_derived = {}, c_discovered = {}\<rparr>
              else Inl (Report found)))"

end
