(* ===== verification/Catalog_Laws.thy ===== *)
theory Catalog_Laws
  imports Catalog_Read
begin

text \<open>
  What reading a catalog's text promises. The walk of \<open>Catalog_Read\<close> pushes problems as it
  goes; here the faults of a table are listed declaratively, field by field, and the walk is
  shown to report exactly that list (so one report names every problem) and to return an
  entry that is a function of its own table and the defaults alone.
\<close>

section \<open>Readers as writers\<close>

definition note_problems :: "string list \<Rightarrow> walk \<Rightarrow> walk" where
  "note_problems ps w = w\<lparr>w_problems := w_problems w @ ps\<rparr>"

definition note_undeclared :: "string set \<Rightarrow> walk \<Rightarrow> walk" where
  "note_undeclared ids w = w\<lparr>w_undeclared := w_undeclared w \<union> ids\<rparr>"

named_theorems run_reader \<open>what each reader returns, and what it notes\<close>

lemma note_problems_simps [simp]:
  "note_problems [] w = w"
  "note_problems qs (note_problems ps w) = note_problems (ps @ qs) w"
  "w_problems (note_problems ps w) = w_problems w @ ps"
  "w_undeclared (note_problems ps w) = w_undeclared w"
  by (simp_all add: note_problems_def)

lemma note_undeclared_simps [simp]:
  "note_undeclared {} w = w"
  "note_undeclared js (note_undeclared ids w) = note_undeclared (ids \<union> js) w"
  "w_undeclared (note_undeclared ids w) = w_undeclared w \<union> ids"
  "w_problems (note_undeclared ids w) = w_problems w"
  "note_problems ps (note_undeclared ids w) = note_undeclared ids (note_problems ps w)"
  by (simp_all add: note_undeclared_def note_problems_def Un_assoc)

lemma run_bind [run_reader]:
  "run_state (State_Monad.bind m f) w = (case run_state m w of (x, w') \<Rightarrow> run_state (f x) w')"
  by simp

lemma run_push [run_reader]: "run_state (push_problem p) w = ((), note_problems [p] w)"
  by (simp add: push_problem_def note_problems_def State_Monad.update_def State_Monad.get_def
      State_Monad.set_def)

lemma run_mark [run_reader]: "run_state (mark_undeclared i) w = ((), note_undeclared {i} w)"
  by (simp add: mark_undeclared_def note_undeclared_def State_Monad.update_def State_Monad.get_def
      State_Monad.set_def)

text \<open>What a field declares, and the fault it has when it declares something unusable.\<close>

definition declared :: "toml_table \<Rightarrow> string \<Rightarrow> (toml_value \<Rightarrow> string + 'a) \<Rightarrow> 'a option" where
  "declared table field parse =
     (case map_of table field of
        None \<Rightarrow> None
      | Some v \<Rightarrow> (case parse v of Inl _ \<Rightarrow> None | Inr x \<Rightarrow> Some x))"

definition fault :: "toml_table \<Rightarrow> string \<Rightarrow> string \<Rightarrow> (toml_value \<Rightarrow> string + 'a) \<Rightarrow> string list" where
  "fault table scope field parse =
     (case map_of table field of
        None \<Rightarrow> []
      | Some v \<Rightarrow> (case parse v of Inl c \<Rightarrow> [problem scope field c] | Inr _ \<Rightarrow> []))"

definition missing :: "toml_table \<Rightarrow> string \<Rightarrow> string \<Rightarrow> string list" where
  "missing table scope field =
     (if map_of table field = None then [problem scope field ''is required''] else [])"

definition unknown_faults :: "toml_table \<Rightarrow> string list \<Rightarrow> string \<Rightarrow> string list" where
  "unknown_faults table known scope =
     map (\<lambda>key. problem scope key ''is not recognised'') (filter (\<lambda>key. key \<notin> set known) (map fst table))"

definition as_table :: "toml_value \<Rightarrow> string + toml_table" where
  "as_table v = (case value_as_table v of Some t \<Rightarrow> Inr t | None \<Rightarrow> Inl ''must be a table'')"

definition text_flags :: "toml_table \<Rightarrow> (string \<times> string) list" where
  "text_flags inner =
     List.map_filter (\<lambda>(k, v). map_option (Pair k) (value_as_str v)) inner"

definition flag_faults :: "toml_table \<Rightarrow> string \<Rightarrow> string list" where
  "flag_faults table scope =
     fault table scope ''flags'' as_table @
     (case declared table ''flags'' as_table of
        None \<Rightarrow> []
      | Some inner \<Rightarrow>
          map (\<lambda>(k, _). problem scope ''flags'' (''carries '' @ quoted k @ '', which must be a string''))
            (filter (\<lambda>(_, v). value_as_str v = None) inner))"

definition flags_of :: "toml_table \<Rightarrow> flags" where
  "flags_of table =
     (case declared table ''flags'' as_table of
        None \<Rightarrow> [] | Some inner \<Rightarrow> bt_extend [] (text_flags inner))"

lemma run_report_unknown [run_reader]:
  "run_state (report_unknown table known scope) w = ((), note_problems (unknown_faults table known scope) w)"
  by (induction table known scope arbitrary: w rule: report_unknown.induct)
    (auto simp: run_reader unknown_faults_def)

lemma run_optional [run_reader]:
  "run_state (optional table scope field parse) w =
     (declared table field parse, note_problems (fault table scope field parse) w)"
  by (auto simp: optional_def declared_def fault_def run_reader split: option.splits sum.splits)

lemma run_table_at [run_reader]:
  "run_state (table_at table scope field) w =
     (declared table field as_table, note_problems (fault table scope field as_table) w)"
  by (auto simp: table_at_def declared_def fault_def as_table_def run_reader
      split: option.splits sum.splits)

lemma run_required [run_reader]:
  "run_state (required table scope field parse) w =
     (declared table field parse,
      note_problems (missing table scope field @ fault table scope field parse) w)"
  by (auto simp: required_def declared_def fault_def missing_def run_reader
      split: option.splits sum.splits)

lemma run_flags_loop:
  "run_state (flags_loop inner scope out) w =
     (bt_extend out (text_flags inner),
      note_problems (map (\<lambda>(k, _). problem scope ''flags'' (''carries '' @ quoted k @ '', which must be a string''))
        (filter (\<lambda>(_, v). value_as_str v = None) inner)) w)"
  by (induction inner scope out arbitrary: w rule: flags_loop.induct)
    (auto simp: run_reader text_flags_def as_text_def bt_extend_def List.map_filter_def
      split: option.splits sum.splits)

lemma run_read_flags [run_reader]:
  "run_state (read_flags table scope) w = (flags_of table, note_problems (flag_faults table scope) w)"
  by (auto simp: read_flags_def run_reader run_flags_loop flags_of_def flag_faults_def
      split: option.splits)

lemma run_settled [run_reader]:
  "run_state (settled table v scope field) w =
     (v, note_problems (if v = None \<and> map_of table field = None
                        then [problem scope field ''is required, and no default supplies it''] else []) w)"
  by (auto simp: settled_def run_reader)

section \<open>The defaults table\<close>

definition defaults_faults :: "toml_table \<Rightarrow> string list" where
  "defaults_faults table =
     fault table ''catalog'' ''defaults'' as_table @
     (case declared table ''defaults'' as_table of
        None \<Rightarrow> []
      | Some t \<Rightarrow>
          (let s = ''catalog defaults'' in
           unknown_faults t default_fields s @
           fault t s ''context_size'' as_positive @ fault t s ''residency'' as_residency @
           fault t s ''memory_estimate_mib'' as_positive @ fault t s ''reasoning_format'' as_text @
           fault t s ''runtime'' as_runtime @ fault t s ''reasoning_effort'' as_text @
           fault t s ''startup_timeout_seconds'' as_positive @ flag_faults t s))"

definition defaults_of :: "toml_table \<Rightarrow> defaults" where
  "defaults_of table =
     (case declared table ''defaults'' as_table of
        None \<Rightarrow> no_defaults
      | Some t \<Rightarrow>
          \<lparr>d_context_size = declared t ''context_size'' as_positive,
           d_residency = declared t ''residency'' as_residency,
           d_memory_estimate_mib = declared t ''memory_estimate_mib'' as_positive,
           d_reasoning_format = declared t ''reasoning_format'' as_text,
           d_runtime = declared t ''runtime'' as_runtime,
           d_reasoning_effort = declared t ''reasoning_effort'' as_text,
           d_startup_timeout_seconds = declared t ''startup_timeout_seconds'' as_positive,
           d_flags = flags_of t\<rparr>)"

lemma run_read_defaults [run_reader]:
  "run_state (read_defaults table) w = (defaults_of table, note_problems (defaults_faults table) w)"
  by (simp add: read_defaults_def run_reader defaults_of_def defaults_faults_def Let_def split: option.split)

section \<open>One entry\<close>

text \<open>An entry's own setting, or else the default's.\<close>

definition inherited :: "toml_table \<Rightarrow> string \<Rightarrow> (toml_value \<Rightarrow> string + 'a) \<Rightarrow> 'a option \<Rightarrow> 'a option" where
  "inherited t field parse d = or_else (declared t field parse) d"

definition entry_of :: "string \<Rightarrow> toml_value \<Rightarrow> defaults \<Rightarrow> entry option" where
  "entry_of i v d =
     (case value_as_table v of
        None \<Rightarrow> None
      | Some t \<Rightarrow>
          (case (declared t ''path'' as_location, inherited t ''context_size'' as_positive (d_context_size d)) of
             (Some path, Some context_size) \<Rightarrow>
               Some
                 \<lparr>e_id = i, e_path = path,
                  e_draft_path = declared t ''draft_path'' as_location,
                  e_projector_path = declared t ''projector_path'' as_location,
                  e_context_size = context_size,
                  e_residency = unwrap_or (inherited t ''residency'' as_residency (d_residency d)) OnDemand,
                  e_memory_estimate_mib =
                    unwrap_or (inherited t ''memory_estimate_mib'' as_positive (d_memory_estimate_mib d)) 0,
                  e_reasoning_format = inherited t ''reasoning_format'' as_text (d_reasoning_format d),
                  e_reasoning_effort = inherited t ''reasoning_effort'' as_text (d_reasoning_effort d),
                  e_startup_timeout_seconds =
                    unwrap_or (inherited t ''startup_timeout_seconds'' as_positive (d_startup_timeout_seconds d))
                      default_startup_timeout_seconds,
                  e_runtime = inherited t ''runtime'' as_runtime (d_runtime d),
                  e_flags = bt_extend (d_flags d) (flags_of t)\<rparr>
           | _ \<Rightarrow> None))"

definition entry_undeclared :: "string \<Rightarrow> toml_value \<Rightarrow> defaults \<Rightarrow> string set" where
  "entry_undeclared i v d =
     (case value_as_table v of
        None \<Rightarrow> {}
      | Some t \<Rightarrow>
          if inherited t ''memory_estimate_mib'' as_positive (d_memory_estimate_mib d) = None then {i} else {})"

definition entry_faults :: "string \<Rightarrow> toml_value \<Rightarrow> defaults \<Rightarrow> string list" where
  "entry_faults i v d =
     (let s = entry_scope i in
      case value_as_table v of
        None \<Rightarrow> [s @ '': must be a table'']
      | Some t \<Rightarrow>
          unknown_faults t entry_fields s @ flag_faults t s @
          missing t s ''path'' @ fault t s ''path'' as_location @
          fault t s ''draft_path'' as_location @ fault t s ''projector_path'' as_location @
          fault t s ''context_size'' as_positive @
          (if d_context_size d = None \<and> map_of t ''context_size'' = None
           then [problem s ''context_size'' ''is required, and no default supplies it''] else []) @
          fault t s ''memory_estimate_mib'' as_positive @ fault t s ''residency'' as_residency @
          fault t s ''reasoning_format'' as_text @ fault t s ''runtime'' as_runtime @
          fault t s ''reasoning_effort'' as_text @ fault t s ''startup_timeout_seconds'' as_positive)"

lemma or_else_None [simp]: "or_else x None = x" "or_else x y = None \<longleftrightarrow> x = None \<and> y = None"
  by (cases x; simp)+

lemma or_else_settled:
  "(or_else (declared t f p) d = None \<and> map_of t f = None) = (d = None \<and> map_of t f = None)"
  by (auto simp: declared_def)

lemma run_mark_if [run_reader]:
  "run_state (if b then mark_undeclared i else State_Monad.return ()) w =
     ((), note_undeclared (if b then {i} else {}) w)"
  by (simp add: run_reader)

lemma run_read_entry [run_reader]:
  "run_state (read_entry i v d) w =
     (entry_of i v d, note_undeclared (entry_undeclared i v d) (note_problems (entry_faults i v d) w))"
proof (cases "value_as_table v")
  case None
  then show ?thesis
    by (simp only: read_entry_def entry_of_def entry_undeclared_def entry_faults_def run_reader
        Let_def option.case prod.case run_state_return note_undeclared_simps)
next
  case (Some t)
  show ?thesis
    by (simp only: Some read_entry_def entry_of_def entry_undeclared_def entry_faults_def
        inherited_def run_reader Let_def option.case prod.case run_state_return
        note_undeclared_simps note_problems_simps append_assoc or_else_settled)
qed

section \<open>The whole catalog\<close>

definition models_of :: "toml_table \<Rightarrow> toml_table" where
  "models_of table = unwrap_or (declared table ''models'' as_table) []"

definition walk_faults :: "toml_table \<Rightarrow> string list" where
  "walk_faults table =
     (let d = defaults_of table in
      missing table ''catalog'' ''version'' @ fault table ''catalog'' ''version'' as_positive @
      defaults_faults table @
      missing table ''catalog'' ''models'' @ fault table ''catalog'' ''models'' as_table @
      concat (map (\<lambda>(i, v). entry_faults i v d) (models_of table)))"

definition entries_of :: "toml_table \<Rightarrow> entry list" where
  "entries_of table = List.map_filter (\<lambda>(i, v). entry_of i v (defaults_of table)) (models_of table)"

definition undeclared_of :: "toml_table \<Rightarrow> string set" where
  "undeclared_of table = (\<Union>(i, v) \<in> set (models_of table). entry_undeclared i v (defaults_of table))"

lemma run_entries_loop:
  "run_state (entries_loop ms d) w =
     (List.map_filter (\<lambda>(i, v). entry_of i v d) ms,
      note_undeclared (\<Union>(i, v) \<in> set ms. entry_undeclared i v d)
        (note_problems (concat (map (\<lambda>(i, v). entry_faults i v d) ms)) w))"
  by (induction ms d arbitrary: w rule: entries_loop.induct)
    (auto simp: run_reader List.map_filter_def split: option.splits)

lemma run_drafts_reader:
  "run_state (drafts_reader table) walk_start =
     ((declared table ''version'' as_positive, defaults_of table, entries_of table),
      note_undeclared (undeclared_of table) (note_problems (walk_faults table) walk_start))"
  by (auto simp: drafts_reader_def read_entries_def run_reader run_entries_loop walk_faults_def
      entries_of_def undeclared_of_def models_of_def missing_def fault_def declared_def Let_def
      List.map_filter_def split: option.splits sum.splits)

definition catalog_faults :: "toml_table \<Rightarrow> string list" where
  "catalog_faults table = walk_faults table @ undeclared_problems (undeclared_of table)"

lemma read_drafts_eq:
  "read_drafts toml_parse text =
     (case toml_parse text of
        Inl e \<Rightarrow> Inl (report_single (''the catalog is not valid TOML: '' @ e))
      | Inr table \<Rightarrow>
          Inr \<lparr>dr_version = declared table ''version'' as_positive, dr_defaults = defaults_of table,
               dr_entries = entries_of table, dr_undeclared = undeclared_of table,
               dr_problems = walk_faults table\<rparr>)"
  by (simp add: read_drafts_def run_drafts_reader split: sum.split) (simp add: walk_start_def)

text \<open>
  C30: \<open>Catalog::parse\<close> names every problem, not the first: on text that is TOML it succeeds
  exactly when no field of any table is at fault, and otherwise its report is the complete
  list of faults of the version, the defaults, every entry and every missing estimate.
\<close>

theorem catalog_parse_reports_all:
  "catalog_parse toml_parse text =
     (case toml_parse text of
        Inl e \<Rightarrow> Inl (Report [''the catalog is not valid TOML: '' @ e])
      | Inr table \<Rightarrow>
          if catalog_faults table = []
          then Inr \<lparr>c_version = unwrap_or (declared table ''version'' as_positive) 0,
                    c_entries = entries_of table, c_derived = {}, c_discovered = {}\<rparr>
          else Inl (Report (catalog_faults table)))"
  by (simp add: catalog_parse_def read_drafts_eq catalog_faults_def report_single_def Let_def
      split: sum.split)

section \<open>What a parsed catalog satisfies\<close>

definition location_ok :: "relative_path \<Rightarrow> bool" where
  "location_ok p \<longleftrightarrow> as_str p \<noteq> [] \<and> anchor_of (as_str p) = None"

definition entry_ok :: "entry \<Rightarrow> bool" where
  "entry_ok e \<longleftrightarrow>
     0 < e_context_size e \<and> 0 < e_memory_estimate_mib e \<and> 0 < e_startup_timeout_seconds e \<and>
     location_ok (e_path e) \<and> pred_option location_ok (e_draft_path e) \<and>
     pred_option location_ok (e_projector_path e) \<and>
     pred_option (\<lambda>r. r \<noteq> [] \<and> list_all runtime_char r) (e_runtime e) \<and> bt_wf (e_flags e)"

fun value_ordered :: "toml_value \<Rightarrow> bool" where
  "value_ordered (TTable t) = (bt_wf t \<and> (\<forall>kv \<in> set t. value_ordered (snd kv)))"
| "value_ordered _ = True"

lemma declared_Some: "declared t f parse = Some x \<Longrightarrow> \<exists>v. map_of t f = Some v \<and> parse v = Inr x"
  by (auto simp: declared_def split: option.splits sum.splits)

lemma uint_word_of_int_u32: "0 \<le> k \<Longrightarrow> k < 2 ^ 32 \<Longrightarrow> uint (word_of_int k :: u32) = k"
  by (simp only: uint_word_of_int) simp

lemma as_positive_Inr: "as_positive v = Inr n \<Longrightarrow> 0 < n"
proof -
  assume "as_positive v = Inr n"
  then obtain k :: u64 where k: "0 < sint k" "sint k < 2 ^ 32" and n: "n = word_of_int (sint k)"
    by (auto simp only: as_positive_def split: option.splits if_splits)
  have "uint n = sint k" unfolding n using k by (intro uint_word_of_int_u32) auto
  with k show ?thesis by (simp only: word_less_def) simp
qed

lemma as_location_Inr: "as_location v = Inr p \<Longrightarrow> location_ok p"
  by (auto simp: as_location_def location_ok_def relative_path_new_Inr split: sum.splits)

lemma as_runtime_Inr: "as_runtime v = Inr r \<Longrightarrow> r \<noteq> [] \<and> list_all runtime_char r"
  by (auto simp: as_runtime_def split: sum.splits if_splits)

lemmas conversions_ok = as_positive_Inr as_location_Inr as_runtime_Inr

lemma or_else_Some: "or_else x y = Some z \<Longrightarrow> x = Some z \<or> y = Some z"
  by (cases x) auto

lemma bt_wf_flags_of [simp]: "bt_wf (flags_of t)"
  by (auto simp: flags_of_def split: option.splits)

definition defaults_ok :: "defaults \<Rightarrow> bool" where
  "defaults_ok d \<longleftrightarrow>
     pred_option ((<) 0) (d_context_size d) \<and> pred_option ((<) 0) (d_memory_estimate_mib d) \<and>
     pred_option ((<) 0) (d_startup_timeout_seconds d) \<and>
     pred_option (\<lambda>r. r \<noteq> [] \<and> list_all runtime_char r) (d_runtime d) \<and> bt_wf (d_flags d)"

lemma pred_declared:
  assumes "\<And>v x. parse v = Inr x \<Longrightarrow> P x"
  shows "pred_option P (declared t f parse)"
  using assms by (auto simp: declared_def split: option.splits sum.splits)

lemma pred_or_else: "pred_option P x \<Longrightarrow> pred_option P y \<Longrightarrow> pred_option P (or_else x y)"
  by (cases x) auto

lemma pred_unwrap_or: "pred_option P x \<Longrightarrow> P y \<Longrightarrow> P (unwrap_or x y)"
  by (cases x) auto

lemma defaults_of_ok: "defaults_ok (defaults_of table)"
  by (auto simp: defaults_ok_def defaults_of_def no_defaults_def
      intro!: pred_declared conversions_ok split: option.split)

lemma entry_of_ok:
  assumes e: "entry_of i v d = Some e" and d: "defaults_ok d" and decl: "entry_undeclared i v d = {}"
  shows "entry_ok e"
proof -
  obtain t where t: "value_as_table v = Some t"
    using e by (auto simp: entry_of_def split: option.splits)
  obtain path context_size where
    path: "declared t ''path'' as_location = Some path" and
    cs: "inherited t ''context_size'' as_positive (d_context_size d) = Some context_size"
    using e t by (auto simp: entry_of_def split: option.splits)
  have inh: "pred_option P (inherited t f parse x)"
    if "\<And>v y. parse v = Inr y \<Longrightarrow> P y" "pred_option P x" for P f parse x
    unfolding inherited_def using that by (intro pred_or_else pred_declared) auto
  have pos: "0 < context_size"
    using inh [of as_positive "(<) 0" "d_context_size d" "''context_size''"] cs d
    by (auto simp: defaults_ok_def intro: as_positive_Inr)
  obtain m where m: "inherited t ''memory_estimate_mib'' as_positive (d_memory_estimate_mib d) = Some m"
    using decl t by (auto simp: entry_undeclared_def split: if_splits)
  have mem: "0 < m"
    using inh [of as_positive "(<) 0" "d_memory_estimate_mib d" "''memory_estimate_mib''"] m d
    by (auto simp: defaults_ok_def intro: as_positive_Inr)
  have startup: "0 < unwrap_or (inherited t ''startup_timeout_seconds'' as_positive
      (d_startup_timeout_seconds d)) default_startup_timeout_seconds"
    by (rule pred_unwrap_or [where P = "(<) 0"], rule inh)
      (use d in \<open>auto simp: defaults_ok_def default_startup_timeout_seconds_def intro: as_positive_Inr\<close>)
  have runtime: "pred_option (\<lambda>r. r \<noteq> [] \<and> list_all runtime_char r)
      (inherited t ''runtime'' as_runtime (d_runtime d))"
    using d by (intro inh) (auto simp: defaults_ok_def dest: as_runtime_Inr)
  have location: "location_ok path"
    using declared_Some [OF path] as_location_Inr by blast
  have locations:
    "pred_option location_ok (declared t ''draft_path'' as_location)"
    "pred_option location_ok (declared t ''projector_path'' as_location)"
    by (intro pred_declared, erule as_location_Inr)+
  have "e = \<lparr>e_id = i, e_path = path,
      e_draft_path = declared t ''draft_path'' as_location,
      e_projector_path = declared t ''projector_path'' as_location, e_context_size = context_size,
      e_residency = unwrap_or (inherited t ''residency'' as_residency (d_residency d)) OnDemand,
      e_memory_estimate_mib = m,
      e_reasoning_format = inherited t ''reasoning_format'' as_text (d_reasoning_format d),
      e_reasoning_effort = inherited t ''reasoning_effort'' as_text (d_reasoning_effort d),
      e_startup_timeout_seconds = unwrap_or (inherited t ''startup_timeout_seconds'' as_positive
        (d_startup_timeout_seconds d)) default_startup_timeout_seconds,
      e_runtime = inherited t ''runtime'' as_runtime (d_runtime d),
      e_flags = bt_extend (d_flags d) (flags_of t)\<rparr>"
    using e t path cs m by (simp add: entry_of_def)
  then show ?thesis
    using pos mem startup runtime location locations d by (simp add: entry_ok_def defaults_ok_def bt_wf_extend)
qed

section \<open>No entry is dropped\<close>

lemma fault_Nil: "fault t s f parse = [] \<Longrightarrow> map_of t f \<noteq> None \<Longrightarrow> \<exists>x. declared t f parse = Some x"
  by (auto simp: fault_def declared_def split: option.splits sum.splits)

lemma entry_faults_Nil:
  assumes "entry_faults i v d = []"
  shows "\<exists>e. entry_of i v d = Some e \<and> e_id e = i"
proof -
  obtain t where t: "value_as_table v = Some t"
    using assms by (cases "value_as_table v") (auto simp: entry_faults_def)
  have none: "missing t (entry_scope i) ''path'' = []"
    "fault t (entry_scope i) ''path'' as_location = []"
    "fault t (entry_scope i) ''context_size'' as_positive = []"
    and settled: "\<not> (d_context_size d = None \<and> map_of t ''context_size'' = None)"
    using assms t by (auto simp: entry_faults_def Let_def split: if_splits)
  obtain path where path: "declared t ''path'' as_location = Some path"
    using none by (auto simp: missing_def split: if_splits dest: fault_Nil)
  have "inherited t ''context_size'' as_positive (d_context_size d) \<noteq> None"
    using fault_Nil [OF none(3)] settled by (auto simp: inherited_def)
  then show ?thesis using t path by (auto simp: entry_of_def)
qed

lemma map_filter_entry_ids:
  "\<forall>(i, v) \<in> set ms. entry_faults i v d = [] \<Longrightarrow>
     map e_id (List.map_filter (\<lambda>(i, v). entry_of i v d) ms) = map fst ms"
  by (induction ms) (auto simp: List.map_filter_simps dest!: entry_faults_Nil)

lemma entries_of_ids:
  assumes "walk_faults table = []"
  shows "map e_id (entries_of table) = map fst (models_of table)"
proof -
  have "\<forall>(i, v) \<in> set (models_of table). entry_faults i v (defaults_of table) = []"
    using assms by (auto simp: walk_faults_def Let_def)
  then show ?thesis unfolding entries_of_def by (rule map_filter_entry_ids)
qed

lemma models_of_ordered: "value_ordered (TTable table) \<Longrightarrow> bt_wf (models_of table)"
  by (cases "map_of table ''models''")
    (auto simp: models_of_def declared_def as_table_def dest!: map_of_SomeD elim!: value_as_table.elims
      split: option.splits)

lemma undeclared_problems_Nil:
  "undeclared_problems (undeclared_of table) = [] \<Longrightarrow> undeclared_of table = {}"
proof -
  have "finite (undeclared_of table)"
    by (auto simp: undeclared_of_def entry_undeclared_def split: option.splits)
  then show "undeclared_problems (undeclared_of table) = [] \<Longrightarrow> undeclared_of table = {}"
    by (simp add: undeclared_problems_def)
qed

lemma entries_of_ok:
  assumes "undeclared_of table = {}" and "e \<in> set (entries_of table)"
  shows "entry_ok e"
proof -
  obtain i v where iv: "(i, v) \<in> set (models_of table)" "entry_of i v (defaults_of table) = Some e"
    using assms(2) by (auto simp: entries_of_def List.map_filter_def)
  have "entry_undeclared i v (defaults_of table) = {}" using assms(1) iv(1) by (auto simp: undeclared_of_def)
  with iv(2) show ?thesis by (rule entry_of_ok [OF _ defaults_of_ok])
qed

text \<open>
  C31: A catalog \<open>Catalog::parse\<close> accepts has one entry per table of \<open>models\<close>, none dropped,
  in strictly ascending identifier order; every one has a positive context size, estimate and
  startup timeout, only unanchored locations, and a runtime of the permitted characters; no
  estimate is marked derived and no entry discovered.
\<close>

theorem catalog_parse_sound:
  assumes "toml_parse text = Inr table" and "value_ordered (TTable table)"
    and "catalog_parse toml_parse text = Inr c"
  shows "list_all entry_ok (c_entries c) \<and> map e_id (c_entries c) = map fst (models_of table) \<and>
     sorted_wrt (<) (map e_id (c_entries c)) \<and> c_derived c = {} \<and> c_discovered c = {}"
proof -
  have c: "c = \<lparr>c_version = unwrap_or (declared table ''version'' as_positive) 0,
      c_entries = entries_of table, c_derived = {}, c_discovered = {}\<rparr>"
    and clean: "walk_faults table = []" "undeclared_problems (undeclared_of table) = []"
    using assms(1,3)
    by (auto simp: catalog_parse_def read_drafts_eq Let_def split: if_splits)
  show ?thesis
    using entries_of_ok [OF undeclared_problems_Nil [OF clean(2)]] entries_of_ids [OF clean(1)]
      models_of_ordered [OF assms(2)]
    by (simp add: c list_all_iff bt_wf_def)
qed

text \<open>
  An entry whose \<open>memory_estimate_mib\<close> is present but unusable, with no default to fall
  back on, is reported twice: for the unusable value, and again as though it were absent.
\<close>

theorem unusable_estimate_reported_twice:
  assumes "toml_parse text = Inr table" and "(i, TTable t) \<in> set (models_of table)"
    and "map_of t ''memory_estimate_mib'' = Some v" and "as_positive v = Inl complaint"
    and "d_memory_estimate_mib (defaults_of table) = None"
  shows "\<exists>ps. catalog_parse toml_parse text = Inl (Report ps) \<and>
     problem (entry_scope i) ''memory_estimate_mib'' complaint \<in> set ps \<and>
     problem (entry_scope i) ''memory_estimate_mib'' ''is required, and no default supplies it'' \<in> set ps"
proof -
  let ?p = "problem (entry_scope i) ''memory_estimate_mib'' complaint"
  have "?p \<in> set (entry_faults i (TTable t) (defaults_of table))"
    using assms(3,4) by (simp add: entry_faults_def Let_def fault_def)
  then have p: "?p \<in> set (walk_faults table)"
    using assms(2) by (auto simp: walk_faults_def Let_def)
  have "i \<in> entry_undeclared i (TTable t) (defaults_of table)"
    using assms(3-5) by (simp add: entry_undeclared_def inherited_def declared_def)
  then have "i \<in> undeclared_of table" using assms(2) by (auto simp: undeclared_of_def)
  moreover have "finite (undeclared_of table)"
    by (auto simp: undeclared_of_def entry_undeclared_def split: option.splits)
  ultimately have "problem (entry_scope i) ''memory_estimate_mib'' ''is required, and no default supplies it''
      \<in> set (undeclared_problems (undeclared_of table))"
    by (simp add: undeclared_problems_def)
  with p assms(1) show ?thesis by (auto simp: catalog_parse_def read_drafts_eq Let_def)
qed

section \<open>Applied\<close>

definition sample_table :: toml_table where
  "sample_table =
     [(''models'', TTable
        [(''a'', TTable [(''context_size'', TInteger 4096), (''memory_estimate_mib'', TInteger 512),
                       (''path'', TString ''a.gguf'')]),
         (''b'', TTable [(''context_size'', TInteger 1), (''memory_estimate_mib'', TInteger 7),
                       (''path'', TString ''b.gguf''), (''runtime'', TString ''fork-1'')])]),
      (''version'', TInteger 1)]"

lemma sample_table_ordered: "value_ordered (TTable sample_table)"
  by code_simp

lemma sample_table_accepted:
  "\<exists>c. catalog_parse (\<lambda>_. Inr sample_table) [] = Inr c"
proof -
  have "walk_faults sample_table = []" and "undeclared_of sample_table = {}" by code_simp+
  then show ?thesis by (simp add: catalog_parse_def read_drafts_eq undeclared_problems_def)
qed

theorem catalog_parse_sound_witness:
  "\<exists>c. catalog_parse (\<lambda>_. Inr sample_table) [] = Inr c \<and>
     list_all entry_ok (c_entries c) \<and> map e_id (c_entries c) = [''a'', ''b'']"
proof -
  obtain c where c: "catalog_parse (\<lambda>_. Inr sample_table) [] = Inr c"
    using sample_table_accepted by blast
  have "map fst (models_of sample_table) = [''a'', ''b'']" by code_simp
  then show ?thesis
    using catalog_parse_sound [OF refl sample_table_ordered c] c by auto
qed

definition faulty_table :: toml_table where
  "faulty_table =
     [(''models'', TTable
        [(''a'', TTable [(''context_size'', TInteger 1), (''memory_estimate_mib'', TString ''7''),
                       (''path'', TString ''a.gguf'')])]),
      (''version'', TInteger 1)]"

theorem unusable_estimate_reported_twice_witness:
  "\<exists>ps. catalog_parse (\<lambda>_. Inr faulty_table) [] = Inl (Report ps) \<and>
     problem (entry_scope ''a'') ''memory_estimate_mib'' ''must be a whole number'' \<in> set ps \<and>
     problem (entry_scope ''a'') ''memory_estimate_mib'' ''is required, and no default supplies it'' \<in> set ps"
proof (rule unusable_estimate_reported_twice [where table = faulty_table and v = "TString ''7''"
      and t = "[(''context_size'', TInteger 1), (''memory_estimate_mib'', TString ''7''),
                (''path'', TString ''a.gguf'')]"])
  show "(''a'', TTable [(''context_size'', TInteger 1), (''memory_estimate_mib'', TString ''7''),
      (''path'', TString ''a.gguf'')]) \<in> set (models_of faulty_table)" by code_simp
  show "d_memory_estimate_mib (defaults_of faulty_table) = None" by code_simp
qed (simp_all add: as_positive_def)

end
