(* ===== verification/Gguf.thy ===== *)
theory Gguf
  imports Rust_Str
begin

text \<open>
  What a model file says about itself (\<open>src/src/gguf.rs\<close>, \<open>src/src/gguf/bytes.rs\<close>): the
  reader as the file's bytes and a position, the format's primitives, and the metadata the
  router keeps. Reading can end inside a value; a seek cannot, up to the largest offset the
  file system lets a file have, so the position may pass the end until \<open>fill\<close> looks at it.
  A failed device read is not modelled: the bytes are there or the file has ended.
\<close>

section \<open>The reader\<close>

record gguf_reader =
  r_data :: string
  r_pos :: nat
  r_limit :: nat \<comment> \<open>the largest offset a seek may reach\<close>

datatype fault = Fault (fault_text: string)

text \<open>\<open>From<std::io::Error>\<close>, with the two messages a read and a seek can fail with.\<close>

definition io_fault :: "string \<Rightarrow> fault" where
  "io_fault error = Fault (''ends inside its metadata: '' @ error)"

definition read_exact :: "nat \<Rightarrow> gguf_reader \<Rightarrow> fault + string \<times> gguf_reader" where
  "read_exact n r =
     (if r_pos r + n \<le> length (r_data r)
      then Inr (take n (drop (r_pos r) (r_data r)), r\<lparr>r_pos := r_pos r + n\<rparr>)
      else if n = 0 then Inr ([], r)
      else Inl (io_fault ''failed to fill whole buffer''))"

definition seek_relative :: "nat \<Rightarrow> gguf_reader \<Rightarrow> fault + gguf_reader" where
  "seek_relative n r =
     (if r_pos r + n \<le> r_limit r then Inr (r\<lparr>r_pos := r_pos r + n\<rparr>)
      else Inl (io_fault ''Invalid argument (os error 22)''))"

section \<open>The format's primitives (bytes.rs)\<close>

definition le_value :: "string \<Rightarrow> nat" where
  "le_value bs = foldr (\<lambda>b n. code b + 256 * n) bs 0"

definition from_le_bytes :: "string \<Rightarrow> 'a::len word" where
  "from_le_bytes bs = word_of_nat (le_value bs)"

definition bytes_at :: "nat \<Rightarrow> gguf_reader \<Rightarrow> fault + string \<times> gguf_reader" where
  "bytes_at n r = read_exact n r"

definition u32_at :: "gguf_reader \<Rightarrow> fault + u32 \<times> gguf_reader" where
  "u32_at r = attempt (bytes_at 4 r) (\<lambda>(bs, r). Inr (from_le_bytes bs, r))"

definition u64_at :: "gguf_reader \<Rightarrow> fault + u64 \<times> gguf_reader" where
  "u64_at r = attempt (bytes_at 8 r) (\<lambda>(bs, r). Inr (from_le_bytes bs, r))"

definition width :: "u32 \<Rightarrow> fault + u64" where
  "width kind =
     (if kind \<in> {0, 1, 7} then Inr 1
      else if kind \<in> {2, 3} then Inr 2
      else if 4 \<le> kind \<and> kind \<le> 6 then Inr 4
      else if 10 \<le> kind \<and> kind \<le> 12 then Inr 8
      else Inl (Fault (''uses value type '' @ show_word kind
                       @ '', which the format does not define'')))"

text \<open>\<open>u64::try_from\<close> on a signed integer.\<close>

definition non_negative :: "'a::len word \<Rightarrow> u64 option" where
  "non_negative w = (if 0 \<le> sint w then Some (word_of_int (sint w)) else None)"

text \<open>The eight bytes a scalar was read into; those past its width are zero.\<close>

definition unsigned_scalar :: "u32 \<Rightarrow> string \<Rightarrow> u64 option" where
  "unsigned_scalar kind bytes =
     (if kind \<in> {0, 2, 4, 10} then Some (from_le_bytes bytes)
      else if kind = 7 then Some (if code (bytes ! 0) \<noteq> 0 then 1 else 0)
      else if kind = 1 then non_negative (from_le_bytes (take 1 bytes) :: u8)
      else if kind = 3 then non_negative (from_le_bytes (take 2 bytes) :: u16)
      else if kind = 5 then non_negative (from_le_bytes (take 4 bytes) :: u32)
      else if kind = 11 then non_negative (from_le_bytes bytes :: u64)
      else None)"

definition scalar_at :: "u32 \<Rightarrow> gguf_reader \<Rightarrow> fault + u64 option \<times> gguf_reader" where
  "scalar_at kind r =
     attempt (width kind) (\<lambda>w.
     attempt (read_exact (unat w) r) (\<lambda>(bs, r).
       Inr (unsigned_scalar kind (bs @ replicate (8 - unat w) (byte 0)), r)))"

definition skip :: "u64 \<Rightarrow> gguf_reader \<Rightarrow> fault + gguf_reader" where
  "skip bytes r =
     (if unat bytes < 2 ^ 63 then seek_relative (unat bytes) r
      else Inl (Fault ''claims an impossible length''))"

definition text_at :: "u64 \<Rightarrow> gguf_reader \<Rightarrow> fault + string option \<times> gguf_reader" where
  "text_at keep r =
     attempt (u64_at r) (\<lambda>(len, r).
       if keep < len
       then attempt (skip len r) (\<lambda>r. Inr (None, r))
       else attempt (read_exact (unat len) r) (\<lambda>(bs, r). Inr (Some (from_utf8_lossy bs), r)))"

section \<open>The metadata (gguf.rs)\<close>

definition max_pairs :: u64 where "max_pairs = push_bit 16 1"
definition max_key_bytes :: u64 where "max_key_bytes = 1024"
definition max_kept_text_bytes :: u64 where "max_kept_text_bytes = 256"
definition max_layer_array :: u64 where "max_layer_array = push_bit 20 1"

definition string_kind :: u32 where "string_kind = 8"
definition array_kind :: u32 where "array_kind = 9"

record metadata =
  m_architecture :: "string option"
  m_numbers :: "(string, u64) btree"
  m_layers :: "(string, u64 list) btree"

definition no_metadata :: metadata where
  "no_metadata = \<lparr>m_architecture = None, m_numbers = [], m_layers = []\<rparr>"

definition number :: "metadata \<Rightarrow> string \<Rightarrow> u64 option" where
  "number m key = map_of (m_numbers m) key"

definition of_model :: "metadata \<Rightarrow> string \<Rightarrow> u64 option" where
  "of_model m suffix =
     (case m_architecture m of None \<Rightarrow> None | Some arch \<Rightarrow> number m (arch @ ''.'' @ suffix))"

definition per_layer :: "metadata \<Rightarrow> string \<Rightarrow> u64 list option" where
  "per_layer m suffix =
     (case m_architecture m of None \<Rightarrow> None | Some arch \<Rightarrow> map_of (m_layers m) (arch @ ''.'' @ suffix))"

definition split_count :: "metadata \<Rightarrow> u64 option" where
  "split_count m = number m ''split.count''"

text \<open>\<open>Option::max\<close>: nothing is below everything.\<close>

fun option_max :: "u64 option \<Rightarrow> u64 option \<Rightarrow> u64 option" where
  "option_max None y = y"
| "option_max x None = x"
| "option_max (Some x) (Some y) = Some (max x y)"

fun layers_loop ::
    "nat \<Rightarrow> u32 \<Rightarrow> u64 option \<Rightarrow> u64 list \<Rightarrow> gguf_reader
       \<Rightarrow> fault + (u64 option \<times> u64 list) \<times> gguf_reader" where
  "layers_loop 0 kind largest elements r = Inr ((largest, elements), r)"
| "layers_loop (Suc n) kind largest elements r =
     attempt (scalar_at kind r) (\<lambda>(element, r).
       layers_loop n kind (option_max largest element)
         (case element of None \<Rightarrow> elements | Some e \<Rightarrow> elements @ [e]) r)"

fun texts_loop :: "nat \<Rightarrow> gguf_reader \<Rightarrow> fault + gguf_reader" where
  "texts_loop 0 r = Inr r"
| "texts_loop (Suc n) r = attempt (text_at 0 r) (\<lambda>(_, r). texts_loop n r)"

definition keeps_layers :: "string \<Rightarrow> bool" where
  "keeps_layers key \<longleftrightarrow>
     ends_with key ''.attention.head_count_kv'' \<or> ends_with key ''.attention.head_count'' \<or>
     ends_with key ''.attention.sliding_window_pattern''"

definition read_array :: "string \<Rightarrow> metadata \<Rightarrow> gguf_reader \<Rightarrow> fault + metadata \<times> gguf_reader" where
  "read_array key m r =
     attempt (u32_at r) (\<lambda>(kind, r).
     attempt (u64_at r) (\<lambda>(count, r).
       if keeps_layers key \<and> kind \<noteq> string_kind \<and> kind \<noteq> array_kind
       then
         (if max_layer_array < count
          then Inl (Fault (quoted key @ '' claims '' @ show_word count @ '' layers''))
          else attempt (layers_loop (unat count) kind None [] r) (\<lambda>((largest, elements), r).
            let m = (case largest of None \<Rightarrow> m | Some n \<Rightarrow> m\<lparr>m_numbers := bt_insert key n (m_numbers m)\<rparr>);
                m = (if elements = [] then m else m\<lparr>m_layers := bt_insert key elements (m_layers m)\<rparr>)
            in Inr (m, r)))
       else if kind = string_kind
       then attempt (texts_loop (unat count) r) (\<lambda>r. Inr (m, r))
       else if kind = array_kind
       then Inl (Fault (quoted key @ '' nests arrays''))
       else attempt (width kind) (\<lambda>w.
         case checked_mul count w of
           None \<Rightarrow> Inl (Fault (quoted key @ '' claims an impossible length''))
         | Some bytes \<Rightarrow> attempt (skip bytes r) (\<lambda>r. Inr (m, r)))))"

definition read_value :: "string \<Rightarrow> u32 \<Rightarrow> metadata \<Rightarrow> gguf_reader \<Rightarrow> fault + metadata \<times> gguf_reader" where
  "read_value key kind m r =
     (if kind = string_kind
      then attempt (text_at max_kept_text_bytes r) (\<lambda>(kept, r).
        Inr (if key = ''general.architecture'' then m\<lparr>m_architecture := kept\<rparr> else m, r))
      else if kind = array_kind then read_array key m r
      else attempt (scalar_at kind r) (\<lambda>(number, r).
        Inr (case number of
               None \<Rightarrow> m
             | Some n \<Rightarrow>
                 if starts_with key ''tokenizer.'' then m
                 else m\<lparr>m_numbers := bt_insert key n (m_numbers m)\<rparr>, r)))"

fun pairs_loop :: "nat \<Rightarrow> metadata \<Rightarrow> gguf_reader \<Rightarrow> fault + metadata \<times> gguf_reader" where
  "pairs_loop 0 m r = Inr (m, r)"
| "pairs_loop (Suc n) m r =
     attempt (text_at max_key_bytes r) (\<lambda>(kept, r).
       case kept of
         None \<Rightarrow> Inl (Fault ''a key longer than any the format uses'')
       | Some key \<Rightarrow>
           attempt (u32_at r) (\<lambda>(kind, r).
           attempt (read_value key kind m r) (\<lambda>(m, r). pairs_loop n m r)))"

definition fill :: "u64 \<Rightarrow> metadata \<Rightarrow> gguf_reader \<Rightarrow> fault + metadata" where
  "fill len m r =
     attempt (read_exact 4 r) (\<lambda>(magic, r).
       if magic \<noteq> ''GGUF'' then Inl (Fault ''does not begin with the GGUF magic'')
       else attempt (u32_at r) (\<lambda>(version, r).
         if \<not> (2 \<le> version \<and> version \<le> 3)
         then Inl (Fault (''GGUF version '' @ show_word version @ '' is not one this reads''))
         else attempt (u64_at r) (\<lambda>(_, r).
              attempt (u64_at r) (\<lambda>(pairs, r).
                if max_pairs < pairs
                then Inl (Fault (''claims '' @ show_word pairs @ '' metadata pairs''))
                else attempt (pairs_loop (unat pairs) m r) (\<lambda>(m, r).
                  if unat len < r_pos r then Inl (Fault ''ends before its metadata does'')
                  else Inr m)))))"

text \<open>
  What the file system answers when a file is opened: its refusal, or the bytes, the length
  it reports (or its refusal to), and how far a seek may go.
\<close>

record opened =
  o_bytes :: string
  o_length :: "string + u64"
  o_limit :: nat

definition metadata_read :: "(string \<Rightarrow> string + opened) \<Rightarrow> string \<Rightarrow> fault + metadata" where
  "metadata_read open_file path =
     (case open_file path of
        Inl error \<Rightarrow> Inl (Fault (''cannot open '' @ quoted path @ '': '' @ error))
      | Inr f \<Rightarrow>
          (case o_length f of
             Inl error \<Rightarrow> Inl (Fault (''cannot size '' @ quoted path @ '': '' @ error))
           | Inr len \<Rightarrow>
               (case fill len no_metadata \<lparr>r_data = o_bytes f, r_pos = 0, r_limit = o_limit f\<rparr> of
                  Inl (Fault reason) \<Rightarrow> Inl (Fault (quoted path @ '': '' @ reason))
                | Inr m \<Rightarrow> Inr m)))"

end
