(* ===== verification/Gguf_Laws.thy ===== *)
theory Gguf_Laws
  imports Gguf
begin

text \<open>
  What reading a model file's metadata promises. The format is written down as an encoder
  (\<open>gguf_file\<close>), and the reader of \<open>Gguf\<close> is shown to recover from every well-formed
  file exactly the pairs it means to keep, to refuse every truncation of one, and, whatever
  the bytes, to keep no more than its bounds allow.
\<close>

section \<open>The format, as an encoder\<close>

fun le_bytes :: "nat \<Rightarrow> nat \<Rightarrow> string" where
  "le_bytes 0 n = []"
| "le_bytes (Suc k) n = byte (n mod 256) # le_bytes k (n div 256)"

datatype gguf_value =
    GScalar u32 string
  | GText string
  | GScalars u32 "string list"
  | GTexts "string list"

definition text_bytes :: "string \<Rightarrow> string" where
  "text_bytes s = le_bytes 8 (length s) @ s"

fun value_kind :: "gguf_value \<Rightarrow> u32" where
  "value_kind (GScalar k _) = k"
| "value_kind (GText _) = string_kind"
| "value_kind _ = array_kind"

fun value_bytes :: "gguf_value \<Rightarrow> string" where
  "value_bytes (GScalar k bs) = bs"
| "value_bytes (GText s) = text_bytes s"
| "value_bytes (GScalars k bss) = le_bytes 4 (unat k) @ le_bytes 8 (length bss) @ concat bss"
| "value_bytes (GTexts ss) = le_bytes 4 (unat string_kind) @ le_bytes 8 (length ss) @ concat (map text_bytes ss)"

definition pair_bytes :: "string \<times> gguf_value \<Rightarrow> string" where
  "pair_bytes kv = text_bytes (fst kv) @ le_bytes 4 (unat (value_kind (snd kv))) @ value_bytes (snd kv)"

definition gguf_file :: "u32 \<Rightarrow> u64 \<Rightarrow> (string \<times> gguf_value) list \<Rightarrow> string" where
  "gguf_file version tensors kvs =
     ''GGUF'' @ le_bytes 4 (unat version) @ le_bytes 8 (unat tensors) @ le_bytes 8 (length kvs) @
     concat (map pair_bytes kvs)"

text \<open>A scalar's bytes are as many as its kind is wide; the lists fit the format's counts.\<close>

definition scalar_wf :: "u32 \<Rightarrow> string \<Rightarrow> bool" where
  "scalar_wf k bs \<longleftrightarrow> (case width k of Inl _ \<Rightarrow> False | Inr w \<Rightarrow> length bs = unat w)"

fun value_wf :: "string \<Rightarrow> gguf_value \<Rightarrow> bool" where
  "value_wf key (GScalar k bs) = scalar_wf k bs"
| "value_wf key (GText s) = (length s < 2 ^ 63)"
| "value_wf key (GScalars k bss) =
     (bss \<noteq> [] \<and> list_all (scalar_wf k) bss \<and> length bss < 2 ^ 60 \<and>
      (keeps_layers key \<longrightarrow> length bss \<le> unat max_layer_array))"
| "value_wf key (GTexts ss) = (length ss < 2 ^ 63 \<and> list_all (\<lambda>s. length s < 2 ^ 63) ss)"

definition pair_wf :: "string \<times> gguf_value \<Rightarrow> bool" where
  "pair_wf kv \<longleftrightarrow> length (fst kv) \<le> unat max_key_bytes \<and> utf8_valid (fst kv) \<and> value_wf (fst kv) (snd kv)"

text \<open>What each pair leaves in the metadata.\<close>

definition scalar_value :: "u32 \<Rightarrow> string \<Rightarrow> u64 option" where
  "scalar_value k bs = unsigned_scalar k (bs @ replicate (8 - length bs) (byte 0))"

fun kept :: "string \<times> gguf_value \<Rightarrow> metadata \<Rightarrow> metadata" where
  "kept (key, GText s) m =
     (if key = ''general.architecture''
      then m\<lparr>m_architecture := (if length s \<le> unat max_kept_text_bytes then Some (from_utf8_lossy s) else None)\<rparr>
      else m)"
| "kept (key, GScalar k bs) m =
     (case scalar_value k bs of
        None \<Rightarrow> m
      | Some n \<Rightarrow> if starts_with key ''tokenizer.'' then m
                  else m\<lparr>m_numbers := bt_insert key n (m_numbers m)\<rparr>)"
| "kept (key, GScalars k bss) m =
     (let ns = List.map_filter (scalar_value k) bss in
      if keeps_layers key \<and> ns \<noteq> []
      then m\<lparr>m_numbers := bt_insert key (Max (set ns)) (m_numbers m),
             m_layers := bt_insert key ns (m_layers m)\<rparr>
      else m)"
| "kept (key, GTexts ss) m = m"

section \<open>Reading what was written\<close>

lemma length_le_bytes [simp]: "length (le_bytes k n) = k"
  by (induction k arbitrary: n) auto

lemma le_value_le_bytes [simp]: "n < 256 ^ k \<Longrightarrow> le_value (le_bytes k n) = n"
proof (induction k arbitrary: n)
  case 0
  then show ?case by (simp add: le_value_def)
next
  case (Suc k)
  have "n div 256 < 256 ^ k" using Suc.prems by (simp add: less_mult_imp_div_less mult.commute)
  then have "le_value (le_bytes k (n div 256)) = n div 256" by (rule Suc.IH)
  then show ?case by (simp add: le_value_def)
qed

definition reading :: "gguf_reader \<Rightarrow> string \<Rightarrow> bool" where
  "reading r s \<longleftrightarrow>
     drop (r_pos r) (r_data r) = s \<and> r_pos r \<le> length (r_data r) \<and> length (r_data r) \<le> r_limit r"

definition yields :: "fault + 'a \<times> gguf_reader \<Rightarrow> gguf_reader \<Rightarrow> 'a \<Rightarrow> string \<Rightarrow> bool" where
  "yields res r x rest \<longleftrightarrow>
     (\<exists>r'. res = Inr (x, r') \<and> reading r' rest \<and> r_data r' = r_data r \<and> r_limit r' = r_limit r)"

definition steps :: "fault + gguf_reader \<Rightarrow> gguf_reader \<Rightarrow> string \<Rightarrow> bool" where
  "steps res r rest \<longleftrightarrow>
     (\<exists>r'. res = Inr r' \<and> reading r' rest \<and> r_data r' = r_data r \<and> r_limit r' = r_limit r)"

lemma yields_attempt:
  assumes "yields m r x rest"
    and "\<And>r'. reading r' rest \<Longrightarrow> yields (h x r') r' y rest'"
  shows "yields (attempt m (\<lambda>(x, r). h x r)) r y rest'"
  using assms by (fastforce simp: yields_def)

lemma yields_steps:
  assumes "steps m r rest" and "\<And>r'. reading r' rest \<Longrightarrow> yields (h r') r' y rest'"
  shows "yields (attempt m (\<lambda>r. h r)) r y rest'"
  using assms by (fastforce simp: yields_def steps_def)

lemma yieldsE:
  assumes "yields res r x rest"
  obtains r' where "res = Inr (x, r')" "reading r' rest" "r_data r' = r_data r" "r_limit r' = r_limit r"
  using assms by (auto simp: yields_def)

lemma yields_from:
  "r_data r' = r_data r \<Longrightarrow> r_limit r' = r_limit r \<Longrightarrow> yields res r' x rest \<Longrightarrow> yields res r x rest"
  by (simp add: yields_def)

lemma yields_Inr: "reading r rest \<Longrightarrow> yields (Inr (x, r)) r x rest"
  by (simp add: yields_def)

lemma reading_advance:
  "reading r (bs @ rest) \<Longrightarrow> reading (r\<lparr>r_pos := r_pos r + length bs\<rparr>) rest"
proof -
  assume a: "reading r (bs @ rest)"
  have "drop (r_pos r + length bs) (r_data r) = drop (length bs) (drop (r_pos r) (r_data r))"
    by (simp add: add.commute)
  also have "\<dots> = rest" using a by (simp add: reading_def)
  finally have d: "drop (r_pos r + length bs) (r_data r) = rest" .
  have "length (r_data r) - r_pos r = length bs + length rest"
    using a by (simp add: reading_def flip: length_drop)
  then have "r_pos r + length bs \<le> length (r_data r)" using a by (auto simp: reading_def)
  with a d show ?thesis by (simp add: reading_def)
qed

lemma reading_fits:
  assumes "reading r (bs @ rest)"
  shows "r_pos r + length bs \<le> length (r_data r)" "take (length bs) (drop (r_pos r) (r_data r)) = bs"
  using reading_advance [OF assms] assms by (simp_all add: reading_def)

lemma yields_read_exact:
  "reading r (bs @ rest) \<Longrightarrow> n = length bs \<Longrightarrow> yields (read_exact n r) r bs rest"
  using reading_fits [of r bs rest] reading_advance [of r bs rest]
  by (auto simp: read_exact_def yields_def)

lemma steps_seek:
  "reading r (bs @ rest) \<Longrightarrow> n = length bs \<Longrightarrow> steps (seek_relative n r) r rest"
  using reading_fits [of r bs rest] reading_advance [of r bs rest]
  by (auto simp: seek_relative_def steps_def reading_def)

lemma yields_u32:
  "reading r (le_bytes 4 n @ rest) \<Longrightarrow> n < 2 ^ 32 \<Longrightarrow> yields (u32_at r) r (word_of_nat n) rest"
  unfolding u32_at_def bytes_at_def
  by (rule yields_attempt, erule yields_read_exact) (auto simp: from_le_bytes_def intro: yields_Inr)

lemma yields_u64:
  "reading r (le_bytes 8 n @ rest) \<Longrightarrow> n < 2 ^ 64 \<Longrightarrow> yields (u64_at r) r (word_of_nat n) rest"
  unfolding u64_at_def bytes_at_def
  by (rule yields_attempt, erule yields_read_exact) (auto simp: from_le_bytes_def intro: yields_Inr)

lemma unat_small: "n < 2 ^ 63 \<Longrightarrow> unat (word_of_nat n :: u64) = n"
  by (simp add: unsigned_of_nat take_bit_nat_eq_self)

lemma steps_skip:
  "reading r (bs @ rest) \<Longrightarrow> n = length bs \<Longrightarrow> n < 2 ^ 63 \<Longrightarrow> steps (skip (word_of_nat n) r) r rest"
  by (simp only: skip_def unat_small if_True steps_seek)

lemma yields_text:
  assumes "reading r (text_bytes s @ rest)" and "length s < 2 ^ 63"
  shows "yields (text_at keep r) r (if length s \<le> unat keep then Some (from_utf8_lossy s) else None) rest"
  unfolding text_at_def
proof (rule yields_attempt)
  show "yields (u64_at r) r (word_of_nat (length s)) (s @ rest)"
    using assms by (intro yields_u64) (simp_all add: text_bytes_def)
next
  have len: "unat (word_of_nat (length s) :: u64) = length s" using assms(2) by (rule unat_small)
  fix r' assume r': "reading r' (s @ rest)"
  show "yields (if keep < word_of_nat (length s)
        then attempt (skip (word_of_nat (length s)) r') (\<lambda>r. Inr (None, r))
        else attempt (read_exact (unat (word_of_nat (length s) :: u64)) r')
               (\<lambda>(bs, r). Inr (Some (from_utf8_lossy bs), r))) r'
      (if length s \<le> unat keep then Some (from_utf8_lossy s) else None) rest"
  proof (cases "length s \<le> unat keep")
    case True
    show ?thesis
      unfolding len using True
      by (simp add: word_less_nat_alt len)
        (rule yields_attempt [OF yields_read_exact [OF r' refl]], rule yields_Inr)
  next
    case False
    show ?thesis
      using False by (simp add: word_less_nat_alt len)
        (rule yields_steps [OF steps_skip [OF r' refl assms(2)]], rule yields_Inr)
  qed
qed

lemma yields_scalar:
  assumes "reading r (bs @ rest)" and "scalar_wf k bs"
  shows "yields (scalar_at k r) r (scalar_value k bs) rest"
proof -
  obtain w where w: "width k = Inr w" "unat w = length bs"
    using assms(2) by (auto simp: scalar_wf_def split: sum.splits)
  show ?thesis
    unfolding scalar_at_def w(1) attempt.simps w(2) scalar_value_def
    by (rule yields_attempt [OF yields_read_exact [OF assms(1) refl]], rule yields_Inr)
qed

lemma yields_layers:
  assumes "reading r (concat bss @ rest)" and "list_all (scalar_wf k) bss"
  shows "yields (layers_loop (length bss) k largest elements r) r
     (fold (\<lambda>bs l. option_max l (scalar_value k bs)) bss largest,
      elements @ List.map_filter (scalar_value k) bss) rest"
  using assms
proof (induction bss arbitrary: r largest elements)
  case Nil
  then show ?case by (simp add: yields_Inr List.map_filter_simps)
next
  case (Cons bs bss)
  have head: "yields (scalar_at k r) r (scalar_value k bs) (concat bss @ rest)"
    using Cons.prems by (intro yields_scalar) simp_all
  show ?case
    unfolding list.size add_Suc_right add_0_right layers_loop.simps
  proof (rule yields_attempt [OF head])
    fix r' assume "reading r' (concat bss @ rest)"
    from Cons.IH [OF this, of _ "case scalar_value k bs of None \<Rightarrow> elements | Some e \<Rightarrow> elements @ [e]"]
      Cons.prems(2)
    show "yields (layers_loop (length bss) k (option_max largest (scalar_value k bs))
          (case scalar_value k bs of None \<Rightarrow> elements | Some e \<Rightarrow> elements @ [e]) r') r'
        (fold (\<lambda>bs l. option_max l (scalar_value k bs)) (bs # bss) largest,
         elements @ List.map_filter (scalar_value k) (bs # bss)) rest"
      by (cases "scalar_value k bs") (simp_all add: List.map_filter_simps)
  qed
qed

text \<open>The running maximum over an array is the largest of the integers in it.\<close>

lemma fold_option_max_Some:
  "fold (\<lambda>bs l. option_max l (f bs)) xs (Some n) = Some (Max (insert n (set (List.map_filter f xs))))"
proof (induction xs arbitrary: n)
  case Nil
  then show ?case by (simp add: List.map_filter_simps)
next
  case (Cons x xs)
  have "Max (insert (max n a) M) = Max (insert n (insert a M))" if "finite M" for a and M :: "u64 set"
    using that by (cases "M = {}") (simp_all add: max.assoc)
  then show ?case
    using Cons by (cases "f x") (simp_all add: List.map_filter_simps)
qed

lemma fold_option_max:
  "fold (\<lambda>bs l. option_max l (f bs)) xs None =
     (let ns = List.map_filter f xs in if ns = [] then None else Some (Max (set ns)))"
proof (induction xs)
  case Nil
  then show ?case by (simp add: List.map_filter_simps)
next
  case (Cons x xs)
  then show ?case
    by (cases "f x") (simp_all add: List.map_filter_simps fold_option_max_Some)
qed

lemma steps_texts:
  assumes "reading r (concat (map text_bytes ss) @ rest)" and "list_all (\<lambda>s. length s < 2 ^ 63) ss"
  shows "steps (texts_loop (length ss) r) r rest"
  using assms
proof (induction ss arbitrary: r)
  case Nil
  then show ?case by (simp add: steps_def)
next
  case (Cons s ss)
  obtain x r' where r': "text_at 0 r = Inr (x, r')" "reading r' (concat (map text_bytes ss) @ rest)"
      "r_data r' = r_data r" "r_limit r' = r_limit r"
    using yields_text [of r s "concat (map text_bytes ss) @ rest" 0] Cons.prems
    by (auto simp: yields_def)
  then show ?case using Cons.IH [OF r'(2)] Cons.prems by (auto simp: steps_def)
qed

lemma scalar_wf_width: "scalar_wf k bs \<Longrightarrow> width k = Inr (word_of_nat (length bs)) \<and> 0 < length bs \<and> length bs \<le> 8"
  by (auto simp: scalar_wf_def width_def split: if_splits)

lemma scalar_wf_kind: "scalar_wf k bs \<Longrightarrow> k \<noteq> string_kind \<and> k \<noteq> array_kind"
  by (auto simp: scalar_wf_def width_def string_kind_def array_kind_def)

lemma kinds_distinct [simp]: "string_kind \<noteq> array_kind" "array_kind \<noteq> string_kind"
  by (simp_all add: string_kind_def array_kind_def)

lemma concat_width:
  "list_all (scalar_wf k) bss \<Longrightarrow> width k = Inr w \<Longrightarrow> length (concat bss) = length bss * unat w"
  by (induction bss) (auto simp: scalar_wf_def)

lemma array_header:
  assumes "reading r (le_bytes 4 (unat k) @ le_bytes 8 n @ rest)" and "n < 2 ^ 64"
  obtains r' where "reading r' rest" "r_data r' = r_data r" "r_limit r' = r_limit r"
    "u32_at r = Inr (k, snd (projr (u32_at r)))"
    "u64_at (snd (projr (u32_at r))) = Inr (word_of_nat n, r')"
proof -
  have "unat k < 2 ^ 32" by simp
  from yields_u32 [OF assms(1) this] obtain r1 where r1: "u32_at r = Inr (k, r1)"
    "reading r1 (le_bytes 8 n @ rest)" "r_data r1 = r_data r" "r_limit r1 = r_limit r"
    by (auto elim: yieldsE)
  from yields_u64 [OF r1(2) assms(2)] obtain r2 where "u64_at r1 = Inr (word_of_nat n, r2)"
    "reading r2 rest" "r_data r2 = r_data r1" "r_limit r2 = r_limit r1"
    by (auto elim: yieldsE)
  with r1 that show ?thesis by simp
qed

lemma yields_array_texts:
  assumes "reading r (value_bytes (GTexts ss) @ rest)" and "value_wf key (GTexts ss)"
  shows "yields (read_array key m r) r m rest"
proof -
  have ss: "length ss < 2 ^ 63" "list_all (\<lambda>s. length s < 2 ^ 63) ss" using assms(2) by simp_all
  have "reading r (le_bytes 4 (unat string_kind) @ le_bytes 8 (length ss) @ concat (map text_bytes ss) @ rest)"
    using assms(1) by simp
  from array_header [OF this] ss(1) obtain r' where r': "reading r' (concat (map text_bytes ss) @ rest)"
    "r_data r' = r_data r" "r_limit r' = r_limit r"
    "u32_at r = Inr (string_kind, snd (projr (u32_at r)))"
    "u64_at (snd (projr (u32_at r))) = Inr (word_of_nat (length ss), r')"
    by auto
  have "yields (attempt (texts_loop (length ss) r') (\<lambda>r. Inr (m, r))) r' m rest"
    by (rule yields_steps [OF steps_texts [OF r'(1) ss(2)]], rule yields_Inr)
  then show ?thesis
    unfolding read_array_def
    by (intro yields_from [OF r'(2,3)]) (subst r'(4), simp add: r'(5) unat_small [OF ss(1)])
qed

lemma yields_array_scalars:
  assumes "reading r (value_bytes (GScalars k bss) @ rest)" and "value_wf key (GScalars k bss)"
  shows "yields (read_array key m r) r (kept (key, GScalars k bss) m) rest"
proof -
  let ?ns = "List.map_filter (scalar_value k) bss"
  have wf: "list_all (scalar_wf k) bss" "length bss < 2 ^ 60" "bss \<noteq> []"
    and max: "keeps_layers key \<Longrightarrow> length bss \<le> unat max_layer_array"
    using assms(2) by simp_all
  then obtain bs where bs: "scalar_wf k bs" by (cases bss) auto
  have k: "k \<noteq> string_kind" "k \<noteq> array_kind" and w: "width k = Inr (word_of_nat (length bs))" "length bs \<le> 8"
    using scalar_wf_kind [OF bs] scalar_wf_width [OF bs] by auto
  have n: "unat (word_of_nat (length bss) :: u64) = length bss" using wf(2) by (intro unat_small) simp
  have uw: "unat (word_of_nat (length bs) :: u64) = length bs" using w(2) by (intro unat_small) simp
  have total: "length (concat bss) = length bss * length bs"
    using concat_width [OF wf(1) w(1)] uw by simp
  have "length bss * length bs \<le> length bss * 8" using w(2) by simp
  also have "\<dots> < 2 ^ 63" using wf(2) by simp
  finally have small: "length bss * length bs < 2 ^ 63" .
  have mul: "checked_mul (word_of_nat (length bss) :: u64) (word_of_nat (length bs))
      = Some (word_of_nat (length (concat bss)))"
    using small by (simp add: checked_mul_def n uw total)
  have "reading r (le_bytes 4 (unat k) @ le_bytes 8 (length bss) @ concat bss @ rest)"
    using assms(1) by simp
  from array_header [OF this] wf(2) obtain r' where r': "reading r' (concat bss @ rest)"
    "r_data r' = r_data r" "r_limit r' = r_limit r"
    "u32_at r = Inr (k, snd (projr (u32_at r)))"
    "u64_at (snd (projr (u32_at r))) = Inr (word_of_nat (length bss), r')"
    by auto
  from yields_layers [OF r'(1) wf(1), of None "[]"] obtain r1 where
    r1: "layers_loop (length bss) k None [] r' =
           Inr ((let ns = ?ns in if ns = [] then None else Some (Max (set ns)), ?ns), r1)"
      "reading r1 rest" "r_data r1 = r_data r'" "r_limit r1 = r_limit r'"
    unfolding fold_option_max by (auto elim: yieldsE)
  from steps_skip [OF r'(1) refl] small obtain r2 where
    r2: "skip (word_of_nat (length (concat bss))) r' = Inr r2"
      "reading r2 rest" "r_data r2 = r_data r'" "r_limit r2 = r_limit r'"
    by (auto simp: steps_def total)
  have over: "\<not> max_layer_array < word_of_nat (length bss)" if "keeps_layers key"
    using max [OF that] by (simp add: word_less_nat_alt n not_less)
  show ?thesis
  proof (cases "keeps_layers key")
    case True
    show ?thesis
      unfolding read_array_def
      by (subst r'(4), simp only: attempt.simps prod.case r'(5) n)
        (use True over k r1 r' in \<open>simp add: yields_def Let_def\<close>)
  next
    case False
    show ?thesis
      unfolding read_array_def
      by (subst r'(4), simp only: attempt.simps prod.case r'(5) w(1) mul option.case r2(1))
        (use False k r2 r' in \<open>simp add: yields_def\<close>)
  qed
qed

lemma yields_value:
  assumes "reading r (value_bytes v @ rest)" and "value_wf key v"
  shows "yields (read_value key (value_kind v) m r) r (kept (key, v) m) rest"
proof (cases v)
  case (GScalar k bs)
  have wf: "scalar_wf k bs" and r: "reading r (bs @ rest)" using assms GScalar by simp_all
  show ?thesis
    using yields_scalar [OF r wf] scalar_wf_kind [OF wf] GScalar
    by (auto simp: read_value_def yields_def split: option.split)
next
  case (GText s)
  then show ?thesis
    using yields_text [of r s rest max_kept_text_bytes] assms
    by (auto simp: read_value_def yields_def)
next
  case (GScalars k bss)
  then show ?thesis using yields_array_scalars assms by (simp add: read_value_def del: value_bytes.simps value_wf.simps kept.simps)
next
  case (GTexts ss)
  then show ?thesis using yields_array_texts assms by (simp add: read_value_def del: value_bytes.simps value_wf.simps)
qed

lemma yields_pairs:
  assumes "reading r (concat (map pair_bytes kvs) @ rest)" and "list_all pair_wf kvs"
  shows "yields (pairs_loop (length kvs) m r) r (fold kept kvs m) rest"
  using assms
proof (induction kvs arbitrary: r m)
  case Nil
  then show ?case by (simp add: yields_Inr)
next
  case (Cons kv kvs)
  obtain key v where kv: "kv = (key, v)" by (cases kv)
  let ?rest = "concat (map pair_bytes kvs) @ rest"
  have wf: "length key \<le> unat max_key_bytes" "utf8_valid key" "value_wf key v"
    using Cons.prems(2) kv by (simp_all add: pair_wf_def)
  have short: "length key < 2 ^ 63" using wf(1) by (simp add: max_key_bytes_def)
  have "reading r (text_bytes key @ le_bytes 4 (unat (value_kind v)) @ value_bytes v @ ?rest)"
    using Cons.prems(1) by (simp add: kv pair_bytes_def [of "(key, v)"])
  from yields_text [OF this short, of max_key_bytes] wf obtain r1 where
    r1: "text_at max_key_bytes r = Inr (Some key, r1)"
      "reading r1 (le_bytes 4 (unat (value_kind v)) @ value_bytes v @ ?rest)"
      "r_data r1 = r_data r" "r_limit r1 = r_limit r"
    by (auto elim: yieldsE simp: from_utf8_lossy_valid)
  have "unat (value_kind v) < 2 ^ 32" by simp
  from yields_u32 [OF r1(2) this] obtain r2 where
    r2: "u32_at r1 = Inr (value_kind v, r2)" "reading r2 (value_bytes v @ ?rest)"
      "r_data r2 = r_data r1" "r_limit r2 = r_limit r1"
    by (auto elim: yieldsE)
  from yields_value [OF r2(2) wf(3), of m] obtain r3 where
    r3: "read_value key (value_kind v) m r2 = Inr (kept (key, v) m, r3)" "reading r3 ?rest"
      "r_data r3 = r_data r2" "r_limit r3 = r_limit r2"
    by (auto elim: yieldsE)
  from Cons.IH [OF r3(2)] Cons.prems(2)
  have "yields (pairs_loop (length kvs) (kept (key, v) m) r3) r3 (fold kept kvs (kept (key, v) m)) rest"
    by simp
  then show ?case using r1 r2 r3 kv by (simp add: yields_def)
qed

section \<open>Whole files\<close>

definition metadata_of :: "(string \<times> gguf_value) list \<Rightarrow> metadata" where
  "metadata_of kvs = fold kept kvs no_metadata"

definition start :: "string \<Rightarrow> nat \<Rightarrow> gguf_reader" where
  "start bytes limit = \<lparr>r_data = bytes, r_pos = 0, r_limit = limit\<rparr>"

definition file_wf :: "u32 \<Rightarrow> (string \<times> gguf_value) list \<Rightarrow> bool" where
  "file_wf version kvs \<longleftrightarrow> version \<in> {2, 3} \<and> length kvs \<le> unat max_pairs \<and> list_all pair_wf kvs"

lemma version_range: "2 \<le> v \<and> v \<le> 3 \<longleftrightarrow> v \<in> {2, 3 :: u32}"
proof
  assume "2 \<le> v \<and> v \<le> 3"
  then have "2 \<le> unat v" "unat v \<le> 3" by (simp_all add: word_le_nat_alt)
  then have "unat v = unat (2 :: u32) \<or> unat v = unat (3 :: u32)" by simp linarith
  then show "v \<in> {2, 3}" by (simp only: word_unat_eq_iff [symmetric] insert_iff empty_iff simp_thms)
qed auto

lemma fill_gguf_file:
  assumes "file_wf version kvs" and "length (gguf_file version tensors kvs @ rest) \<le> limit"
  shows "fill len m (start (gguf_file version tensors kvs @ rest) limit) =
     (if unat len < length (gguf_file version tensors kvs) then Inl (Fault ''ends before its metadata does'')
      else Inr (fold kept kvs m))"
proof -
  let ?r = "start (gguf_file version tensors kvs @ rest) limit"
  let ?pairs = "concat (map pair_bytes kvs) @ rest"
  have v: "2 \<le> version \<and> version \<le> 3" and n: "length kvs \<le> unat max_pairs" and wf: "list_all pair_wf kvs"
    using assms(1) by (simp_all only: file_wf_def version_range)
  have n64: "length kvs < 2 ^ 64" "length kvs < 2 ^ 63" using n by (simp_all add: max_pairs_def)
  have "reading ?r (''GGUF'' @ le_bytes 4 (unat version) @ le_bytes 8 (unat tensors) @ le_bytes 8 (length kvs) @ ?pairs)"
    using assms(2) by (simp add: reading_def start_def gguf_file_def)
  from yields_read_exact [OF this, of 4] obtain r1 where
    r1: "read_exact 4 ?r = Inr (''GGUF'', r1)"
      "reading r1 (le_bytes 4 (unat version) @ le_bytes 8 (unat tensors) @ le_bytes 8 (length kvs) @ ?pairs)"
      "r_data r1 = r_data ?r"
    by (auto elim: yieldsE)
  have "unat version < 2 ^ 32" by simp
  from yields_u32 [OF r1(2) this] obtain r2 where
    r2: "u32_at r1 = Inr (version, r2)"
      "reading r2 (le_bytes 8 (unat tensors) @ le_bytes 8 (length kvs) @ ?pairs)" "r_data r2 = r_data r1"
    by (auto elim: yieldsE)
  have "unat tensors < 2 ^ 64" by simp
  from yields_u64 [OF r2(2) this] obtain r3 where
    r3: "u64_at r2 = Inr (tensors, r3)" "reading r3 (le_bytes 8 (length kvs) @ ?pairs)" "r_data r3 = r_data r2"
    by (auto elim: yieldsE)
  from yields_u64 [OF r3(2) n64(1)] obtain r4 where
    r4: "u64_at r3 = Inr (word_of_nat (length kvs), r4)" "reading r4 ?pairs" "r_data r4 = r_data r3"
    by (auto elim: yieldsE)
  from yields_pairs [OF r4(2) wf] obtain r5 where
    r5: "pairs_loop (length kvs) m r4 = Inr (fold kept kvs m, r5)" "reading r5 rest" "r_data r5 = r_data r4"
    by (auto elim: yieldsE)
  have u: "unat (word_of_nat (length kvs) :: u64) = length kvs" using n64(2) by (rule unat_small)
  then have over: "\<not> max_pairs < (word_of_nat (length kvs) :: u64)"
    using n by (simp add: word_less_nat_alt not_less)
  have data: "r_data r5 = gguf_file version tensors kvs @ rest"
    using r1 r2 r3 r4 r5 by (simp add: start_def)
  have pos: "r_pos r5 = length (gguf_file version tensors kvs)"
  proof -
    have "length (r_data r5) - r_pos r5 = length rest" "r_pos r5 \<le> length (r_data r5)"
      using r5(2) by (auto simp: reading_def)
    then show ?thesis by (simp add: data)
  qed
  show ?thesis
    by (simp only: fill_def r1(1) r2(1) r3(1) r4(1) r5(1) attempt.simps prod.case u over v pos
        if_True if_False not_True_eq_False simp_thms)
qed

section \<open>Files cut short\<close>

text \<open>Every step that succeeds on some bytes succeeds on them with more after, in the same way.\<close>

definition extended :: "string \<Rightarrow> gguf_reader \<Rightarrow> gguf_reader" where
  "extended tl_bs r = r\<lparr>r_data := r_data r @ tl_bs\<rparr>"

lemma extended_simps [simp]:
  "r_pos (extended tl_bs r) = r_pos r" "r_limit (extended tl_bs r) = r_limit r"
  "(extended tl_bs r)\<lparr>r_pos := n\<rparr> = extended tl_bs (r\<lparr>r_pos := n\<rparr>)"
  by (simp_all add: extended_def)

named_theorems on_extension \<open>steps that succeed on a reader succeed on its extension\<close>

lemma read_exact_extended [on_extension]:
  "read_exact n r = Inr (bs, r') \<Longrightarrow> read_exact n (extended tl_bs r) = Inr (bs, extended tl_bs r')"
  by (auto simp: read_exact_def extended_def split: if_splits)

lemma seek_extended [on_extension]:
  "seek_relative n r = Inr r' \<Longrightarrow> seek_relative n (extended tl_bs r) = Inr (extended tl_bs r')"
  by (auto simp: seek_relative_def split: if_splits)

lemma u32_extended [on_extension]:
  "u32_at r = Inr (w, r') \<Longrightarrow> u32_at (extended tl_bs r) = Inr (w, extended tl_bs r')"
  by (auto simp: u32_at_def bytes_at_def attempt_Inr on_extension)

lemma u64_extended [on_extension]:
  "u64_at r = Inr (w, r') \<Longrightarrow> u64_at (extended tl_bs r) = Inr (w, extended tl_bs r')"
  by (auto simp: u64_at_def bytes_at_def attempt_Inr on_extension)

lemma skip_extended [on_extension]:
  "skip n r = Inr r' \<Longrightarrow> skip n (extended tl_bs r) = Inr (extended tl_bs r')"
  by (auto simp: skip_def on_extension split: if_splits)

lemma text_extended [on_extension]:
  "text_at keep r = Inr (t, r') \<Longrightarrow> text_at keep (extended tl_bs r) = Inr (t, extended tl_bs r')"
  unfolding text_at_def attempt_Inr by (fastforce simp: attempt_Inr on_extension split: if_splits)

lemma scalar_extended [on_extension]:
  "scalar_at k r = Inr (n, r') \<Longrightarrow> scalar_at k (extended tl_bs r) = Inr (n, extended tl_bs r')"
  unfolding scalar_at_def attempt_Inr by (fastforce simp: attempt_Inr on_extension)

lemma layers_extended [on_extension]:
  "layers_loop n k l es r = Inr (x, r') \<Longrightarrow> layers_loop n k l es (extended tl_bs r) = Inr (x, extended tl_bs r')"
  by (induction n arbitrary: l es r) (fastforce simp: attempt_Inr on_extension)+

lemma texts_extended [on_extension]:
  "texts_loop n r = Inr r' \<Longrightarrow> texts_loop n (extended tl_bs r) = Inr (extended tl_bs r')"
  by (induction n arbitrary: r) (fastforce simp: attempt_Inr on_extension)+

lemma array_extended [on_extension]:
  assumes "read_array key m r = Inr (m', r')"
  shows "read_array key m (extended tl_bs r) = Inr (m', extended tl_bs r')"
proof -
  obtain k r1 c r2 where h: "u32_at r = Inr (k, r1)" "u64_at r1 = Inr (c, r2)"
    using assms by (auto simp: read_array_def attempt_Inr)
  note read = assms [unfolded read_array_def h attempt.simps prod.case]
  show ?thesis
  proof (cases "keeps_layers key \<and> k \<noteq> string_kind \<and> k \<noteq> array_kind")
    case True
    then obtain l es r3 where r3: "layers_loop (unat c) k None [] r2 = Inr ((l, es), r3)"
      and c: "\<not> max_layer_array < c"
      using read by (auto simp: attempt_Inr split: if_splits)
    show ?thesis
      using read True c r3 layers_extended [OF r3, of tl_bs] u32_extended [OF h(1), of tl_bs]
        u64_extended [OF h(2), of tl_bs]
      by (simp add: read_array_def Let_def)
  next
    case False
    then show ?thesis
      using read u32_extended [OF h(1), of tl_bs] u64_extended [OF h(2), of tl_bs]
      unfolding read_array_def if_not_P [OF False]
      by (auto simp: attempt_Inr on_extension split: if_splits option.splits)
  qed
qed

lemma value_extended [on_extension]:
  "read_value key k m r = Inr (m', r') \<Longrightarrow> read_value key k m (extended tl_bs r) = Inr (m', extended tl_bs r')"
  by (auto simp: read_value_def attempt_Inr on_extension split: if_splits)

lemma pairs_extended [on_extension]:
  "pairs_loop n m r = Inr (m', r') \<Longrightarrow> pairs_loop n m (extended tl_bs r) = Inr (m', extended tl_bs r')"
  by (induction n arbitrary: m r) (fastforce simp: attempt_Inr on_extension split: option.splits)+

lemma fill_extended:
  assumes "fill len m r = Inr m'"
  shows "fill len m (extended tl_bs r) = Inr m'"
proof -
  obtain r1 v r2 t r3 n r4 r5 where
    "read_exact 4 r = Inr (''GGUF'', r1)" "u32_at r1 = Inr (v, r2)" "2 \<le> v \<and> v \<le> 3"
    "u64_at r2 = Inr (t, r3)" "u64_at r3 = Inr (n, r4)" "\<not> max_pairs < n"
    "pairs_loop (unat n) m r4 = Inr (m', r5)" "\<not> unat len < r_pos r5"
    using assms by (auto simp: fill_def attempt_Inr split: if_splits)
  then show ?thesis by (simp add: fill_def on_extension)
qed

text \<open>
  C28: A GGUF file of the encoder (version 2 or 3, up to 65536 pairs, any kind of value except an empty array of
  numbers or an array of arrays, keys and per layer arrays within the reader's limits) is read back to exactly what its pairs keep: the architecture, the
  integers outside the tokenizer's keys, and per layer arrays with their largest element; and a file cut short anywhere inside
  its metadata is refused, never read as a smaller model.
\<close>

theorem gguf_roundtrip:
  assumes "file_wf version kvs" and "length (gguf_file version tensors kvs @ weights) < 2 ^ 63"
  shows "metadata_read (\<lambda>_. Inr \<lparr>o_bytes = gguf_file version tensors kvs @ weights,
           o_length = Inr (word_of_nat (length (gguf_file version tensors kvs @ weights))),
           o_limit = 2 ^ 63 - 1\<rparr>) path = Inr (metadata_of kvs) \<and>
     (n < length (gguf_file version tensors kvs) \<longrightarrow>
       (\<exists>reason. metadata_read (\<lambda>_. Inr \<lparr>o_bytes = take n (gguf_file version tensors kvs),
           o_length = Inr (word_of_nat n), o_limit = 2 ^ 63 - 1\<rparr>) path = Inl reason))"
proof -
  let ?file = "gguf_file version tensors kvs"
  have limit: "length (?file @ weights) \<le> 2 ^ 63 - 1" "length (?file @ []) \<le> 2 ^ 63 - 1"
    using assms(2) by simp_all
  have "fill (word_of_nat (length (?file @ weights))) no_metadata (start (?file @ weights) (2 ^ 63 - 1))
      = Inr (metadata_of kvs)"
    unfolding fill_gguf_file [OF assms(1) limit(1)] unat_small [OF assms(2)] metadata_of_def by simp
  moreover have "\<exists>e. fill (word_of_nat n) no_metadata (start (take n ?file) (2 ^ 63 - 1)) = Inl e"
    if n: "n < length ?file"
  proof (rule ccontr)
    assume "\<nexists>e. fill (word_of_nat n) no_metadata (start (take n ?file) (2 ^ 63 - 1)) = Inl e"
    then obtain m where "fill (word_of_nat n) no_metadata (start (take n ?file) (2 ^ 63 - 1)) = Inr m"
      by (metis sumE)
    from fill_extended [OF this, of "drop n ?file"]
    have "fill (word_of_nat n) no_metadata (start (?file @ []) (2 ^ 63 - 1)) = Inr m"
      by (simp add: extended_def start_def)
    moreover have "unat (word_of_nat n :: u64) = n" using n assms(2) by (intro unat_small) simp
    ultimately show False unfolding fill_gguf_file [OF assms(1) limit(2)] using n by simp
  qed
  ultimately show ?thesis
    by (auto simp: metadata_read_def start_def split: fault.splits)
qed

definition sample_pairs :: "(string \<times> gguf_value) list" where
  "sample_pairs =
     [(''general.architecture'', GText ''llama''),
      (''llama.block_count'', GScalar 4 (le_bytes 4 32)),
      (''tokenizer.ggml.tokens'', GTexts [''a'', ''bc'']),
      (''llama.attention.head_count_kv'', GScalars 5 [le_bytes 4 4, le_bytes 4 8])]"

lemma sample_pairs_wf: "file_wf 3 sample_pairs" "length (gguf_file 3 7 sample_pairs @ ''rest'') < 2 ^ 63"
  by code_simp+

lemma sample_metadata: "metadata_of sample_pairs =
    \<lparr>m_architecture = Some ''llama'',
     m_numbers = [(''llama.attention.head_count_kv'', 8), (''llama.block_count'', 32)],
     m_layers = [(''llama.attention.head_count_kv'', [4, 8])]\<rparr>"
  by code_simp

theorem gguf_roundtrip_witness:
  "\<exists>bytes len. metadata_read (\<lambda>_. Inr \<lparr>o_bytes = bytes, o_length = Inr len, o_limit = 2 ^ 63 - 1\<rparr>) ''m.gguf'' =
     Inr \<lparr>m_architecture = Some ''llama'',
       m_numbers = [(''llama.attention.head_count_kv'', 8), (''llama.block_count'', 32)],
       m_layers = [(''llama.attention.head_count_kv'', [4, 8])]\<rparr>"
  using gguf_roundtrip [OF sample_pairs_wf(1) sample_pairs_wf(2), of "''m.gguf''" 0, unfolded sample_metadata]
  by blast

section \<open>What any file can make the router keep\<close>

definition metadata_ok :: "nat \<Rightarrow> metadata \<Rightarrow> bool" where
  "metadata_ok n m \<longleftrightarrow>
     bt_wf (m_numbers m) \<and> bt_wf (m_layers m) \<and> length (m_numbers m) \<le> n \<and> length (m_layers m) \<le> n \<and>
     (\<forall>(key, xs) \<in> set (m_layers m).
        xs \<noteq> [] \<and> length xs \<le> unat max_layer_array \<and> key \<in> fst ` set (m_numbers m))"

lemma length_bt_insert: "length (bt_insert k v m) \<le> Suc (length m)"
  by (induction k v m rule: bt_insert.induct) auto

lemma metadata_ok_Suc: "metadata_ok n m \<Longrightarrow> metadata_ok (Suc n) m"
  by (auto simp: metadata_ok_def)

lemma metadata_ok_architecture: "metadata_ok n (m\<lparr>m_architecture := a\<rparr>) = metadata_ok n m"
  by (simp add: metadata_ok_def)

lemma set_bt_insert: "set (bt_insert k v m) \<subseteq> insert (k, v) (set m)"
  by (induction k v m rule: bt_insert.induct) auto

lemma metadata_ok_number:
  "metadata_ok n m \<Longrightarrow> metadata_ok (Suc n) (m\<lparr>m_numbers := bt_insert key x (m_numbers m)\<rparr>)"
  using length_bt_insert [of key x "m_numbers m"] by (fastforce simp: metadata_ok_def)

lemma metadata_ok_layers:
  assumes ok: "metadata_ok n m" and xs: "xs \<noteq> []" "length xs \<le> unat max_layer_array"
  shows "metadata_ok (Suc n) (m\<lparr>m_numbers := bt_insert key x (m_numbers m), m_layers := bt_insert key xs (m_layers m)\<rparr>)"
proof -
  have "ys \<noteq> [] \<and> length ys \<le> unat max_layer_array \<and> k \<in> insert key (fst ` set (m_numbers m))"
    if "(k, ys) \<in> set (bt_insert key xs (m_layers m))" for k ys
    using set_bt_insert [of key xs "m_layers m"] that ok xs unfolding metadata_ok_def by blast
  then show ?thesis
    using ok length_bt_insert [of key x "m_numbers m"] length_bt_insert [of key xs "m_layers m"]
    by (auto simp: metadata_ok_def)
qed

lemma option_max_None: "option_max a b = None \<longleftrightarrow> a = None \<and> b = None"
  by (cases a; cases b) auto

lemma layers_loop_result:
  assumes "layers_loop n k l es r = Inr ((l', es'), r')" and "l = None \<longleftrightarrow> es = []"
  shows "length es' \<le> length es + n \<and> (l' = None \<longleftrightarrow> es' = [])"
  using assms
proof (induction n arbitrary: l es r)
  case 0
  then show ?case by simp
next
  case (Suc n)
  then obtain e r1 where step: "scalar_at k r = Inr (e, r1)"
    "layers_loop n k (option_max l e) (case e of None \<Rightarrow> es | Some e \<Rightarrow> es @ [e]) r1 = Inr ((l', es'), r')"
    by (auto simp: attempt_Inr)
  have "option_max l e = None \<longleftrightarrow> (case e of None \<Rightarrow> es | Some e \<Rightarrow> es @ [e]) = []"
    using Suc.prems(2) by (auto simp: option_max_None split: option.split)
  from Suc.IH [OF step(2) this] show ?case by (cases e) auto
qed

lemma array_ok:
  assumes "read_array key m r = Inr (m', r')" and ok: "metadata_ok n m"
  shows "metadata_ok (Suc n) m'"
proof -
  obtain k r1 c r2 where h: "u32_at r = Inr (k, r1)" "u64_at r1 = Inr (c, r2)"
    using assms(1) by (auto simp: read_array_def attempt_Inr)
  note read = assms(1) [unfolded read_array_def h attempt.simps prod.case]
  show ?thesis
  proof (cases "keeps_layers key \<and> k \<noteq> string_kind \<and> k \<noteq> array_kind")
    case True
    then obtain l es r3 where r3: "layers_loop (unat c) k None [] r2 = Inr ((l, es), r3)"
      and c: "\<not> max_layer_array < c"
      using read by (auto simp: attempt_Inr split: if_splits)
    have es: "length es \<le> unat c" "l = None \<longleftrightarrow> es = []" using layers_loop_result [OF r3] by simp_all
    show ?thesis
    proof (cases l)
      case None
      then show ?thesis using read True c r3 es ok by (simp add: Let_def metadata_ok_Suc)
    next
      case (Some x)
      have "length es \<le> unat max_layer_array" using es(1) c by (simp add: word_less_nat_alt)
      with Some show ?thesis
        using read True c r3 es metadata_ok_layers [OF ok, of es] by (auto simp: Let_def)
    qed
  next
    case False
    then show ?thesis
      using read ok unfolding if_not_P [OF False]
      by (auto simp: attempt_Inr metadata_ok_Suc split: if_splits option.splits)
  qed
qed

lemma value_ok:
  "read_value key k m r = Inr (m', r') \<Longrightarrow> metadata_ok n m \<Longrightarrow> metadata_ok (Suc n) m'"
  by (auto simp: read_value_def attempt_Inr metadata_ok_Suc metadata_ok_architecture
      metadata_ok_number array_ok split: if_splits option.splits)

lemma pairs_ok:
  "pairs_loop n m r = Inr (m', r') \<Longrightarrow> metadata_ok j m \<Longrightarrow> metadata_ok (j + n) m'"
proof (induction n arbitrary: m r j)
  case 0
  then show ?case by simp
next
  case (Suc n)
  then obtain key k r1 r2 m1 r3 where "read_value key k m r2 = Inr (m1, r3)" "pairs_loop n m1 r3 = Inr (m', r')"
    by (auto simp: attempt_Inr split: option.splits)
  with Suc.IH [of m1 r3 "Suc j"] value_ok [of key k m r2 m1 r3 j] Suc.prems(2) show ?case by simp
qed

text \<open>
  C37: Whatever bytes a file holds, reading its metadata keeps at most 65536 integers and
  65536 per layer arrays of at most 2^20 elements each; every kept array is non-empty and has
  an integer under the same key, so a key the file does not carry stays absent.
\<close>

theorem metadata_read_bounded:
  assumes "metadata_read open_file path = Inr m"
  shows "metadata_ok 65536 m \<and>
    (per_layer m suffix = Some xs \<longrightarrow> xs \<noteq> [] \<and> of_model m suffix \<noteq> None)"
proof -
  obtain len r where "fill len no_metadata r = Inr m"
    using assms by (auto simp: metadata_read_def split: sum.splits fault.splits)
  then obtain n r1 r2 where pairs: "pairs_loop (unat n) no_metadata r1 = Inr (m, r2)" "\<not> max_pairs < (n :: u64)"
    by (auto simp: fill_def attempt_Inr split: if_splits)
  have "metadata_ok 0 no_metadata" by (simp add: metadata_ok_def no_metadata_def)
  from pairs_ok [OF pairs(1) this] have "metadata_ok (unat n) m" by simp
  moreover have "unat n \<le> 65536" using pairs(2) by (simp add: max_pairs_def word_less_nat_alt)
  ultimately have ok: "metadata_ok 65536 m" by (auto simp: metadata_ok_def)
  have "xs \<noteq> [] \<and> of_model m suffix \<noteq> None" if per: "per_layer m suffix = Some xs"
  proof -
    obtain arch where arch: "m_architecture m = Some arch" and
      "map_of (m_layers m) (arch @ ''.'' @ suffix) = Some xs"
      using per by (auto simp: per_layer_def split: option.splits)
    then have "(arch @ ''.'' @ suffix, xs) \<in> set (m_layers m)" by (auto dest: map_of_SomeD)
    with ok have "xs \<noteq> []" "arch @ ''.'' @ suffix \<in> fst ` set (m_numbers m)"
      unfolding metadata_ok_def by blast+
    then show ?thesis using arch by (simp add: of_model_def number_def map_of_eq_None_iff)
  qed
  with ok show ?thesis by simp
qed

theorem metadata_read_bounded_witness:
  "\<exists>m. metadata_read (\<lambda>_. Inr \<lparr>o_bytes = gguf_file 3 7 sample_pairs, o_length = Inr 1000, o_limit = 10000\<rparr>) ''m.gguf'' = Inr m \<and>
     metadata_ok 65536 m \<and> of_model m ''attention.head_count_kv'' \<noteq> None"
proof -
  have limit: "length (gguf_file 3 7 sample_pairs @ []) \<le> 10000"
    and len: "\<not> unat (1000 :: u64) < length (gguf_file 3 7 sample_pairs)" by code_simp+
  obtain m where m: "m = metadata_of sample_pairs" by simp
  have read: "metadata_read (\<lambda>_. Inr \<lparr>o_bytes = gguf_file 3 7 sample_pairs, o_length = Inr 1000, o_limit = 10000\<rparr>) ''m.gguf'' = Inr m"
    using fill_gguf_file [OF sample_pairs_wf(1) limit, of 1000 no_metadata] len
    by (simp add: metadata_read_def start_def m metadata_of_def)
  have "per_layer m ''attention.head_count_kv'' = Some [4, 8]"
    by (simp add: m sample_metadata per_layer_def)
  with metadata_read_bounded [OF read, of "''attention.head_count_kv''" "[4, 8]"] read show ?thesis by blast
qed

end
