(* ===== verification/Estimate.thy ===== *)
theory Estimate
  imports Gguf Catalog
begin

text \<open>
  What loading an entry is expected to cost (\<open>src/src/catalog/estimate.rs\<close>, with
  \<open>estimate/cache.rs\<close> and \<open>estimate/served.rs\<close>). The file system is the parameter
  \<^typ>\<open>string \<Rightarrow> (bool \<times> u64) option\<close> (whether a path is a file, and how long) beside the
  one that opens files; the sums are in the source's widths, 64 bits for file sizes and
  128 for the cost.
\<close>

section \<open>The file system\<close>

record disk =
  disk_open :: "string \<Rightarrow> string + opened"
  disk_stat :: "string \<Rightarrow> (bool \<times> u64) option" \<comment> \<open>a regular file, and its length\<close>
  disk_is_dir :: "string \<Rightarrow> bool"
  disk_list :: "string \<Rightarrow> string list option" \<comment> \<open>the names in a directory, in any order\<close>

definition size_of :: "disk \<Rightarrow> string \<Rightarrow> u64 option" where
  "size_of disk path =
     (case disk_stat disk path of Some (True, len) \<Rightarrow> Some len | _ \<Rightarrow> None)"

section \<open>The components of a path\<close>

text \<open>
  \<open>Path::components\<close> on Unix: empty parts and inner dots vanish; the root, and a dot a
  relative path begins with, are components of their own.
\<close>

definition path_components :: "string \<Rightarrow> string list" where
  "path_components p =
     (let parts = split_on (\<lambda>c. c = CHR ''/'') p; named = filter (\<lambda>x. x \<noteq> [] \<and> x \<noteq> ''.'') parts in
      if starts_with p ''/'' then ''/'' # named
      else if hd parts = ''.'' then ''.'' # named
      else named)"

definition last_name :: "string list \<Rightarrow> string option" where
  "last_name cs = (if cs = [] \<or> last cs \<in> {''/'', ''.'', ''..''} then None else Some (last cs))"

definition file_name :: "string \<Rightarrow> string option" where
  "file_name p = last_name (path_components p)"

definition parent_name :: "string \<Rightarrow> string option" where
  "parent_name p = (if path_components p = [] then None else last_name (butlast (path_components p)))"

definition with_file_name :: "string \<Rightarrow> string \<Rightarrow> string" where
  "with_file_name p name =
     (case rsplit_once ''/'' p of None \<Rightarrow> name | Some (dir, _) \<Rightarrow> dir @ ''/'' @ name)"

text \<open>\<open>OsStr::to_str\<close>: a name that is not UTF-8 is no text.\<close>

definition to_str :: "string \<Rightarrow> string option" where
  "to_str name = (if utf8_valid name then Some name else None)"

section \<open>Flags\<close>

definition find_flag :: "flags \<Rightarrow> string list \<Rightarrow> string option" where
  "find_flag flags names =
     (case List.map_filter (map_of flags) names of [] \<Rightarrow> None | v # _ \<Rightarrow> Some v)"

section \<open>How an entry is served (served.rs)\<close>

definition keeps_no_cache :: "flags \<Rightarrow> bool" where
  "keeps_no_cache flags =
     (case find_flag flags [''embeddings'', ''embedding'', ''reranking'', ''rerank''] of
        None \<Rightarrow> False
      | Some v \<Rightarrow> to_ascii_lowercase (trim v) \<notin> {''false'', ''0''})"

definition runs_on_processor :: "flags \<Rightarrow> bool" where
  "runs_on_processor flags =
     (case find_flag flags [''n-gpu-layers'', ''gpu-layers'', ''ngl''] of
        None \<Rightarrow> False | Some v \<Rightarrow> trim v = ''0'')"

definition predicts_tokens :: "flags \<Rightarrow> bool" where
  "predicts_tokens flags =
     (case find_flag flags [''spec-type'', ''speculative-type''] of
        None \<Rightarrow> False | Some v \<Rightarrow> contains (to_ascii_lowercase (trim v)) ''mtp'')"

section \<open>The cache (cache.rs)\<close>

definition f16 :: u64 where "f16 = 32"
definition f32 :: u64 where "f32 = 64"
definition q8_0 :: u64 where "q8_0 = 17"
definition q4_0 :: u64 where "q4_0 = 9"

definition sixteenths :: "flags \<Rightarrow> string list \<Rightarrow> u64" where
  "sixteenths flags names =
     (let spelling = (case find_flag flags names of None \<Rightarrow> ''f16'' | Some v \<Rightarrow> v) in
      if spelling = ''f32'' then f32
      else if spelling = ''q8_0'' then q8_0
      else if spelling = ''q4_0'' then q4_0
      else f16)"

definition caching_layers :: "metadata \<Rightarrow> u64 option" where
  "caching_layers m =
     (case of_model m ''block_count'' of
        None \<Rightarrow> None
      | Some layers \<Rightarrow>
          (case of_model m ''full_attention_interval'' of
             Some interval \<Rightarrow> Some (if 1 < interval then layers div interval else layers)
           | None \<Rightarrow> Some layers))"

definition assumed_interval :: "string \<Rightarrow> nat option" where
  "assumed_interval architecture = map_of [(''gemma3'', 6)] architecture"

definition assumed_pattern :: "metadata \<Rightarrow> u64 list option" where
  "assumed_pattern m =
     (case m_architecture m of
        None \<Rightarrow> None
      | Some architecture \<Rightarrow>
          (case assumed_interval architecture of
             None \<Rightarrow> None
           | Some interval \<Rightarrow>
               (case of_model m ''block_count'' of
                  None \<Rightarrow> None
                | Some layers \<Rightarrow>
                    Some (map (\<lambda>layer. if layer mod interval \<noteq> interval - 1 then 1 else 0)
                           [0..<unat layers]))))"

definition per_element :: "u64 \<Rightarrow> u64 \<Rightarrow> u64 \<Rightarrow> u64 \<Rightarrow> u128" where
  "per_element key keys value values = ucast key * ucast keys + ucast value * ucast values"

definition layer_cost :: "u64 \<Rightarrow> u64 \<Rightarrow> u64 \<Rightarrow> u64 \<Rightarrow> u64 \<Rightarrow> u64 \<Rightarrow> u128" where
  "layer_cost span heads key keys value values =
     ucast span * ucast heads * per_element key keys value values"

fun pattern_total ::
    "u64 \<Rightarrow> u64 \<Rightarrow> u64 \<times> u64 \<Rightarrow> u64 \<times> u64 \<Rightarrow> u64 \<times> u64 \<Rightarrow> (nat \<Rightarrow> u64) \<Rightarrow> nat \<Rightarrow> u64 list \<Rightarrow> u128 \<Rightarrow> u128" where
  "pattern_total context windowed full swa (keys, values) heads layer [] acc = acc"
| "pattern_total context windowed full swa (keys, values) heads layer (slides # pattern) acc =
     (let (span, key, value) =
            (if slides = 0 then (context, fst full, snd full) else (windowed, fst swa, snd swa))
      in pattern_total context windowed full swa (keys, values) heads (Suc layer) pattern
           (acc + layer_cost span (heads layer) key keys value values))"

definition layer_heads :: "u64 list option \<Rightarrow> u64 \<Rightarrow> nat \<Rightarrow> u64" where
  "layer_heads by_layer kv_heads layer =
     (case by_layer of
        None \<Rightarrow> kv_heads
      | Some counts \<Rightarrow> if layer < length counts then counts ! layer else kv_heads)"

definition key_length_of :: "metadata \<Rightarrow> u64 option" where
  "key_length_of m =
     (case of_model m ''attention.key_length'' of
        Some n \<Rightarrow> Some n
      | None \<Rightarrow>
          (case (of_model m ''embedding_length'', of_model m ''attention.head_count'') of
             (Some embedding, Some heads) \<Rightarrow> checked_div embedding heads
           | _ \<Rightarrow> None))"

definition kv_heads_of :: "metadata \<Rightarrow> u64 option" where
  "kv_heads_of m = or_else (of_model m ''attention.head_count_kv'') (of_model m ''attention.head_count'')"

definition cache_bytes :: "metadata \<Rightarrow> u32 \<Rightarrow> u64 \<Rightarrow> u64 \<Rightarrow> u128 option" where
  "cache_bytes m context keys values =
     (case (caching_layers m, kv_heads_of m, key_length_of m) of
        (Some layers, Some kv_heads, Some key_length) \<Rightarrow>
          (let value_length = unwrap_or (of_model m ''attention.value_length'') key_length in
           case (or_else (per_layer m ''attention.sliding_window_pattern'') (assumed_pattern m),
                 of_model m ''attention.sliding_window'') of
             (Some pattern, Some window) \<Rightarrow>
               (let swa_keys = unwrap_or (of_model m ''attention.key_length_swa'') key_length;
                    swa_values = unwrap_or (of_model m ''attention.value_length_swa'') swa_keys;
                    windowed = min (ucast context) window
                in Some (pattern_total (ucast context) windowed (key_length, value_length)
                           (swa_keys, swa_values) (keys, values)
                           (layer_heads (per_layer m ''attention.head_count_kv'') kv_heads)
                           0 pattern 0 div 16))
           | _ \<Rightarrow>
               (let per_token = ucast kv_heads * per_element key_length keys value_length values
                in Some (ucast layers * ucast context * per_token div 16)))
      | _ \<Rightarrow> None)"

section \<open>Shards\<close>

record shard =
  sh_stem :: string
  sh_index :: u64
  sh_total :: string
  sh_extension :: string

definition shard_of :: "string \<Rightarrow> shard option" where
  "shard_of name =
     (case rsplit_once ''.'' name of
        None \<Rightarrow> None
      | Some (rest, extension) \<Rightarrow>
          (case rsplit_once ''-of-'' rest of
             None \<Rightarrow> None
           | Some (head, count) \<Rightarrow>
               (case rsplit_once ''-'' head of
                  None \<Rightarrow> None
                | Some (stem, index) \<Rightarrow>
                    if count = [] \<or> \<not> list_all is_ascii_digit count then None
                    else if length index \<noteq> length count \<or> \<not> list_all is_ascii_digit index then None
                    else (case parse_u64 index of
                            None \<Rightarrow> None
                          | Some i \<Rightarrow>
                              Some \<lparr>sh_stem = stem, sh_index = i, sh_total = count,
                                    sh_extension = extension\<rparr>))))"

definition shard_name :: "shard \<Rightarrow> u64 \<Rightarrow> string" where
  "shard_name s index =
     sh_stem s @ ''-'' @ zero_padded (length (sh_total s)) (show_word index) @ ''-of-'' @ sh_total s
       @ ''.'' @ sh_extension s"

definition sibling :: "shard \<Rightarrow> string \<Rightarrow> u64 \<Rightarrow> string" where
  "sibling s model index = with_file_name model (shard_name s index)"

fun shard_sizes :: "disk \<Rightarrow> shard \<Rightarrow> string \<Rightarrow> u64 list \<Rightarrow> u64 \<Rightarrow> u64" where
  "shard_sizes disk s model [] acc = acc"
| "shard_sizes disk s model (index # indices) acc =
     shard_sizes disk s model indices
       (if index \<noteq> sh_index s then acc + unwrap_or (size_of disk (sibling s model index)) 0
        else acc)"

definition weights_of :: "disk \<Rightarrow> string \<Rightarrow> metadata option \<Rightarrow> string + u64" where
  "weights_of disk model metadata =
     (case size_of disk model of
        None \<Rightarrow> Inl (''no model file at '' @ quoted model)
      | Some acc \<Rightarrow>
          (let shards = unwrap_or (Option.bind metadata split_count) 1 in
           case Option.bind (Option.bind (file_name model) to_str) shard_of of
             None \<Rightarrow> Inr acc
           | Some s \<Rightarrow>
               Inr (shard_sizes disk s model (map word_of_nat [1..<unat shards + 1]) acc)))"

section \<open>The estimate (estimate.rs)\<close>

definition mib_bytes :: u64 where "mib_bytes = 1024 * 1024"
definition overhead_bytes :: u64 where "overhead_bytes = 1024 * mib_bytes"

datatype basis = Basis_Metadata | Basis_Size

record derived =
  dv_mib :: u32
  dv_basis :: basis

text \<open>\<open>Result::ok\<close>.\<close>

fun ok :: "'e + 'a \<Rightarrow> 'a option" where
  "ok (Inl _) = None"
| "ok (Inr x) = Some x"

text \<open>What the draft's own cache costs: nothing for a prediction head or an unreadable file.\<close>

definition draft_cache :: "disk \<Rightarrow> entry \<Rightarrow> string \<Rightarrow> u128" where
  "draft_cache disk e draft =
     (if predicts_tokens (e_flags e) then 0
      else (case metadata_read (disk_open disk) draft of
              Inl _ \<Rightarrow> 0
            | Inr m \<Rightarrow>
                unwrap_or
                  (cache_bytes m (e_context_size e)
                     (sixteenths (e_flags e) [''ctkd'', ''cache-type-k-draft''])
                     (sixteenths (e_flags e) [''ctvd'', ''cache-type-v-draft''])) 0))"

definition derive :: "disk \<Rightarrow> entry \<Rightarrow> string \<Rightarrow> string + derived" where
  "derive disk e root =
     (let model = path_resolve (e_path e) root;
          metadata = ok (metadata_read (disk_open disk) model) in
      attempt (weights_of disk model metadata) (\<lambda>weights.
        let (weights, cache) =
              (case e_draft_path e of
                 None \<Rightarrow> (weights, 0)
               | Some d \<Rightarrow>
                   (weights + unwrap_or (size_of disk (path_resolve d root)) 0,
                    draft_cache disk e (path_resolve d root)));
            weights =
              (case e_projector_path e of
                 None \<Rightarrow> weights
               | Some p \<Rightarrow> weights + unwrap_or (size_of disk (path_resolve p root)) 0);
            keys = sixteenths (e_flags e) [''ctk'', ''cache-type-k''];
            values = sixteenths (e_flags e) [''ctv'', ''cache-type-v''];
            on_processor = runs_on_processor (e_flags e);
            cache = (if on_processor then 0 else cache);
            weights = (if on_processor then 0 else ucast weights :: u128);
            (bytes, basis) =
              (case Option.bind metadata (\<lambda>m. cache_bytes m (e_context_size e) keys values) of
                 Some model_cache \<Rightarrow>
                   (weights + (if keeps_no_cache (e_flags e) \<or> on_processor then 0 else model_cache)
                      + cache + weights * 5 div 100 + ucast overhead_bytes,
                    Basis_Metadata)
               | None \<Rightarrow> (weights + weights div 4 + ucast overhead_bytes, Basis_Size))
        in Inr \<lparr>dv_mib = unwrap_or (try_u32 (div_ceil bytes (ucast mib_bytes))) (-1),
                dv_basis = basis\<rparr>))"

end
