(* ===== verification/Estimate_Laws.thy ===== *)
theory Estimate_Laws
  imports Estimate Gguf_Laws
begin

text \<open>
  What a derived estimate promises: a split model's shards are named and counted once each,
  the cost is the one exact arithmetic gives whenever a file's figures are of any credible
  size, it never falls below the files, windowing never raises it, and an entry pinned to
  the processor is charged the overhead alone.
\<close>

section \<open>Shard names\<close>

lemma digits_value_snoc: "digits_value (s @ [c]) = 10 * digits_value s + (code c - 48)"
  by (simp add: digits_value_def)

lemma digits_value_zeros [simp]: "digits_value (replicate k (CHR ''0'') @ s) = digits_value s"
proof -
  have "code (CHR ''0'') = 48" by code_simp
  then have "foldl (\<lambda>n c. 10 * n + (code c - 48)) 0 (replicate k (CHR ''0'')) = 0"
    by (induction k) simp_all
  then show ?thesis by (simp add: digits_value_def)
qed

lemma digit_code: "is_ascii_digit c \<Longrightarrow> digit (code c - 48) = c"
  by (simp add: is_ascii_digit_def digit_def)

lemma digit_of_zero: "digit 0 = CHR ''0''"
  by code_simp

lemma zero_padded_digits:
  assumes "list_all is_ascii_digit s" and "s \<noteq> []"
  shows "zero_padded (length s) (show_nat (digits_value s)) = s"
  using assms
proof (induction s rule: rev_induct)
  case Nil
  then show ?case by simp
next
  case (snoc c s)
  let ?d = "code c - 48" and ?v = "digits_value s"
  have d: "?d < 10" "digit ?d = c"
    using snoc.prems by (auto simp: is_ascii_digit_def digit_code)
  show ?case
  proof (cases "?v = 0")
    case True
    have zeros: "s = replicate (length s) (CHR ''0'')"
    proof (cases "s = []")
      case False
      with snoc have "zero_padded (length s) (show_nat 0) = s" using True by simp
      then have "replicate (length s - 1) (CHR ''0'') @ [CHR ''0''] = s"
        by (simp add: zero_padded_def show_nat.simps digit_of_zero)
      moreover have "length s - 1 + 1 = length s" using False by (cases s) auto
      ultimately show ?thesis by (metis replicate_add replicate.simps replicate_Suc One_nat_def)
    qed simp
    show ?thesis
      using True d zeros by (simp add: digits_value_snoc show_nat.simps zero_padded_def)
  next
    case False
    then have "s \<noteq> []" by (auto simp: digits_value_def)
    with snoc have "zero_padded (length s) (show_nat ?v) = s" by simp
    moreover have "show_nat (10 * ?v + ?d) = show_nat ?v @ [c]"
      using False d by (subst show_nat.simps) simp
    ultimately show ?thesis by (simp add: digits_value_snoc zero_padded_def)
  qed
qed

lemma length_show_nat: "n < 10 ^ w \<Longrightarrow> 0 < w \<Longrightarrow> length (show_nat n) \<le> w"
proof (induction w arbitrary: n)
  case 0
  then show ?case by simp
next
  case (Suc w)
  show ?case
  proof (cases "n < 10")
    case True
    then show ?thesis by (simp add: show_nat.simps)
  next
    case False
    then have "w \<noteq> 0" using Suc.prems by (cases w) auto
    moreover have "n div 10 < 10 ^ w" using Suc.prems by (simp add: less_mult_imp_div_less mult.commute)
    ultimately have "length (show_nat (n div 10)) \<le> w" by (intro Suc.IH) auto
    then show ?thesis using False by (subst show_nat.simps) simp
  qed
qed

lemma digits_no: "list_all is_ascii_digit s \<Longrightarrow> \<not> is_ascii_digit c \<Longrightarrow> c \<notin> set s"
  by (auto simp: list_all_iff)

lemma parse_zero_padded: "parse_u64 (zero_padded w (show_word (i :: u64))) = Some i"
proof -
  have "is_ascii_digit (CHR ''0'')" by code_simp
  then have digits: "list_all is_ascii_digit (zero_padded w (show_word i))"
    using show_nat_digits [of "unat i"] by (auto simp: zero_padded_def show_word_def list_all_iff)
  have "\<not> is_ascii_digit (CHR ''+'')" by code_simp
  moreover have ne: "zero_padded w (show_word i) \<noteq> []" by (simp add: zero_padded_def show_word_def)
  ultimately have plus: "hd (zero_padded w (show_word i)) \<noteq> CHR ''+''"
    using digits by (cases "zero_padded w (show_word i)") auto
  have "digits_value (zero_padded w (show_word i)) = unat i"
    by (simp add: zero_padded_def show_word_def)
  moreover have "unat i < 2 ^ 64" by simp
  ultimately show ?thesis
    using digits plus ne
    by (cases "zero_padded w (show_word i)") (simp_all add: parse_u64_def parse_uint_def)
qed

lemma rsplit_once_None: "p \<noteq> [] \<Longrightarrow> rsplit_once p s = None \<longleftrightarrow> \<not> contains s p"
  by (induction s) (auto split: option.splits)

lemma rsplit_once_after: "rsplit_once p t = Some (a, b) \<Longrightarrow> rsplit_once p (u @ t) = Some (u @ a, b)"
  by (induction u) auto

lemma rsplit_once_of:
  assumes "CHR ''-'' \<notin> set b"
  shows "rsplit_once ''-of-'' (a @ ''-of-'' @ b) = Some (a, b)"
proof -
  have "count_list b (CHR ''-'') = 0" using assms by (simp add: count_list_0_iff)
  then have "\<not> contains (''of-'' @ b) ''-of-''"
    by (auto simp: contains_iff dest!: arg_cong [where f = "\<lambda>s. count_list s (CHR ''-'')"])
  then have "rsplit_once ''-of-'' (''of-'' @ b) = None" by (simp add: rsplit_once_None del: append.simps)
  then have "rsplit_once ''-of-'' (''-of-'' @ b) = Some ([], b)" by simp
  from rsplit_once_after [OF this, of a] show ?thesis by simp
qed

text \<open>A shard as a file name can spell it.\<close>

definition shard_wf :: "shard \<Rightarrow> bool" where
  "shard_wf s \<longleftrightarrow> sh_total s \<noteq> [] \<and> list_all is_ascii_digit (sh_total s) \<and> CHR ''.'' \<notin> set (sh_extension s)
     \<and> unat (sh_index s) < 10 ^ length (sh_total s)"

lemma shard_of_name:
  assumes wf: "shard_wf (s\<lparr>sh_index := i\<rparr>)"
  shows "shard_of (shard_name s i) = Some (s\<lparr>sh_index := i\<rparr>)"
proof -
  let ?index = "zero_padded (length (sh_total s)) (show_word i)"
  have tot: "sh_total s \<noteq> []" "list_all is_ascii_digit (sh_total s)"
    and ext: "CHR ''.'' \<notin> set (sh_extension s)" and i: "unat i < 10 ^ length (sh_total s)"
    using wf by (simp_all add: shard_wf_def)
  have nodash: "\<not> is_ascii_digit (CHR ''-'')" "is_ascii_digit (CHR ''0'')" by code_simp+
  have index: "list_all is_ascii_digit ?index" "length ?index = length (sh_total s)"
    using nodash show_nat_digits [of "unat i"] length_show_nat [OF i] tot(1)
    by (auto simp: zero_padded_def show_word_def list_all_iff)
  have "shard_name s i = ((sh_stem s @ ''-'' @ ?index) @ ''-of-'' @ sh_total s) @ CHR ''.'' # sh_extension s"
    by (simp add: shard_name_def)
  then have dot: "rsplit_once ''.'' (shard_name s i) =
      Some ((sh_stem s @ ''-'' @ ?index) @ ''-of-'' @ sh_total s, sh_extension s)"
    by (simp only: rsplit_once_char [OF ext])
  have off: "rsplit_once ''-of-'' ((sh_stem s @ ''-'' @ ?index) @ ''-of-'' @ sh_total s)
      = Some (sh_stem s @ ''-'' @ ?index, sh_total s)"
    using digits_no [OF tot(2) nodash(1)] by (rule rsplit_once_of)
  have dash: "rsplit_once ''-'' (sh_stem s @ ''-'' @ ?index) = Some (sh_stem s, ?index)"
    using rsplit_once_char [OF digits_no [OF index(1) nodash(1)], of "sh_stem s"] by simp
  show ?thesis
    unfolding shard_of_def dot option.case prod.case off dash
    using tot index parse_zero_padded by (simp del: append.simps)
qed

text \<open>
  Shard names round trip: a name read as a shard is the name the shard writes for its own
  index, and the name it writes for any other index of the same width reads back as that
  index of the same model, so the siblings an estimate sums are exactly the model's shards.
\<close>

theorem shard_roundtrip:
  assumes "shard_of name = Some s"
  shows "shard_name s (sh_index s) = name \<and>
    (\<forall>i. unat i < 10 ^ length (sh_total s) \<longrightarrow> shard_of (shard_name s i) = Some (s\<lparr>sh_index := i\<rparr>))"
proof -
  obtain rest extension head count stem index where
    parts: "rsplit_once ''.'' name = Some (rest, extension)" "rsplit_once ''-of-'' rest = Some (head, count)"
      "rsplit_once ''-'' head = Some (stem, index)"
    and digits: "count \<noteq> []" "list_all is_ascii_digit count" "length index = length count"
      "list_all is_ascii_digit index" "parse_u64 index = Some (sh_index s)"
    and s: "s = \<lparr>sh_stem = stem, sh_index = sh_index s, sh_total = count, sh_extension = extension\<rparr>"
    using assms by (auto simp: shard_of_def split: option.splits if_splits)
  have name: "name = stem @ ''-'' @ index @ ''-of-'' @ count @ ''.'' @ extension"
    using parts [THEN rsplit_once_Some] by simp
  have ne: "index \<noteq> []" using digits by (cases index) auto
  have "\<not> is_ascii_digit (CHR ''+'')" by code_simp
  then have "(case index of [] \<Rightarrow> [] | c # cs \<Rightarrow> if c = CHR ''+'' then cs else index) = index"
    using digits(4) by (cases index) auto
  then have "digits_value index < 2 ^ 64 \<and> sh_index s = word_of_nat (digits_value index)"
    using digits(5) by (simp add: parse_u64_def parse_uint_def Let_def split: if_splits)
  then have "show_word (sh_index s) = show_nat (digits_value index)"
    using unat_of_nat_u64 by (simp only: show_word_def)
  then have "zero_padded (length count) (show_word (sh_index s)) = index"
    using zero_padded_digits [OF digits(4) ne] digits(3) by simp
  moreover have "sh_stem s = stem" "sh_total s = count" "sh_extension s = extension" by (subst s, simp)+
  ultimately have own: "shard_name s (sh_index s) = name"
    using name by (simp add: shard_name_def)
  have "CHR ''.'' \<notin> set extension" using parts(1) by (rule rsplit_once_char_notin)
  then have "shard_wf (s\<lparr>sh_index := i\<rparr>)" if "unat i < 10 ^ length (sh_total s)" for i
    using that digits \<open>sh_total s = count\<close> \<open>sh_extension s = extension\<close> by (simp add: shard_wf_def)
  with own shard_of_name show ?thesis by blast
qed

theorem shard_roundtrip_witness:
  "\<exists>s. shard_of ''m-q4-00002-of-00003.gguf'' = Some s \<and> shard_name s 3 = ''m-q4-00003-of-00003.gguf'' \<and>
     shard_of (shard_name s 3) = Some (s\<lparr>sh_index := 3\<rparr>)"
proof -
  let ?s = "\<lparr>sh_stem = ''m-q4'', sh_index = 2, sh_total = ''00003'', sh_extension = ''gguf''\<rparr>"
  have s: "shard_of ''m-q4-00002-of-00003.gguf'' = Some ?s" by code_simp
  moreover have "shard_name ?s 3 = ''m-q4-00003-of-00003.gguf''" by code_simp
  moreover have "unat (3 :: u64) < 10 ^ length (sh_total ?s)" by code_simp
  ultimately show ?thesis using shard_roundtrip [OF s] by blast
qed

section \<open>The files an entry is made of\<close>

definition file_bytes :: "disk \<Rightarrow> string \<Rightarrow> nat" where
  "file_bytes disk p = unat (unwrap_or (size_of disk p) 0)"

text \<open>The model's own file, then every other shard of it, each named once.\<close>

definition model_files :: "string \<Rightarrow> metadata option \<Rightarrow> string list" where
  "model_files model metadata =
     model #
     (case Option.bind (Option.bind (file_name model) to_str) shard_of of
        None \<Rightarrow> []
      | Some s \<Rightarrow>
          map (sibling s model)
            (filter (\<lambda>i. i \<noteq> sh_index s)
              (map word_of_nat [1..<unat (unwrap_or (Option.bind metadata split_count) 1) + 1])))"

definition model_metadata :: "disk \<Rightarrow> entry \<Rightarrow> string \<Rightarrow> metadata option" where
  "model_metadata disk e root = ok (metadata_read (disk_open disk) (path_resolve (e_path e) root))"

definition entry_files :: "disk \<Rightarrow> entry \<Rightarrow> string \<Rightarrow> string list" where
  "entry_files disk e root =
     model_files (path_resolve (e_path e) root) (model_metadata disk e root) @
     (case e_draft_path e of None \<Rightarrow> [] | Some d \<Rightarrow> [path_resolve d root]) @
     (case e_projector_path e of None \<Rightarrow> [] | Some p \<Rightarrow> [path_resolve p root])"

definition files_total :: "disk \<Rightarrow> string list \<Rightarrow> nat" where
  "files_total disk ps = sum_list (map (file_bytes disk) ps)"

lemma word_of_file: "unwrap_or (size_of disk p) 0 = word_of_nat (file_bytes disk p)"
  by (simp add: file_bytes_def)

lemma shard_sizes_sum:
  "shard_sizes disk s model ixs acc =
     acc + word_of_nat (files_total disk (map (sibling s model) (filter (\<lambda>i. i \<noteq> sh_index s) ixs)))"
  by (induction disk s model ixs acc rule: shard_sizes.induct)
    (simp_all add: files_total_def word_of_file)

lemma weights_of_eq:
  "weights_of disk model metadata =
     (if size_of disk model = None then Inl (''no model file at '' @ quoted model)
      else Inr (word_of_nat (files_total disk (model_files model metadata))))"
proof (cases "size_of disk model")
  case None
  then show ?thesis by (simp add: weights_of_def)
next
  case (Some w)
  then have "w = word_of_nat (file_bytes disk model)" by (simp add: file_bytes_def)
  with Some show ?thesis
    by (auto simp: weights_of_def model_files_def shard_sizes_sum files_total_def Let_def split: option.split)
qed

section \<open>The cost in exact arithmetic\<close>

definition element_cost :: "nat \<Rightarrow> nat \<Rightarrow> nat \<Rightarrow> nat \<Rightarrow> nat" where
  "element_cost key keys v values = key * keys + v * values"

text \<open>The cache in sixteenths of a byte: layer by layer when the model says which layers slide.\<close>

fun slide_cost ::
    "nat \<Rightarrow> nat \<Rightarrow> nat \<times> nat \<Rightarrow> nat \<times> nat \<Rightarrow> nat \<times> nat \<Rightarrow> (nat \<Rightarrow> nat) \<Rightarrow> nat \<Rightarrow> u64 list \<Rightarrow> nat" where
  "slide_cost ctx windowed full swa kv heads layer [] = 0"
| "slide_cost ctx windowed full swa kv heads layer (slides # pattern) =
     (if slides = 0 then ctx * heads layer * element_cost (fst full) (fst kv) (snd full) (snd kv)
      else windowed * heads layer * element_cost (fst swa) (fst kv) (snd swa) (snd kv))
     + slide_cost ctx windowed full swa kv heads (Suc layer) pattern"

definition cache_sixteenths :: "metadata \<Rightarrow> u32 \<Rightarrow> u64 \<Rightarrow> u64 \<Rightarrow> nat option" where
  "cache_sixteenths m context keys values =
     (case (caching_layers m, kv_heads_of m, key_length_of m) of
        (Some layers, Some kv_heads, Some key) \<Rightarrow>
          (let v = unwrap_or (of_model m ''attention.value_length'') key in
           case (or_else (per_layer m ''attention.sliding_window_pattern'') (assumed_pattern m),
                 of_model m ''attention.sliding_window'') of
             (Some pattern, Some window) \<Rightarrow>
               (let swa_key = unwrap_or (of_model m ''attention.key_length_swa'') key;
                    swa_v = unwrap_or (of_model m ''attention.value_length_swa'') swa_key
                in Some (slide_cost (unat context) (min (unat context) (unat window))
                     (unat key, unat v) (unat swa_key, unat swa_v) (unat keys, unat values)
                     (unat \<circ> layer_heads (per_layer m ''attention.head_count_kv'') kv_heads) 0 pattern))
           | _ \<Rightarrow>
               Some (unat layers * unat context * (unat kv_heads * element_cost (unat key) (unat keys) (unat v) (unat values))))
      | _ \<Rightarrow> None)"

lemma ucast_nat: "(ucast (w :: 'a::len word) :: 'b::len word) = word_of_nat (unat w)"
  by simp

lemma per_element_nat:
  "per_element key keys v values = word_of_nat (element_cost (unat key) (unat keys) (unat v) (unat values))"
  unfolding per_element_def element_cost_def by (simp only: ucast_nat of_nat_mult of_nat_add)

lemma layer_cost_nat:
  "layer_cost span heads key keys v values =
     word_of_nat (unat span * unat heads * element_cost (unat key) (unat keys) (unat v) (unat values))"
  unfolding layer_cost_def by (simp only: ucast_nat of_nat_mult per_element_nat)

lemma pattern_total_nat:
  "pattern_total ctx windowed full swa kv heads layer pattern acc =
     acc + word_of_nat (slide_cost (unat ctx) (unat windowed) (unat (fst full), unat (snd full))
       (unat (fst swa), unat (snd swa)) (unat (fst kv), unat (snd kv)) (unat \<circ> heads) layer pattern)"
proof (induction ctx windowed full swa kv heads layer pattern acc rule: pattern_total.induct)
  case 1
  then show ?case by simp
next
  case (2 ctx windowed full swa keys v heads layer slides pattern acc)
  obtain fk fv sk sv where pairs: "full = (fk, fv)" "swa = (sk, sv)" by (cases full; cases swa)
  show ?case
    using 2 unfolding pairs
    by (cases "slides = 0") (simp_all only: pattern_total.simps slide_cost.simps Let_def prod.case
        if_True if_False fst_conv snd_conv refl layer_cost_nat of_nat_add add.assoc o_apply)
qed

lemma cache_bytes_nat:
  "cache_bytes m context keys values =
     map_option (\<lambda>n. word_of_nat n div 16) (cache_sixteenths m context keys values)"
proof -
  have dense: "ucast (layers :: u64) * ucast (ctx :: u32) * (ucast (kv :: u64) * per_element a b c d) =
      (word_of_nat (unat layers * unat ctx * (unat kv * element_cost (unat a) (unat b) (unat c) (unat d))) :: u128)"
    for layers ctx kv a b c d
    by (simp only: ucast_nat of_nat_mult per_element_nat)
  show ?thesis
    unfolding cache_bytes_def cache_sixteenths_def dense pattern_total_nat Let_def
    by (auto split: option.split)
qed

lemma unat_cache:
  "n < 2 ^ 128 \<Longrightarrow> unat (word_of_nat n div 16 :: u128) = n div 16"
  by (simp add: unat_div_distrib unsigned_of_nat take_bit_nat_eq_self)

definition model_sixteenths :: "disk \<Rightarrow> entry \<Rightarrow> string \<Rightarrow> nat option" where
  "model_sixteenths disk e root =
     Option.bind (model_metadata disk e root) (\<lambda>m.
       cache_sixteenths m (e_context_size e) (sixteenths (e_flags e) [''ctk'', ''cache-type-k''])
         (sixteenths (e_flags e) [''ctv'', ''cache-type-v'']))"

definition draft_sixteenths :: "disk \<Rightarrow> entry \<Rightarrow> string \<Rightarrow> nat" where
  "draft_sixteenths disk e root =
     (case e_draft_path e of
        None \<Rightarrow> 0
      | Some d \<Rightarrow>
          if predicts_tokens (e_flags e) then 0
          else (case metadata_read (disk_open disk) (path_resolve d root) of
                  Inl _ \<Rightarrow> 0
                | Inr m \<Rightarrow>
                    unwrap_or (cache_sixteenths m (e_context_size e)
                      (sixteenths (e_flags e) [''ctkd'', ''cache-type-k-draft''])
                      (sixteenths (e_flags e) [''ctvd'', ''cache-type-v-draft''])) 0))"

definition exact_bytes :: "disk \<Rightarrow> entry \<Rightarrow> string \<Rightarrow> nat" where
  "exact_bytes disk e root =
     (let files = files_total disk (entry_files disk e root) in
      (if runs_on_processor (e_flags e) then 0
       else (case model_sixteenths disk e root of
               Some n \<Rightarrow>
                 files + files * 5 div 100 + draft_sixteenths disk e root div 16 +
                 (if keeps_no_cache (e_flags e) then 0 else n div 16)
             | None \<Rightarrow> files + files div 4)) + 2 ^ 30)"

text \<open>The figures are credible: the files fit the address space, the caches 120 bits.\<close>

definition credible :: "disk \<Rightarrow> entry \<Rightarrow> string \<Rightarrow> bool" where
  "credible disk e root \<longleftrightarrow>
     files_total disk (entry_files disk e root) < 2 ^ 64 \<and>
     unwrap_or (model_sixteenths disk e root) 0 < 2 ^ 120 \<and> draft_sixteenths disk e root < 2 ^ 120"

lemma unat_of_nat_u128: "n < 2 ^ 128 \<Longrightarrow> unat (word_of_nat n :: u128) = n"
  by (simp add: unsigned_of_nat take_bit_nat_eq_self)

lemma word_div_nat: "n < 2 ^ 128 \<Longrightarrow> m < 2 ^ 128 \<Longrightarrow>
    (word_of_nat n :: u128) div word_of_nat m = word_of_nat (n div m)"
proof -
  assume n: "n < 2 ^ 128" and m: "m < 2 ^ 128"
  have "n div m < 2 ^ 128" using n by (rule le_less_trans [OF div_le_dividend])
  then show ?thesis
    using n m unfolding word_unat_eq_iff unat_div_distrib by (simp only: unat_of_nat_u128)
qed

lemma unwrap_map: "unwrap_or (map_option f x) y = (case x of None \<Rightarrow> y | Some z \<Rightarrow> f z)"
  by (cases x) auto

lemma draft_cache_nat:
  "draft_sixteenths disk e root < 2 ^ 120 \<Longrightarrow>
   (case e_draft_path e of None \<Rightarrow> 0 | Some d \<Rightarrow> draft_cache disk e (path_resolve d root)) =
     word_of_nat (draft_sixteenths disk e root div 16)"
proof (cases "e_draft_path e")
  case None
  then show ?thesis by (simp add: draft_sixteenths_def)
next
  case (Some d)
  have div: "n < 2 ^ 120 \<Longrightarrow> (word_of_nat n div 16 :: u128) = word_of_nat (n div 16)" for n
    using word_div_nat [of n 16] by simp
  assume "draft_sixteenths disk e root < 2 ^ 120"
  with Some show ?thesis
    by (auto simp: draft_sixteenths_def draft_cache_def cache_bytes_nat unwrap_map div
        split: option.splits sum.splits)
qed

lemma nat_div_ceil: "0 < b \<Longrightarrow> (a + b - 1) div b = a div b + (if a mod b = 0 then 0 else 1 :: nat)"
proof -
  assume b: "0 < b"
  have "a + b - 1 = a div b * b + (a mod b + b - 1)"
    using b div_mult_mod_eq [of a b] by linarith
  then have "(a + b - 1) div b = (a div b * b + (a mod b + b - 1)) div b" by (rule arg_cong)
  also have "\<dots> = a div b + (a mod b + b - 1) div b" by (rule div_mult_self3) (use b in simp)
  finally have "(a + b - 1) div b = a div b + (a mod b + b - 1) div b" .
  moreover have "(a mod b + b - 1) div b = 1" if "a mod b \<noteq> 0"
  proof -
    obtain x where x: "a mod b = Suc x" using \<open>a mod b \<noteq> 0\<close> by (cases "a mod b") auto
    then have "x < b" using mod_less_divisor [OF b, of a] by simp
    then have "(x + b) div b = x div b + 1" using b by (intro div_add_self2) simp
    with \<open>x < b\<close> show ?thesis by (simp add: x)
  qed
  ultimately show ?thesis using b by simp
qed

lemma unat_div_ceil:
  assumes b: "0 < unat b"
  shows "unat (div_ceil a b) = (unat a + unat b - 1) div unat (b :: 'a::len word)"
proof -
  have mod: "a mod b = 0 \<longleftrightarrow> unat a mod unat b = 0"
    by (simp add: unat_mod_distrib flip: unat_eq_0)
  have "unat (a div b + 1) = unat a div unat b + 1" if m: "unat a mod unat b \<noteq> 0"
  proof -
    have "unat b \<noteq> 1" using m by auto
    then have "unat a div unat b < unat a \<or> unat a = 0"
      using b by (metis div_less_dividend gr0I nat_neq_iff less_one)
    moreover have "unat a \<noteq> 0" using m by (cases "unat a") auto
    ultimately have "unat (a div b) < unat a" by (simp add: unat_div_distrib)
    moreover have "unat a < 2 ^ LENGTH('a)" by (rule unsigned_less)
    ultimately have "unat (a div b) + unat (1 :: 'a word) < 2 ^ LENGTH('a)"
      by (simp only: unat_1)
    from unat_plus_exact [OF this] show ?thesis by (simp add: unat_div_distrib)
  qed
  then show ?thesis
    using nat_div_ceil [OF b, of "unat a"] by (simp add: div_ceil_def Let_def mod unat_div_distrib)
qed

definition mib_ceil :: "nat \<Rightarrow> nat" where
  "mib_ceil bytes = (bytes + 1048575) div 1048576"

lemma mib_of_bytes:
  assumes "bytes < 2 ^ 128"
  shows "unwrap_or (try_u32 (div_ceil (word_of_nat bytes :: u128) (ucast mib_bytes))) (-1) =
     word_of_nat (min (2 ^ 32 - 1) (mib_ceil bytes))"
proof -
  have m: "unat (ucast mib_bytes :: u128) = 1048576" by (simp add: mib_bytes_def)
  let ?c = "div_ceil (word_of_nat bytes :: u128) (ucast mib_bytes)"
  have c: "unat ?c = mib_ceil bytes"
    unfolding mib_ceil_def using unat_div_ceil [of "ucast mib_bytes :: u128" "word_of_nat bytes"]
    by (simp only: m unat_of_nat_u128 [OF assms])
  show ?thesis
  proof (cases "mib_ceil bytes < 2 ^ 32")
    case True
    then have "min (2 ^ 32 - 1) (mib_ceil bytes) = mib_ceil bytes" by simp
    with True show ?thesis by (simp only: try_u32_def c if_True unwrap_or.simps ucast_nat [of ?c])
  next
    case False
    then have "min (2 ^ 32 - 1) (mib_ceil bytes) = 2 ^ 32 - 1" by simp
    with False show ?thesis by (simp only: try_u32_def c if_False unwrap_or.simps) simp
  qed
qed

definition entry_weights :: "disk \<Rightarrow> entry \<Rightarrow> string \<Rightarrow> u64 \<Rightarrow> u64" where
  "entry_weights disk e root weights =
     (let weights = (case e_draft_path e of None \<Rightarrow> weights
                     | Some d \<Rightarrow> weights + unwrap_or (size_of disk (path_resolve d root)) 0)
      in case e_projector_path e of None \<Rightarrow> weights
         | Some p \<Rightarrow> weights + unwrap_or (size_of disk (path_resolve p root)) 0)"

lemma entry_weights_nat:
  "entry_weights disk e root
     (word_of_nat (files_total disk (model_files (path_resolve (e_path e) root) (model_metadata disk e root))))
   = word_of_nat (files_total disk (entry_files disk e root))"
  by (auto simp: entry_weights_def entry_files_def files_total_def word_of_file Let_def
      simp del: unwrap_or.simps split: option.split)

text \<open>The cost \<open>derive\<close> adds up, for the summed weights.\<close>

definition word_bytes :: "disk \<Rightarrow> entry \<Rightarrow> string \<Rightarrow> u64 \<Rightarrow> u128" where
  "word_bytes disk e root weights =
     (let on_processor = runs_on_processor (e_flags e);
          cache = (if on_processor then 0
                   else case e_draft_path e of None \<Rightarrow> 0 | Some d \<Rightarrow> draft_cache disk e (path_resolve d root));
          weights = (if on_processor then 0 else ucast weights :: u128)
      in case map_option (\<lambda>n. word_of_nat n div 16) (model_sixteenths disk e root) of
           Some model_cache \<Rightarrow>
             weights + (if keeps_no_cache (e_flags e) \<or> on_processor then 0 else model_cache)
               + cache + weights * 5 div 100 + ucast overhead_bytes
         | None \<Rightarrow> weights + weights div 4 + ucast overhead_bytes)"

lemma derive_eq:
  "derive disk e root =
    (if size_of disk (path_resolve (e_path e) root) = None
     then Inl (''no model file at '' @ quoted (path_resolve (e_path e) root))
     else Inr \<lparr>dv_mib = unwrap_or (try_u32 (div_ceil
                  (word_bytes disk e root (word_of_nat (files_total disk (entry_files disk e root))))
                  (ucast mib_bytes))) (-1),
               dv_basis = (if model_sixteenths disk e root = None then Basis_Size else Basis_Metadata)\<rparr>)"
proof (cases "size_of disk (path_resolve (e_path e) root) = None")
  case True
  then show ?thesis by (simp add: derive_def weights_of_eq Let_def)
next
  case False
  have weights: "weights_of disk (path_resolve (e_path e) root) (model_metadata disk e root) =
      Inr (word_of_nat (files_total disk (model_files (path_resolve (e_path e) root) (model_metadata disk e root))))"
    using False by (simp add: weights_of_eq)
  have cache: "Option.bind (model_metadata disk e root) (\<lambda>m. cache_bytes m (e_context_size e)
        (sixteenths (e_flags e) [''ctk'', ''cache-type-k'']) (sixteenths (e_flags e) [''ctv'', ''cache-type-v'']))
      = map_option (\<lambda>n. word_of_nat n div 16) (model_sixteenths disk e root)"
    by (cases "model_metadata disk e root") (simp_all add: model_sixteenths_def cache_bytes_nat)
  show ?thesis
    unfolding derive_def Let_def model_metadata_def [symmetric] weights attempt.simps cache
      entry_weights_nat [symmetric]
    using False
    by (cases "e_draft_path e"; cases "e_projector_path e"; cases "model_sixteenths disk e root")
      (simp_all add: word_bytes_def entry_weights_def Let_def)
qed

lemma exact_bytes_bound:
  assumes "credible disk e root"
  shows "exact_bytes disk e root < 2 ^ 128"
proof -
  let ?f = "files_total disk (entry_files disk e root)"
  have f: "?f < 2 ^ 64" and d: "draft_sixteenths disk e root < 2 ^ 120"
    and m: "unwrap_or (model_sixteenths disk e root) 0 < 2 ^ 120"
    using assms by (simp_all add: credible_def)
  have "?f * 5 div 100 \<le> ?f" "?f div 4 \<le> ?f" "draft_sixteenths disk e root div 16 \<le> draft_sixteenths disk e root"
    by simp_all
  with f d m show ?thesis
    by (cases "model_sixteenths disk e root") (auto simp: exact_bytes_def Let_def intro: le_less_trans)
qed

lemma word_bytes_exact:
  assumes "credible disk e root"
  shows "word_bytes disk e root (word_of_nat (files_total disk (entry_files disk e root))) =
     word_of_nat (exact_bytes disk e root)"
proof -
  let ?f = "files_total disk (entry_files disk e root)"
  have f: "?f < 2 ^ 64" and d: "draft_sixteenths disk e root < 2 ^ 120"
    and m: "unwrap_or (model_sixteenths disk e root) 0 < 2 ^ 120"
    using assms by (simp_all add: credible_def)
  have weights: "ucast (word_of_nat ?f :: u64) = (word_of_nat ?f :: u128)"
    by (simp only: ucast_nat unat_of_nat_u64 [OF f])
  have five: "(word_of_nat ?f :: u128) * 5 div 100 = word_of_nat (?f * 5 div 100)"
    using word_div_nat [of "?f * 5" 100] f by simp
  have quarter: "(word_of_nat ?f :: u128) div 4 = word_of_nat (?f div 4)"
    using word_div_nat [of ?f 4] f by simp
  have cache: "(word_of_nat n :: u128) div 16 = word_of_nat (n div 16)" if "n < 2 ^ 120" for n
    using word_div_nat [of n 16] that by simp
  have over: "(ucast overhead_bytes :: u128) = word_of_nat (2 ^ 30)"
    by (simp add: overhead_bytes_def mib_bytes_def)
  show ?thesis
  proof (cases "runs_on_processor (e_flags e)")
    case True
    then show ?thesis
      by (cases "model_sixteenths disk e root") (simp_all add: word_bytes_def exact_bytes_def over Let_def)
  next
    case False
    show ?thesis
    proof (cases "model_sixteenths disk e root")
      case None
      show ?thesis
        by (simp only: word_bytes_def exact_bytes_def Let_def False None if_False option.map option.case
            weights quarter over of_nat_add)
    next
      case (Some n)
      have "n < 2 ^ 120" using m Some by simp
      then show ?thesis
        by (cases "keeps_no_cache (e_flags e)")
          (simp_all only: word_bytes_def exact_bytes_def Let_def False Some if_True if_False option.map
            option.case weights five over draft_cache_nat [OF d] cache of_nat_add simp_thms semiring_1_class.of_nat_0 add_0_left add_0_right add_ac)
    qed
  qed
qed

lemma derive_is:
  assumes "credible disk e root"
  shows "derive disk e root =
    (if size_of disk (path_resolve (e_path e) root) = None
     then Inl (''no model file at '' @ quoted (path_resolve (e_path e) root))
     else Inr \<lparr>dv_mib = word_of_nat (min (2 ^ 32 - 1) (mib_ceil (exact_bytes disk e root))),
               dv_basis = (if model_sixteenths disk e root = None then Basis_Size else Basis_Metadata)\<rparr>)"
proof (cases "size_of disk (path_resolve (e_path e) root) = None")
  case True
  then show ?thesis by (simp add: derive_def weights_of_eq Let_def)
next
  case False
  from word_bytes_exact [OF assms] show ?thesis
    by (simp only: derive_eq False if_False mib_of_bytes [OF exact_bytes_bound [OF assms]])
qed

text \<open>
  C29: The estimate is the exact one: whenever an entry's files fit 64 bits and its cache 120,
  \<open>derive\<close> succeeds exactly when the model file can be sized, and its figure is the sum of
  weights, cache, five percent (or the quarter, when the metadata says too little) and the
  overhead, computed without wrap-around, rounded up to a mebibyte and capped at \<open>u32::MAX\<close>.
\<close>

theorem derive_exact:
  assumes "credible disk e root"
  shows "derive disk e root =
    (if size_of disk (path_resolve (e_path e) root) = None
     then Inl (''no model file at '' @ quoted (path_resolve (e_path e) root))
     else Inr \<lparr>dv_mib = word_of_nat (min (2 ^ 32 - 1) (mib_ceil (exact_bytes disk e root))),
               dv_basis = (if model_sixteenths disk e root = None then Basis_Size else Basis_Metadata)\<rparr>)"
  using assms by (rule derive_is)

text \<open>
  An entry pinned to the processor is charged the overhead and nothing else, whatever its
  files, its cache and its context: exactly 1024 MiB, with no bound on any figure needed.
\<close>

theorem derive_on_processor:
  assumes "runs_on_processor (e_flags e)" and "derive disk e root = Inr d"
  shows "dv_mib d = 1024"
proof -
  have "unwrap_or (try_u32 (div_ceil (word_of_nat (2 ^ 30) :: u128) (ucast mib_bytes))) (-1) =
      word_of_nat (min (2 ^ 32 - 1) (mib_ceil (2 ^ 30)))"
    by (rule mib_of_bytes) simp
  moreover have "word_bytes disk e root w = word_of_nat (2 ^ 30)" for w
    using assms(1) by (cases "model_sixteenths disk e root")
      (simp_all add: word_bytes_def Let_def overhead_bytes_def mib_bytes_def)
  ultimately show ?thesis using assms(2) by (auto simp: derive_eq mib_ceil_def split: if_splits)
qed

text \<open>
  The estimate errs high. For an entry on the device it covers its files and a twentieth
  more, its draft's and its own cache, and the device's overhead, unless it is already the
  largest figure there is.
\<close>

theorem derive_covers:
  assumes "credible disk e root" and "derive disk e root = Inr d"
    and "\<not> runs_on_processor (e_flags e)" and "dv_mib d \<noteq> - 1"
  shows "files_total disk (entry_files disk e root) + files_total disk (entry_files disk e root) div 20 + 2 ^ 30
     + (if model_sixteenths disk e root = None then 0
        else draft_sixteenths disk e root div 16 +
          (if keeps_no_cache (e_flags e) then 0 else unwrap_or (model_sixteenths disk e root) 0 div 16))
     \<le> unat (dv_mib d) * 1048576"
proof -
  have mib: "dv_mib d = word_of_nat (min (2 ^ 32 - 1) (mib_ceil (exact_bytes disk e root)))"
    using assms(2) derive_is [OF assms(1)] by (auto split: if_splits)
  have "mib_ceil (exact_bytes disk e root) < 2 ^ 32 - 1"
  proof (rule ccontr)
    assume "\<not> ?thesis"
    then have "min (2 ^ 32 - 1) (mib_ceil (exact_bytes disk e root)) = 2 ^ 32 - 1" by simp
    then have "dv_mib d = - 1" unfolding mib by simp
    with assms(4) show False by simp
  qed
  then have "unat (dv_mib d) = mib_ceil (exact_bytes disk e root)"
    unfolding mib by (simp add: unsigned_of_nat take_bit_nat_eq_self)
  moreover have "exact_bytes disk e root \<le> mib_ceil (exact_bytes disk e root) * 1048576"
    unfolding mib_ceil_def using div_mult_mod_eq [of "exact_bytes disk e root + 1048575" 1048576]
      mod_less_divisor [of 1048576 "exact_bytes disk e root + 1048575"] by linarith
  moreover have "files_total disk (entry_files disk e root) div 20 \<le> files_total disk (entry_files disk e root) div 4"
    by (rule div_le_mono2) simp_all
  ultimately show ?thesis
    using assms(3) by (cases "model_sixteenths disk e root") (auto simp: exact_bytes_def Let_def)
qed

lemma slide_cost_le:
  assumes "windowed \<le> ctx" and "fst swa \<le> fst full" and "snd swa \<le> snd full" and "\<And>l. heads l \<le> kv_heads"
  shows "slide_cost ctx windowed full swa kv heads layer pattern \<le>
     length pattern * ctx * (kv_heads * element_cost (fst full) (fst kv) (snd full) (snd kv))"
proof (induction pattern arbitrary: layer)
  case Nil
  then show ?case by simp
next
  case (Cons slides pattern)
  let ?c = "element_cost (fst full) (fst kv) (snd full) (snd kv)"
  have swa: "element_cost (fst swa) (fst kv) (snd swa) (snd kv) \<le> ?c"
    unfolding element_cost_def using assms by (intro add_mono mult_le_mono1) auto
  have "windowed * heads layer * element_cost (fst swa) (fst kv) (snd swa) (snd kv) \<le> ctx * kv_heads * ?c"
    using assms(1,4) swa by (intro mult_le_mono)
  moreover have "ctx * heads layer * ?c \<le> ctx * kv_heads * ?c"
    using assms(4) by (intro mult_le_mono le_refl)
  ultimately have "(if slides = 0 then ctx * heads layer * ?c
      else windowed * heads layer * element_cost (fst swa) (fst kv) (snd swa) (snd kv)) \<le> ctx * kv_heads * ?c"
    by simp
  then show ?case using Cons.IH [of "Suc layer"] by (simp add: algebra_simps)
qed

definition windows_narrower :: "metadata \<Rightarrow> bool" where
  "windows_narrower m \<longleftrightarrow>
     (case (caching_layers m, kv_heads_of m, key_length_of m,
            or_else (per_layer m ''attention.sliding_window_pattern'') (assumed_pattern m)) of
        (Some layers, Some kv_heads, Some key, Some pattern) \<Rightarrow>
          (let v = unwrap_or (of_model m ''attention.value_length'') key;
               swa_key = unwrap_or (of_model m ''attention.key_length_swa'') key in
           swa_key \<le> key \<and> unwrap_or (of_model m ''attention.value_length_swa'') swa_key \<le> v \<and>
           length pattern \<le> unat layers \<and>
           list_all (\<lambda>n. n \<le> kv_heads) (unwrap_or (per_layer m ''attention.head_count_kv'') []))
      | _ \<Rightarrow> True)"

definition dense_sixteenths :: "metadata \<Rightarrow> u32 \<Rightarrow> u64 \<Rightarrow> u64 \<Rightarrow> nat option" where
  "dense_sixteenths m context keys values =
     (case (caching_layers m, kv_heads_of m, key_length_of m) of
        (Some layers, Some kv_heads, Some key) \<Rightarrow>
          Some (unat layers * unat context * (unat kv_heads *
            element_cost (unat key) (unat keys)
              (unat (unwrap_or (of_model m ''attention.value_length'') key)) (unat values)))
      | _ \<Rightarrow> None)"

text \<open>
  Windowing never raises the estimate: for a model whose sliding layers keep no wider
  heads than its full ones, whose layers list no more key-value heads than its largest, and
  which names no more layers than it has, the layer by layer cache is at most the dense one.
\<close>

theorem windowed_at_most_dense:
  assumes "windows_narrower m" and "cache_sixteenths m context_size keys values = Some n"
  shows "\<exists>dense. dense_sixteenths m context_size keys values = Some dense \<and> n \<le> dense"
proof -
  obtain layers kv_heads key where some: "caching_layers m = Some layers" "kv_heads_of m = Some kv_heads"
      "key_length_of m = Some key"
    using assms(2) by (auto simp: cache_sixteenths_def split: option.splits)
  let ?v = "unwrap_or (of_model m ''attention.value_length'') key"
  let ?swa_key = "unwrap_or (of_model m ''attention.key_length_swa'') key"
  let ?swa_v = "unwrap_or (of_model m ''attention.value_length_swa'') ?swa_key"
  let ?heads = "layer_heads (per_layer m ''attention.head_count_kv'') kv_heads"
  let ?c = "element_cost (unat key) (unat keys) (unat ?v) (unat values)"
  have "n \<le> unat layers * unat context_size * (unat kv_heads * ?c)"
  proof (cases "or_else (per_layer m ''attention.sliding_window_pattern'') (assumed_pattern m)")
    case None
    then show ?thesis using assms(2) some by (simp add: cache_sixteenths_def Let_def)
  next
    case (Some pattern)
    show ?thesis
    proof (cases "of_model m ''attention.sliding_window''")
      case None
      then show ?thesis using assms(2) some Some by (simp add: cache_sixteenths_def Let_def)
    next
      case window: (Some window)
      have narrow: "?swa_key \<le> key" "?swa_v \<le> ?v" "length pattern \<le> unat layers"
        "list_all (\<lambda>n. n \<le> kv_heads) (unwrap_or (per_layer m ''attention.head_count_kv'') [])"
        using assms(1) some Some by (simp_all add: windows_narrower_def Let_def)
      have heads: "(unat \<circ> ?heads) l \<le> unat kv_heads" for l
        using narrow(4) by (auto simp: layer_heads_def list_all_length word_le_nat_alt split: option.split)
      have "n = slide_cost (unat context_size) (min (unat context_size) (unat window)) (unat key, unat ?v)
          (unat ?swa_key, unat ?swa_v) (unat keys, unat values) (unat \<circ> ?heads) 0 pattern"
        using assms(2) some Some window by (simp add: cache_sixteenths_def Let_def)
      also have "\<dots> \<le> length pattern * unat context_size * (unat kv_heads * ?c)"
        using slide_cost_le [of "min (unat context_size) (unat window)" "unat context_size"
            "(unat ?swa_key, unat ?swa_v)" "(unat key, unat ?v)" "unat \<circ> ?heads" "unat kv_heads"
            "(unat keys, unat values)" 0 pattern] narrow(1,2) heads
        by (simp add: word_le_nat_alt)
      also have "\<dots> \<le> unat layers * unat context_size * (unat kv_heads * ?c)"
        using narrow(3) by (intro mult_le_mono1)
      finally show ?thesis .
    qed
  qed
  then show ?thesis by (simp add: dense_sixteenths_def some)
qed

section \<open>Applied\<close>

definition dense_pairs :: "(string \<times> gguf_value) list" where
  "dense_pairs =
     [(''general.architecture'', GText ''x''), (''x.block_count'', GScalar 4 (le_bytes 4 32)),
      (''x.attention.head_count'', GScalar 4 (le_bytes 4 16)),
      (''x.attention.key_length'', GScalar 4 (le_bytes 4 128))]"

definition sample_disk :: disk where
  "sample_disk =
     \<lparr>disk_open = (\<lambda>_. Inr \<lparr>o_bytes = gguf_file 3 0 dense_pairs, o_length = Inr 4294967296, o_limit = 2 ^ 63 - 1\<rparr>),
      disk_stat = (\<lambda>_. Some (True, 4294967296)), disk_is_dir = (\<lambda>_. False), disk_list = (\<lambda>_. None)\<rparr>"

definition sample_entry :: "flags \<Rightarrow> entry" where
  "sample_entry flags =
     \<lparr>e_id = ''m'', e_path = RelativePath ''m.gguf'', e_draft_path = None, e_projector_path = None,
      e_context_size = 8192, e_residency = OnDemand, e_memory_estimate_mib = 0,
      e_reasoning_format = None, e_reasoning_effort = None, e_startup_timeout_seconds = 300,
      e_runtime = None, e_flags = flags\<rparr>"

definition dense_metadata :: metadata where
  "dense_metadata =
     \<lparr>m_architecture = Some ''x'',
      m_numbers = [(''x.attention.head_count'', 16), (''x.attention.key_length'', 128), (''x.block_count'', 32)],
      m_layers = []\<rparr>"

lemma sample_metadata_read [simp]: "metadata_read (disk_open sample_disk) path = Inr dense_metadata"
proof -
  have wf: "file_wf 3 dense_pairs" and limit: "length (gguf_file 3 0 dense_pairs @ []) \<le> 2 ^ 63 - 1"
    and len: "\<not> unat (4294967296 :: u64) < length (gguf_file 3 0 dense_pairs)"
    and m: "metadata_of dense_pairs = dense_metadata" by code_simp+
  show ?thesis
    using fill_gguf_file [OF wf limit, of 4294967296 no_metadata] len m
    by (simp add: metadata_read_def sample_disk_def start_def metadata_of_def)
qed

lemma sample_figures:
  "files_total sample_disk (entry_files sample_disk (sample_entry []) ''models'') = 4294967296"
  "model_sixteenths sample_disk (sample_entry []) ''models'' = Some 34359738368"
  "draft_sixteenths sample_disk (sample_entry []) ''models'' = 0"
  "size_of sample_disk (path_resolve (e_path (sample_entry [])) ''models'') \<noteq> None"
  "\<not> runs_on_processor (e_flags (sample_entry []))" "\<not> keeps_no_cache (e_flags (sample_entry []))"
proof -
  have "model_files ''models/m.gguf'' (Some dense_metadata) = [''models/m.gguf'']"
    "path_resolve (RelativePath ''m.gguf'') ''models'' = ''models/m.gguf''" by code_simp+
  then show "files_total sample_disk (entry_files sample_disk (sample_entry []) ''models'') = 4294967296"
    by (simp add: files_total_def entry_files_def model_metadata_def sample_entry_def file_bytes_def
        size_of_def) (simp add: sample_disk_def)
  have "cache_sixteenths dense_metadata 8192 f16 f16 = Some 34359738368" "sixteenths [] ns = f16" for ns
    by code_simp (simp add: sixteenths_def find_flag_def List.map_filter_def Let_def)
  then show "model_sixteenths sample_disk (sample_entry []) ''models'' = Some 34359738368"
    by (simp add: model_sixteenths_def model_metadata_def sample_entry_def)
qed (simp_all add: draft_sixteenths_def sample_entry_def sample_disk_def size_of_def runs_on_processor_def
    keeps_no_cache_def find_flag_def List.map_filter_def)

lemma sample_credible: "credible sample_disk (sample_entry []) ''models''"
  by (simp add: credible_def sample_figures)

lemma sample_bytes: "exact_bytes sample_disk (sample_entry []) ''models'' = 7730941132"
  by (simp add: exact_bytes_def sample_figures)

theorem derive_exact_witness:
  "derive sample_disk (sample_entry []) ''models'' = Inr \<lparr>dv_mib = 7373, dv_basis = Basis_Metadata\<rparr>"
  unfolding derive_exact [OF sample_credible] sample_bytes
  using sample_figures by (simp add: mib_ceil_def)

lemma sample_pinned: "runs_on_processor (e_flags (sample_entry [(''ngl'', '' 0'')]))"
  by code_simp

theorem derive_on_processor_witness:
  "\<exists>d. derive sample_disk (sample_entry [(''ngl'', '' 0'')]) ''models'' = Inr d \<and> dv_mib d = 1024"
proof -
  have "size_of sample_disk (path_resolve (e_path (sample_entry [(''ngl'', '' 0'')])) ''models'') \<noteq> None"
    by code_simp
  then obtain d where "derive sample_disk (sample_entry [(''ngl'', '' 0'')]) ''models'' = Inr d"
    by (auto simp: derive_eq)
  with derive_on_processor [OF sample_pinned this] show ?thesis by blast
qed

theorem derive_covers_witness:
  "\<exists>d. derive sample_disk (sample_entry []) ''models'' = Inr d \<and> 7730941132 \<le> unat (dv_mib d) * 1048576"
proof -
  have "unwrap_or (try_u32 (div_ceil (word_of_nat 7730941132 :: u128) (ucast mib_bytes))) (-1) = 7373"
    by (subst mib_of_bytes) (simp_all add: mib_ceil_def)
  with word_bytes_exact [OF sample_credible]
  have d: "derive sample_disk (sample_entry []) ''models'' = Inr \<lparr>dv_mib = 7373, dv_basis = Basis_Metadata\<rparr>"
    using sample_figures by (simp add: derive_eq sample_bytes)
  show ?thesis
    using derive_covers [OF sample_credible d sample_figures(5)] d by (simp add: sample_figures)
qed

definition sliding_metadata :: metadata where
  "sliding_metadata =
     \<lparr>m_architecture = Some ''gemma3'',
      m_numbers = [(''gemma3.attention.head_count'', 4), (''gemma3.attention.key_length'', 256),
        (''gemma3.attention.sliding_window'', 512), (''gemma3.block_count'', 26)],
      m_layers = []\<rparr>"

theorem windowed_at_most_dense_witness:
  "\<exists>n dense. cache_sixteenths sliding_metadata 32768 32 32 = Some n \<and>
     dense_sixteenths sliding_metadata 32768 32 32 = Some dense \<and> n \<le> dense \<and> n < dense"
proof -
  have narrow: "windows_narrower sliding_metadata"
    and n: "cache_sixteenths sliding_metadata 32768 32 32 = Some 9328132096"
    and dense: "dense_sixteenths sliding_metadata 32768 32 32 = Some 55834574848" by code_simp+
  from windowed_at_most_dense [OF narrow n] n dense show ?thesis by simp
qed

end
