(* ===== verification/Memory.thy ===== *)
theory Memory
  imports Rust_Str
begin

text \<open>
  What the machine says about its memory (\<open>src/src/memory.rs\<close>, \<open>memory/parse.rs\<close>,
  \<open>memory/command.rs\<close>). The tools themselves are the parameter \<open>machine\<close>: what a run of
  one printed, or nothing when it could not be run, was killed at its bound, or finished
  unhappily. Which tool is asked, and how its text is read, is the code's.
\<close>

section \<open>Figures (memory.rs)\<close>

record device_memory =
  total_mib :: u64
  used_mib :: u64

definition free_mib :: "device_memory \<Rightarrow> u64" where
  "free_mib d = saturating_sub (total_mib d) (used_mib d)"

record measurement =
  resident_mib :: "u64 option"
  device_mib :: "u64 option"

definition unknown_measurement :: measurement where
  "unknown_measurement = \<lparr>resident_mib = None, device_mib = None\<rparr>"

definition largest_mib :: "measurement \<Rightarrow> u64 option" where
  "largest_mib m =
     (case (resident_mib m, device_mib m) of
        (Some a, Some b) \<Rightarrow> Some (max a b)
      | (Some a, None) \<Rightarrow> Some a
      | (None, b) \<Rightarrow> b)"

section \<open>Reading what the tools print (parse.rs)\<close>

definition kib_per_mib :: u64 where "kib_per_mib = 1024"
definition bytes_per_mib :: u64 where "bytes_per_mib = 1024 * 1024"

fun device_rows :: "string list \<Rightarrow> u64 \<Rightarrow> u64 \<Rightarrow> nat \<Rightarrow> device_memory option" where
  "device_rows [] total_sum used_sum devices =
     (if 0 < devices then Some \<lparr>total_mib = total_sum, used_mib = used_sum\<rparr> else None)"
| "device_rows (line # ls) total_sum used_sum devices =
     (case split_once '','' line of
        None \<Rightarrow> None
      | Some (left, right) \<Rightarrow>
          (case (parse_u64 (trim left), parse_u64 (trim right)) of
             (Some t, Some u) \<Rightarrow> device_rows ls (total_sum + t) (used_sum + u) (devices + 1)
           | _ \<Rightarrow> None))"

definition parse_device :: "string \<Rightarrow> device_memory option" where
  "parse_device text = device_rows (filter (\<lambda>line. trim line \<noteq> []) (lines text)) 0 0 0"

fun app_rows :: "string list \<Rightarrow> u32 \<Rightarrow> u64 option \<Rightarrow> u64 option" where
  "app_rows [] pid used = used"
| "app_rows (line # ls) pid used =
     (case split_once '','' line of
        None \<Rightarrow> app_rows ls pid used
      | Some (left, right) \<Rightarrow>
          if parse_u32 (trim left) \<noteq> Some pid then app_rows ls pid used
          else (case parse_u64 (trim right) of
                  None \<Rightarrow> None
                | Some mib \<Rightarrow> app_rows ls pid (Some (unwrap_or used 0 + mib))))"

definition compute_apps :: "string \<Rightarrow> u32 \<Rightarrow> u64 option" where
  "compute_apps text pid = app_rows (lines text) pid None"

definition scaled :: "string \<Rightarrow> u64 \<Rightarrow> u64 option" where
  "scaled text per_mib = map_option (\<lambda>count. count div per_mib) (parse_u64 (trim text))"

definition meminfo_total :: "string \<Rightarrow> u64 option" where
  "meminfo_total text =
     (case List.map_filter (strip_prefix ''MemTotal:'') (lines text) of
        [] \<Rightarrow> None
      | line # _ \<Rightarrow>
          (case split_whitespace line of [] \<Rightarrow> None | w # _ \<Rightarrow> scaled w kib_per_mib))"

definition tasklist_rss :: "string \<Rightarrow> u64 option" where
  "tasklist_rss text =
     (case filter (\<lambda>line. starts_with line [CHR 0x22]) (lines text) of
        [] \<Rightarrow> None
      | line # _ \<Rightarrow>
          (let last_part = (case rsplit_once [CHR 0x22, CHR '','', CHR 0x22] line of
                              None \<Rightarrow> line | Some (_, b) \<Rightarrow> b);
               field = trim_matches (\<lambda>c. c = CHR 0x22) (trim last_part);
               digits = filter is_ascii_digit field
           in if digits = [] \<or> \<not> ends_with field ''K'' then None
              else map_option (\<lambda>kib. kib div kib_per_mib) (parse_u64 digits)))"

section \<open>Asking the platform (command.rs)\<close>

datatype platform = Linux | Macos | Windows | Other_os

record machine =
  mc_platform :: platform
  mc_run :: "string \<Rightarrow> string list \<Rightarrow> string option"
  mc_read_file :: "string \<Rightarrow> string option"
  mc_on_search_path :: "string \<Rightarrow> string option"
  mc_is_file :: "string \<Rightarrow> bool"
  mc_var :: "string \<Rightarrow> string option"

definition exe_suffix :: "platform \<Rightarrow> string" where
  "exe_suffix p = (if p = Windows then ''.exe'' else [])"

definition nvidia_smi_name :: string where
  "nvidia_smi_name = ''nvidia-smi''"

text \<open>The two Windows directories are joined with that platform's separator.\<close>

definition known_locations :: "machine \<Rightarrow> string list" where
  "known_locations m =
     (let file = nvidia_smi_name @ exe_suffix (mc_platform m); sep = [CHR 0x5C] in
      if mc_platform m = Windows
      then map (\<lambda>dir. dir @ sep @ file)
             ((case mc_var m ''SystemRoot'' of None \<Rightarrow> [] | Some r \<Rightarrow> [r @ sep @ ''System32'']) @
              (case mc_var m ''ProgramFiles'' of
                 None \<Rightarrow> [] | Some p \<Rightarrow> [p @ sep @ ''NVIDIA Corporation'' @ sep @ ''NVSMI'']))
      else [''/usr/lib/wsl/lib/'' @ file])"

definition nvidia_smi :: "machine \<Rightarrow> string option" where
  "nvidia_smi m =
     or_else (mc_on_search_path m nvidia_smi_name) (find (mc_is_file m) (known_locations m))"

definition device_query :: string where
  "device_query = ''--query-gpu=memory.total,memory.used''"

definition process_query :: string where
  "process_query = ''--query-compute-apps=pid,used_memory''"

definition query :: "machine \<Rightarrow> string \<Rightarrow> string \<Rightarrow> string option" where
  "query m tool q = mc_run m tool [q, ''--format=csv,noheader,nounits'']"

definition machine_system_total_mib :: "machine \<Rightarrow> u64 option" where
  "machine_system_total_mib m =
     (case mc_platform m of
        Linux \<Rightarrow> Option.bind (mc_read_file m ''/proc/meminfo'') meminfo_total
      | Macos \<Rightarrow>
          Option.bind (mc_run m ''sysctl'' [''-n'', ''hw.memsize'']) (\<lambda>text. scaled text bytes_per_mib)
      | Windows \<Rightarrow>
          Option.bind
            (mc_run m ''powershell''
              [''-NoProfile'', ''-Command'',
               ''(Get-CimInstance Win32_ComputerSystem).TotalPhysicalMemory''])
            (\<lambda>text. scaled text bytes_per_mib)
      | Other_os \<Rightarrow> None)"

definition machine_resident_mib :: "machine \<Rightarrow> u32 \<Rightarrow> u64 option" where
  "machine_resident_mib m pid =
     (if mc_platform m = Windows
      then Option.bind
             (mc_run m ''tasklist'' [''/FI'', ''PID eq '' @ show_word pid, ''/FO'', ''CSV'', ''/NH''])
             tasklist_rss
      else Option.bind (mc_run m ''ps'' [''-o'', ''rss='', ''-p'', show_word pid])
             (\<lambda>text. scaled text kib_per_mib))"

section \<open>The probe (memory.rs)\<close>

record fixed =
  fx_device :: "device_memory option"
  fx_system_total_mib :: "u64 option"
  fx_measurement :: measurement

datatype probe =
    Fixed fixed
  | Machine "string option" \<comment> \<open>where \<open>nvidia-smi\<close> was found\<close>

definition probe_none :: probe where
  "probe_none =
     Fixed \<lparr>fx_device = None, fx_system_total_mib = None, fx_measurement = unknown_measurement\<rparr>"

definition probe_detect :: "machine \<Rightarrow> probe" where
  "probe_detect m = Machine (nvidia_smi m)"

fun probe_device :: "machine \<Rightarrow> probe \<Rightarrow> device_memory option" where
  "probe_device m (Fixed f) = fx_device f"
| "probe_device m (Machine tool) =
     Option.bind tool (\<lambda>t. Option.bind (query m t device_query) parse_device)"

fun probe_system_total_mib :: "machine \<Rightarrow> probe \<Rightarrow> u64 option" where
  "probe_system_total_mib m (Fixed f) = fx_system_total_mib f"
| "probe_system_total_mib m (Machine _) = machine_system_total_mib m"

fun probe_measure :: "machine \<Rightarrow> probe \<Rightarrow> u32 \<Rightarrow> measurement" where
  "probe_measure m (Fixed f) pid = fx_measurement f"
| "probe_measure m (Machine tool) pid =
     \<lparr>resident_mib = machine_resident_mib m pid,
      device_mib = Option.bind tool (\<lambda>t. Option.bind (query m t process_query) (\<lambda>text. compute_apps text pid))\<rparr>"

section \<open>The tools' tables are read back\<close>

text \<open>The rows \<open>nvidia-smi\<close> prints for either query: two numbers, a comma and a space between.\<close>

definition row :: "string \<Rightarrow> string \<Rightarrow> string" where
  "row a b = a @ '', '' @ b @ [newline]"

lemma digits_no_char: "list_all is_ascii_digit s \<Longrightarrow> \<not> is_ascii_digit c \<Longrightarrow> c \<notin> set s"
  by (auto simp: list_all_iff)

lemma show_word_digits: "list_all is_ascii_digit (show_word w)" "show_word w \<noteq> []"
  by (simp_all add: show_word_def show_nat_digits)

lemma row_chars: "\<not> is_ascii_digit (CHR '','')" "\<not> is_ascii_digit newline" "\<not> is_ascii_digit carriage"
  unfolding newline_def carriage_def by code_simp+

lemma show_word_plain:
  "newline \<notin> set (show_word w)" "last (show_word w) \<noteq> carriage"
  "visible (hd (show_word w))" "visible (last (show_word w))"
proof -
  have digits: "is_ascii_digit (last (show_word w))" "is_ascii_digit (hd (show_word w))"
    using show_word_digits [of w] by (simp_all add: list_all_iff)
  then show "visible (hd (show_word w))" "visible (last (show_word w))"
    by (simp_all add: visible_def is_ascii_digit_def)
  show "newline \<notin> set (show_word w)" using digits_no_char [OF show_word_digits(1) row_chars(2)] .
  show "last (show_word w) \<noteq> carriage" using digits(1) row_chars(3) by auto
qed

lemma row_lines:
  "lines (concat (map (\<lambda>(a, b). row (show_word (f a)) (show_word (g b))) rows)) =
     map (\<lambda>(a, b). show_word (f a) @ '', '' @ show_word (g b)) rows"
proof -
  have "newline \<notin> set '', ''" by (simp add: newline_def)
  then have "\<forall>l \<in> set (map (\<lambda>(a, b). show_word (f a) @ '', '' @ show_word (g b)) rows).
      newline \<notin> set l \<and> (l = [] \<or> last l \<noteq> carriage)"
    by (auto simp: show_word_plain show_word_digits(2))
  from lines_joined [OF this] show ?thesis by (simp add: row_def comp_def case_prod_unfold)
qed

lemma split_row: "split_once '','' (show_word a @ '', '' @ b) = Some (show_word a, CHR '' '' # b)"
  using split_once_char [OF digits_no_char [OF show_word_digits(1) row_chars(1)], of a "CHR '' '' # b"] by simp

lemma trim_row: "trim (show_word w) = show_word w" "trim (CHR '' '' # show_word w) = show_word w"
  by (rule trim_digits [OF show_word_digits])+

lemma device_rows_sum:
  "device_rows (map (\<lambda>(t, u). show_word t @ '', '' @ show_word u) rows) a b n =
     (if n + length rows = 0 then None
      else Some \<lparr>total_mib = a + sum_list (map fst rows), used_mib = b + sum_list (map snd rows)\<rparr>)"
  by (induction rows arbitrary: a b n) (auto simp: split_row trim_row add.assoc simp del: append.simps)

lemma app_rows_sum:
  "app_rows (map (\<lambda>(p, u). show_word p @ '', '' @ show_word u) rows) pid used =
     (let own = filter (\<lambda>(p, u). p = pid) rows
      in if own = [] then used else Some (unwrap_or used 0 + sum_list (map snd own)))"
  by (induction rows arbitrary: used)
    (auto simp: split_row trim_row add.assoc Let_def simp del: append.simps)

text \<open>
  The device tool's tables are read back exactly: every device's line is counted, once,
  in both sums, an empty table is unknown rather than zero; and of a table of processes only
  the asked-for process's lines are summed, over every device, unknown when it has none.
\<close>

theorem device_tables_roundtrip:
  "parse_device (concat (map (\<lambda>(t, u). row (show_word t) (show_word u)) devices)) =
     (if devices = [] then None
      else Some \<lparr>total_mib = sum_list (map fst devices), used_mib = sum_list (map snd devices)\<rparr>) \<and>
   compute_apps (concat (map (\<lambda>(p, u). row (show_word p) (show_word u)) apps)) pid =
     (let own = filter (\<lambda>(p, u). p = pid) apps
      in if own = [] then None else Some (sum_list (map snd own)))"
proof -
  have "trim (show_word a @ '', '' @ show_word b) = show_word a @ '', '' @ show_word b" for a b :: u64
    using trim_visible [of "show_word a @ '', '' @ show_word b" 0 0]
    by (simp add: hd_append show_word_digits(2) show_word_plain)
  then have "filter (\<lambda>line. trim line \<noteq> []) (map (\<lambda>(t, u). show_word t @ '', '' @ show_word u) devices) =
      map (\<lambda>(t, u). show_word t @ '', '' @ show_word u) (devices :: (u64 \<times> u64) list)"
    by (auto simp: filter_id_conv)
  then show ?thesis
    using row_lines [of id id devices] row_lines [of id id apps]
    by (simp add: parse_device_def compute_apps_def device_rows_sum app_rows_sum Let_def del: append.simps)
qed

end
