(* ===== verification/Tool.thy ===== *)
theory Tool
  imports Memory
begin

text \<open>
  Running one of the platform's tools (\<open>output\<close> of \<open>src/src/memory/command.rs\<close>): it is asked every
  twentieth of a second or so whether it has finished, and killed at its bound, while a thread of its
  own reads what it prints. What one poll says, the clock it is followed by, and what the reader has
  when the pipe closes are the operating system's.
\<close>

section \<open>The bounded run\<close>

definition tool_timeout :: duration where "tool_timeout = from_secs 5"
definition tool_poll :: duration where "tool_poll = from_millis 20"

datatype waited = Not_yet | Finished bool | Unwaitable

record tool_process =
  tp_waited :: "nat \<Rightarrow> waited"
  tp_started :: instant
  tp_now :: "nat \<Rightarrow> instant" \<comment> \<open>read after the poll, when that found the tool running\<close>
  tp_text :: "string option" \<comment> \<open>what joining the reader gives, or nothing when it panicked\<close>
  tp_pipe_closes :: bool \<comment> \<open>nothing but the tool itself holds its output open\<close>

text \<open>
  How a run ends: with its answer, and whether the tool was killed; past the clock; or never, since
  joining the reader waits for the end of the pipe.
\<close>

datatype tool_end = Answer "string option" bool | Past_clock | Reader_waits | Polls_on

definition joined :: "tool_process \<Rightarrow> tool_end \<Rightarrow> tool_end" where
  "joined tp e = (if tp_pipe_closes tp then e else Reader_waits)"

fun tool_loop :: "nat \<Rightarrow> tool_process \<Rightarrow> instant \<Rightarrow> nat \<Rightarrow> tool_end" where
  "tool_loop 0 tp deadline n = Polls_on"
| "tool_loop (Suc fuel) tp deadline n =
     (case tp_waited tp n of
        Finished success \<Rightarrow>
          joined tp (Answer (Option.bind (tp_text tp) (\<lambda>text. if success then Some text else None)) False)
      | Not_yet \<Rightarrow>
          if tp_now tp n < deadline then tool_loop fuel tp deadline (Suc n)
          else joined tp (Answer None True)
      | Unwaitable \<Rightarrow> joined tp (Answer None True))"

text \<open>\<open>None\<close> is a tool that could not be run.\<close>

definition tool_output :: "nat \<Rightarrow> tool_process option \<Rightarrow> tool_end" where
  "tool_output fuel spawned =
     (case spawned of
        None \<Rightarrow> Answer None False
      | Some tp \<Rightarrow>
          (case instant_plus (tp_started tp) tool_timeout of
             None \<Rightarrow> Past_clock
           | Some deadline \<Rightarrow> tool_loop fuel tp deadline 0))"

section \<open>It is bounded, and answers only what a finished tool printed\<close>

text \<open>Sleeping lasts at least as long as asked: between two polls the clock moves on by the pause.\<close>

definition sleeps :: "tool_process \<Rightarrow> bool" where
  "sleeps tp \<longleftrightarrow> tp_started tp \<le> tp_now tp 0 \<and> (\<forall>n. nanos (tp_now tp n) + tool_poll \<le> nanos (tp_now tp (Suc n)))"

lemma sleeps_nanos: "sleeps tp \<Longrightarrow> nanos (tp_started tp) + n * tool_poll \<le> nanos (tp_now tp n)"
proof (induction n)
  case 0
  then show ?case by (simp add: sleeps_def less_eq_instant_def)
next
  case (Suc n)
  from Suc.prems have "nanos (tp_now tp n) + tool_poll \<le> nanos (tp_now tp (Suc n))" by (simp add: sleeps_def)
  then show ?case using Suc.IH [OF Suc.prems] by simp
qed

text \<open>The poll that decides: the tool no longer runs, or the time is over.\<close>

definition decides :: "tool_process \<Rightarrow> instant \<Rightarrow> nat \<Rightarrow> bool" where
  "decides tp deadline n \<longleftrightarrow> tp_waited tp n \<noteq> Not_yet \<or> deadline \<le> tp_now tp n"

definition decision_at :: "tool_process \<Rightarrow> nat \<Rightarrow> tool_end" where
  "decision_at tp n = joined tp
     (case tp_waited tp n of
        Finished True \<Rightarrow> Answer (tp_text tp) False
      | Finished False \<Rightarrow> Answer None False
      | _ \<Rightarrow> Answer None True)"

lemma tool_loop_decides:
  assumes "decides tp deadline (n + k)" and "\<forall>j < k. \<not> decides tp deadline (n + j)" and "k < fuel"
  shows "tool_loop fuel tp deadline n = decision_at tp (n + k)"
  using assms
proof (induction k arbitrary: n fuel)
  case 0
  then obtain f where "fuel = Suc f" by (cases fuel) auto
  then show ?case using 0(1)
    by (cases "tp_text tp") (auto simp: decides_def decision_at_def split: waited.splits bool.splits)
next
  case (Suc k)
  then obtain f where f: "fuel = Suc f" by (cases fuel) auto
  have "\<not> decides tp deadline n" using Suc.prems(2) by (metis add_0_right zero_less_Suc)
  then have "tool_loop fuel tp deadline n = tool_loop f tp deadline (Suc n)"
    by (simp add: f decides_def not_le)
  moreover have "tool_loop f tp deadline (Suc n) = decision_at tp (Suc n + k)"
  proof (rule Suc.IH)
    show "decides tp deadline (Suc n + k)" using Suc.prems(1) by simp
    show "\<forall>j < k. \<not> decides tp deadline (Suc n + j)"
      using Suc.prems(2) by (metis Suc_less_eq add_Suc_right add_Suc_shift)
    show "k < f" using Suc.prems(3) f by simp
  qed
  ultimately show ?case by simp
qed

text \<open>
  C38: A tool that is run answers within its bound. Whatever it does, one of its first 251 polls decides;
  if the tool had finished well by then the answer is what it printed, and otherwise it is no answer; and the
  tool is killed exactly when it had not finished. It never returns when something else holds the
  tool's output open.
\<close>

theorem tool_output_bounded:
  assumes "sleeps tp" and "nanos (tp_started tp) + tool_timeout < instant_limit" and "250 < fuel"
  shows "\<exists>n \<le> 250. (\<forall>j < n. tp_waited tp j = Not_yet \<and> nanos (tp_now tp j) < nanos (tp_started tp) + tool_timeout) \<and>
    tool_output fuel (Some tp) =
      (if \<not> tp_pipe_closes tp then Reader_waits
       else if tp_waited tp n = Finished True then Answer (tp_text tp) False
       else Answer None (\<forall>success. tp_waited tp n \<noteq> Finished success)) \<and>
    (tp_waited tp n = Not_yet \<longrightarrow> nanos (tp_started tp) + tool_timeout \<le> nanos (tp_now tp n))"
proof -
  define deadline where "deadline = Instant (nanos (tp_started tp) + tool_timeout)"
  have timeout: "tool_timeout = 250 * tool_poll" by code_simp
  have "deadline \<le> tp_now tp 250"
    using sleeps_nanos [OF assms(1), of 250] by (simp add: deadline_def timeout less_eq_instant_def)
  then have "decides tp deadline 250" by (simp add: decides_def)
  define n where "n = (LEAST n. decides tp deadline n)"
  have n: "decides tp deadline n" "n \<le> 250" "\<forall>j < n. \<not> decides tp deadline j"
    using \<open>decides tp deadline 250\<close> unfolding n_def by (auto intro: LeastI Least_le dest: not_less_Least)
  have "tool_loop fuel tp deadline 0 = decision_at tp n"
    using tool_loop_decides [of tp deadline 0 n fuel] n assms(3) by simp
  then have "tool_output fuel (Some tp) = decision_at tp n"
    using assms(2) by (simp add: tool_output_def instant_plus_def deadline_def)
  moreover have "decision_at tp n =
      (if \<not> tp_pipe_closes tp then Reader_waits
       else if tp_waited tp n = Finished True then Answer (tp_text tp) False
       else Answer None (\<forall>success. tp_waited tp n \<noteq> Finished success))"
    by (auto simp: decision_at_def joined_def split: waited.splits bool.splits)
  moreover have "\<forall>j < n. tp_waited tp j = Not_yet \<and> nanos (tp_now tp j) < nanos (tp_started tp) + tool_timeout"
    using n(3) by (simp add: decides_def deadline_def less_eq_instant_def not_le)
  moreover have "tp_waited tp n = Not_yet \<longrightarrow> nanos (tp_started tp) + tool_timeout \<le> nanos (tp_now tp n)"
    using n(1) by (auto simp: decides_def deadline_def less_eq_instant_def)
  ultimately show ?thesis using n(2) by auto
qed

definition hanging_tool :: tool_process where
  "hanging_tool = \<lparr>tp_waited = (\<lambda>_. Not_yet), tp_started = Instant 0, tp_now = (\<lambda>n. Instant (n * tool_poll)),
     tp_text = Some [], tp_pipe_closes = True\<rparr>"

lemma hanging_sleeps: "sleeps hanging_tool" "nanos (tp_started hanging_tool) + tool_timeout < instant_limit"
proof -
  show "sleeps hanging_tool" by (simp add: sleeps_def hanging_tool_def less_eq_instant_def)
  show "nanos (tp_started hanging_tool) + tool_timeout < instant_limit" by code_simp
qed

theorem tool_output_bounded_witness: "tool_output 251 (Some hanging_tool) = Answer None True"
  using tool_output_bounded [OF hanging_sleeps, of 251] by (auto simp: hanging_tool_def)

end
