(* ===== verification/Queue.thy ===== *)
theory Queue
  imports Rust_Str
begin

text \<open>
  How a load can fail (\<open>Failure\<close> and \<open>Liveness\<close> of \<open>src/src/launch.rs\<close>), how a setting is
  read from the environment, and how long a request waits for room (\<open>src/src/queue.rs\<close>).
  The environment is a function from a variable's name to its bytes.
\<close>

datatype failure =
    NotReady (failure_text: string)
  | Unavailable (failure_text: string)
  | Refused (failure_text: string)
  | Contended (failure_text: string)

text \<open>An exited process is known by the text of the status it left.\<close>

datatype liveness = Running | Exited string

type_synonym environment = "string \<Rightarrow> string option"

text \<open>\<open>var_os(..).filter(|value| !value.is_empty())\<close>: an empty value is an unset one.\<close>

definition env_value :: "environment \<Rightarrow> string \<Rightarrow> string option" where
  "env_value env name = (case env name of None \<Rightarrow> None | Some v \<Rightarrow> if v = [] then None else Some v)"

datatype wait = Wait (wait_duration: duration)

definition wait_variable :: string where
  "wait_variable = ''MAESTRO_ADMISSION_WAIT_SECONDS''"

definition default_wait :: duration where
  "default_wait = from_secs 60"

definition wait_configured :: "environment \<Rightarrow> failure + wait" where
  "wait_configured env =
     (case env_value env wait_variable of
        None \<Rightarrow> Inr (Wait default_wait)
      | Some v \<Rightarrow>
          (let txt = from_utf8_lossy v in
           case parse_u64 (trim txt) of
             Some seconds \<Rightarrow> Inr (Wait (from_secs seconds))
           | None \<Rightarrow>
               Inl (Unavailable (wait_variable @ '' carries '' @ quoted txt
                 @ '', which is not a whole number of seconds; unset it for the default of ''
                 @ show_nat (as_secs default_wait) @ '', or set 0 to refuse rather than wait''))))"

definition waits :: "wait \<Rightarrow> bool" where
  "waits w \<longleftrightarrow> wait_duration w \<noteq> 0"

lemma env_value_Some: "env_value env name = Some v \<longleftrightarrow> env name = Some v \<and> v \<noteq> []"
  by (auto simp: env_value_def split: option.splits)

end
