(* ===== verification/Admission.thy ===== *)
theory Admission
  imports Memory Queue Catalog
begin

text \<open>
  Deciding what may be loaded and what must be unloaded first (\<open>src/src/admission.rs\<close>), what
  the decision is about (\<open>admission/subject.rs\<close>), what there is to fit into
  (\<open>admission/room.rs\<close>) and where the ceiling comes from (\<open>admission/budget.rs\<close>). Mebibytes
  are 64-bit words throughout, as in the source.
\<close>

section \<open>What a decision is about (subject.rs)\<close>

record loaded =
  l_id :: string
  l_cost_mib :: u64
  l_device_mib :: u64
  l_residency :: residency
  l_busy :: bool
  l_last_used :: instant

record wanted =
  wt_id :: string
  wt_cost_mib :: u64
  wt_device_mib :: u64

definition layers_on_device :: "string list" where
  "layers_on_device = [''n-gpu-layers'', ''ngl'', ''gpu-layers'']"

definition device_need_mib :: "entry \<Rightarrow> u64" where
  "device_need_mib e =
     (let off_device =
            list_ex (\<lambda>key. case map_of (e_flags e) key of None \<Rightarrow> False | Some v \<Rightarrow> trim v = ''0'')
              layers_on_device
      in if off_device then 0 else ucast (e_memory_estimate_mib e))"

definition loaded_of :: "entry \<Rightarrow> bool \<Rightarrow> instant \<Rightarrow> measurement \<Rightarrow> loaded" where
  "loaded_of e busy last_used measured =
     (let estimate = ucast (e_memory_estimate_mib e);
          off_device = (device_need_mib e = 0);
          measured_cost = (if off_device then device_mib measured else largest_mib measured)
      in \<lparr>l_id = e_id e,
          l_cost_mib = (case measured_cost of None \<Rightarrow> estimate | Some mib \<Rightarrow> max mib estimate),
          l_device_mib = unwrap_or (device_mib measured) (device_need_mib e),
          l_residency = e_residency e, l_busy = busy, l_last_used = last_used\<rparr>)"

definition wanted_of :: "entry \<Rightarrow> wanted" where
  "wanted_of e =
     \<lparr>wt_id = e_id e, wt_cost_mib = ucast (e_memory_estimate_mib e), wt_device_mib = device_need_mib e\<rparr>"

section \<open>What there is to fit into (room.rs)\<close>

record room =
  rm_limit :: "u64 option"
  rm_held :: u64
  rm_device_free :: "u64 option"

record freed =
  fr_cost :: u64
  fr_device :: u64

definition nothing_freed :: freed where
  "nothing_freed = \<lparr>fr_cost = 0, fr_device = 0\<rparr>"

datatype short = Ledger | Device

definition short_of :: "room \<Rightarrow> wanted \<Rightarrow> freed \<Rightarrow> short option" where
  "short_of r w f =
     (let ledger_fits =
            (case rm_limit r of
               None \<Rightarrow> True
             | Some limit \<Rightarrow> saturating_sub (rm_held r) (fr_cost f) + wt_cost_mib w \<le> limit);
          device_fits =
            (case rm_device_free r of
               None \<Rightarrow> True
             | Some free \<Rightarrow> wt_device_mib w \<le> free + fr_device f)
      in if \<not> ledger_fits then Some Ledger
         else if \<not> device_fits then Some Device
         else None)"

definition holder :: "loaded \<Rightarrow> string" where
  "holder l =
     (let why = (if l_busy l then '', busy''
                 else (case l_residency l of Resident \<Rightarrow> '', resident'' | OnDemand \<Rightarrow> []))
      in l_id l @ '' ('' @ show_word (l_cost_mib l) @ '' MiB'' @ why @ '')'')"

definition holders :: "loaded list \<Rightarrow> string" where
  "holders ls = join '', '' (map holder ls)"

definition reserved_mib :: "loaded list \<Rightarrow> u64" where
  "reserved_mib ls = sum_list (map l_cost_mib (filter (\<lambda>l. l_residency l = Resident) ls))"

text \<open>The three messages \<open>refusal\<close> chooses between; the reader is told which entries are in the way.\<close>

definition never_message :: "wanted \<Rightarrow> u64 \<Rightarrow> u64 \<Rightarrow> string list \<Rightarrow> string" where
  "never_message w limit reserved residents =
     quoted (wt_id w) @ '' needs '' @ show_word (wt_cost_mib w)
     @ '' MiB and can never load: of the budget's '' @ show_word limit @ '' MiB, ''
     @ show_word reserved @ '' MiB is permanently reserved by resident entries (''
     @ join '', '' residents @ ''), leaving '' @ show_word (limit - reserved)
     @ ''. Unloading the rest would not be enough and waiting cannot help -- make one of ''
     @ ''those entries on-demand, or lower this one's estimate or context''"

definition ledger_message :: "wanted \<Rightarrow> u64 \<Rightarrow> loaded list \<Rightarrow> string" where
  "ledger_message w limit ls =
     quoted (wt_id w) @ '' needs '' @ show_word (wt_cost_mib w) @ '' MiB and the budget of ''
     @ show_word limit @ '' MiB is held by: '' @ holders ls"

definition device_message :: "wanted \<Rightarrow> u64 \<Rightarrow> u64 \<Rightarrow> loaded list \<Rightarrow> string" where
  "device_message w free after ls =
     quoted (wt_id w) @ '' needs '' @ show_word (wt_device_mib w)
     @ '' MiB on the device, which has '' @ show_word free @ '' MiB free and would have ''
     @ show_word after
     @ '' MiB once every idle model was unloaded; the rest is held by something outside this router''
     @ (if ls = [] then [] else '', beside: '' @ holders ls)"

definition refusal :: "room \<Rightarrow> short \<Rightarrow> wanted \<Rightarrow> freed \<Rightarrow> loaded list \<Rightarrow> string" where
  "refusal r s w f ls =
     (case s of
        Ledger \<Rightarrow>
          (let limit = unwrap_or (rm_limit r) 0; reserved = reserved_mib ls in
           if limit < wt_cost_mib w + reserved
           then never_message w limit reserved (map l_id (filter (\<lambda>l. l_residency l = Resident) ls))
           else ledger_message w limit ls)
      | Device \<Rightarrow>
          (let free = unwrap_or (rm_device_free r) 0
           in device_message w free (free + fr_device f) ls))"

section \<open>The ceiling (budget.rs)\<close>

record budget =
  b_limit_mib :: "u32 option"
  b_probe :: probe
  b_source :: string

definition budget_variable :: string where
  "budget_variable = ''MAESTRO_MEMORY_BUDGET_MIB''"

definition min_device_margin_mib :: u64 where "min_device_margin_mib = 1024"
definition system_share_percent :: u64 where "system_share_percent = 80"

definition budget_with_probe :: "u32 option \<Rightarrow> probe \<Rightarrow> budget" where
  "budget_with_probe limit p =
     \<lparr>b_limit_mib = limit, b_probe = p, b_source = ''stated directly''\<rparr>"

definition budget_new :: "u32 option \<Rightarrow> budget" where
  "budget_new limit = budget_with_probe limit probe_none"

definition budget_derived :: "machine \<Rightarrow> probe \<Rightarrow> budget" where
  "budget_derived m p =
     (let (limit_mib, source) =
            (case probe_device m p of
               Some device \<Rightarrow>
                 (let margin = max (total_mib device div 10) min_device_margin_mib;
                      limit = saturating_sub (total_mib device) margin
                  in (if 0 < limit then Some limit else None,
                      ''derived from the device ('' @ show_word (total_mib device)
                      @ '' MiB total less a '' @ show_word margin @ '' MiB margin)''))
             | None \<Rightarrow>
                 (case probe_system_total_mib m p of
                    Some total_sum \<Rightarrow>
                      (let limit = total_sum * system_share_percent div 100
                       in (if 0 < limit then Some limit else None,
                           ''derived from system memory ('' @ show_word system_share_percent
                           @ '' percent of '' @ show_word total_sum @ '' MiB)''))
                  | None \<Rightarrow> (None, ''nothing on this machine says what it holds'')))
      in \<lparr>b_limit_mib = map_option (\<lambda>limit. unwrap_or (try_u32 limit) (-1)) limit_mib,
          b_probe = p, b_source = source\<rparr>)"

definition budget_configured :: "environment \<Rightarrow> machine \<Rightarrow> failure + budget" where
  "budget_configured env m =
     (case env_value env budget_variable of
        None \<Rightarrow> Inr (budget_derived m (probe_detect m))
      | Some v \<Rightarrow>
          (let txt = from_utf8_lossy v in
           case parse_u32 (trim txt) of
             Some limit \<Rightarrow>
               Inr \<lparr>b_limit_mib = Some limit, b_probe = probe_detect m,
                    b_source = ''from '' @ budget_variable\<rparr>
           | None \<Rightarrow>
               Inl (Unavailable (budget_variable @ '' carries '' @ quoted txt
                 @ '', which is not a number of mebibytes; unset it for a budget the machine sets, ''
                 @ ''or give it a whole number''))))"

section \<open>The decision (admission.rs)\<close>

datatype decision =
    Fits
  | Unload "string list"
  | Blocked string
  | Refuse string

definition candidate :: "wanted \<Rightarrow> loaded \<Rightarrow> bool" where
  "candidate w l \<longleftrightarrow> l_residency l = OnDemand \<and> \<not> l_busy l \<and> l_id l \<noteq> wt_id w"

definition admit_candidates :: "wanted \<Rightarrow> loaded list \<Rightarrow> loaded list" where
  "admit_candidates w ls = sort_key l_last_used (filter (candidate w) ls)"

fun choose_unloads :: "room \<Rightarrow> wanted \<Rightarrow> loaded list \<Rightarrow> freed \<Rightarrow> string list \<Rightarrow> freed \<times> string list" where
  "choose_unloads r w [] f unload = (f, unload)"
| "choose_unloads r w (c # cs) f unload =
     (if short_of r w f = None then (f, unload)
      else choose_unloads r w cs
             \<lparr>fr_cost = fr_cost f + l_cost_mib c, fr_device = fr_device f + l_device_mib c\<rparr>
             (unload @ [l_id c]))"

definition room_for :: "budget \<Rightarrow> loaded list \<Rightarrow> u64 option \<Rightarrow> room" where
  "room_for b ls device_free =
     \<lparr>rm_limit = map_option ucast (b_limit_mib b), rm_held = sum_list (map l_cost_mib ls),
      rm_device_free = device_free\<rparr>"

definition decide :: "budget \<Rightarrow> loaded list \<Rightarrow> wanted \<Rightarrow> u64 option \<Rightarrow> decision" where
  "decide b ls w device_free =
     (let room = room_for b ls device_free in
      if short_of room w nothing_freed = None then Fits
      else case choose_unloads room w (admit_candidates w ls) nothing_freed [] of
        (f, unload) \<Rightarrow>
          (case short_of room w f of
             None \<Rightarrow> Unload unload
           | Some s \<Rightarrow>
               (let message = refusal room s w f ls;
                    frees_itself =
                      list_ex (\<lambda>l. l_residency l = OnDemand \<and> l_busy l \<and> l_id l \<noteq> wt_id w) ls
                in if frees_itself then Blocked message else Refuse message)))"

definition admit :: "budget \<Rightarrow> loaded list \<Rightarrow> wanted \<Rightarrow> u64 option \<Rightarrow> decision" where
  "admit b ls w device_free =
     (if list_ex (\<lambda>held. l_id held = wt_id w) ls then Fits
      else case map_option ucast (b_limit_mib b) of
        Some (limit :: u64) \<Rightarrow>
          if limit < wt_cost_mib w
          then Refuse (quoted (wt_id w) @ '' is estimated at '' @ show_word (wt_cost_mib w)
                 @ '' MiB, which is more than the whole budget of '' @ show_word limit
                 @ '' MiB; nothing can be unloaded to make it fit'')
          else decide b ls w device_free
      | None \<Rightarrow> decide b ls w device_free)"

end
