(* ===== verification/Policy.thy ===== *)
theory Policy
  imports Rust_Prelude "HOL-Library.Multiset"
begin

text \<open>
  The eviction order, as an interface: two components pick loaded models to unload (admission,
  which needs room, and the idle window, which needs nothing), and both promise that the one
  that answered longest ago goes first. The promise is stated once, with what follows from
  it, and each component's own list is an instance.
\<close>

locale coldest_first =
  fixes eligible :: "'c \<Rightarrow> 'l \<Rightarrow> bool"
    and last_used :: "'l \<Rightarrow> instant"
    and candidates :: "'c \<Rightarrow> 'l list \<Rightarrow> 'l list"
  assumes same_models: "mset (candidates c ls) = mset (filter (eligible c) ls)"
    and coldest_sorted: "sorted (map last_used (candidates c ls))"
    and ties_in_order: "filter (\<lambda>l. last_used l = t) (candidates c ls) =
           filter (\<lambda>l. last_used l = t) (filter (eligible c) ls)"
begin

lemma set_candidates: "set (candidates c ls) = {l \<in> set ls. eligible c l}"
  using same_models [of c ls] by (metis set_filter set_mset_mset)

lemma candidates_empty: "candidates c ls = [] \<longleftrightarrow> (\<forall>l \<in> set ls. \<not> eligible c l)"
  using set_candidates [of c ls] by (metis (mono_tags, lifting) empty_Collect_eq set_empty)

lemma colder_first:
  assumes "a \<in> set (take n (candidates c ls))" and "b \<in> set (drop n (candidates c ls))"
  shows "last_used a \<le> last_used b"
proof -
  have "sorted (map last_used (take n (candidates c ls)) @ map last_used (drop n (candidates c ls)))"
    using coldest_sorted [of c ls] by (metis append_take_drop_id map_append)
  then show ?thesis using assms by (auto simp: sorted_append)
qed

text \<open>What a prefix and the rest hold is what the eligible models hold together.\<close>

lemma eligible_sum:
  "sum_list (map f (candidates c ls)) = sum_list (map f (filter (eligible c) ls))" for f :: "'l \<Rightarrow> nat"
proof -
  have "mset (map f (candidates c ls)) = mset (map f (filter (eligible c) ls))"
    using same_models [of c ls] by simp
  then show ?thesis by (metis sum_mset_sum_list)
qed

lemma prefix_sum_le:
  "sum_list (map f (take n (candidates c ls))) \<le> sum_list (map f (filter (eligible c) ls))" for f :: "'l \<Rightarrow> nat"
proof -
  have "sum_list (map f (take n (candidates c ls))) \<le> sum_list (map f (candidates c ls))"
    by (rule sum_list_take_le)
  also have "\<dots> = sum_list (map f (filter (eligible c) ls))" by (rule eligible_sum)
  finally show ?thesis .
qed

lemma distinct_candidates: "distinct (map f ls) \<Longrightarrow> distinct (map f (candidates c ls))"
proof -
  assume "distinct (map f ls)"
  then have "distinct (map f (filter (eligible c) ls))" by (rule distinct_map_filter)
  moreover have "mset (map f (candidates c ls)) = mset (map f (filter (eligible c) ls))"
    using same_models [of c ls] by simp
  ultimately show ?thesis by (metis distinct_count_atmost_1 set_mset_mset)
qed

text \<open>Removing a prefix by name leaves what the prefix did not hold.\<close>

lemma remaining_sum:
  fixes f :: "'l \<Rightarrow> nat" and name :: "'l \<Rightarrow> string"
  assumes "distinct (map name ls)"
  shows "sum_list (map f (filter (\<lambda>l. name l \<notin> name ` set (take n (candidates c ls))) ls))
     + sum_list (map f (take n (candidates c ls))) = sum_list (map f ls)"
proof -
  let ?chosen = "take n (candidates c ls)"
  have sub: "set ?chosen \<subseteq> set ls"
    using set_candidates [of c ls] by (auto dest: in_set_takeD)
  have inj: "inj_on name (set ls)" and d: "distinct ls" using assms by (auto simp: distinct_map)
  have same: "name l \<in> name ` set ?chosen \<longleftrightarrow> l \<in> set ?chosen" if "l \<in> set ls" for l
    using inj sub that by (auto simp: inj_on_def)
  have "distinct ?chosen"
    using distinct_candidates [OF assms, of c] by (simp add: distinct_map)
  moreover have "distinct (filter (\<lambda>l. l \<in> set ?chosen) ls)" using d by simp
  moreover have "set (filter (\<lambda>l. l \<in> set ?chosen) ls) = set ?chosen" using sub by auto
  ultimately have "mset (filter (\<lambda>l. l \<in> set ?chosen) ls) = mset ?chosen"
    by (metis set_eq_iff_mset_eq_distinct)
  then have chosen: "sum_list (map f (filter (\<lambda>l. l \<in> set ?chosen) ls)) = sum_list (map f ?chosen)"
    by (metis mset_map sum_mset_sum_list)
  have "filter (\<lambda>l. name l \<notin> name ` set ?chosen) ls = filter (\<lambda>l. \<not> l \<in> set ?chosen) ls"
    using same by (auto intro: filter_cong)
  then show ?thesis
    using sum_list_filter_split [of f "\<lambda>l. l \<in> set ?chosen" ls] chosen by simp
qed

end

text \<open>The way both components build the list: filter, then a stable sort by time.\<close>

lemma sorted_filter_coldest:
  "coldest_first eligible last_used (\<lambda>c ls. sort_key last_used (filter (eligible c) ls))"
  by unfold_locales (simp_all add: sort_key_stable)

end
