(* ===== verification/Admission_Laws.thy ===== *)
theory Admission_Laws
  imports Admission Policy
begin

text \<open>
  What admission promises: a decision to unload names only idle on-demand models, the coldest
  ones and no more than are needed, and leaves the wanted model fitting on the ledger and on
  the device; a refusal and a wait are told apart as the code tells them apart; and the
  budget a machine sets is below what the machine holds. The words are read as numbers under
  \<open>no_wrap\<close>: the figures of one machine sum below \<open>2^64\<close> mebibytes.
\<close>

interpretation admitting: coldest_first candidate l_last_used admit_candidates
  unfolding admit_candidates_def by (rule sorted_filter_coldest)

section \<open>Fitting, in numbers\<close>

definition cost_sum :: "loaded list \<Rightarrow> nat" where
  "cost_sum ls = sum_list (map (\<lambda>l. unat (l_cost_mib l)) ls)"

definition device_sum :: "loaded list \<Rightarrow> nat" where
  "device_sum ls = sum_list (map (\<lambda>l. unat (l_device_mib l)) ls)"

definition no_wrap :: "loaded list \<Rightarrow> wanted \<Rightarrow> u64 option \<Rightarrow> bool" where
  "no_wrap ls w free \<longleftrightarrow>
     cost_sum ls + unat (wt_cost_mib w) < 2 ^ 64 \<and> unat (unwrap_or free 0) + device_sum ls < 2 ^ 64"

text \<open>The wanted model beside what is left, within the ceiling and the device's room.\<close>

definition fits_beside :: "budget \<Rightarrow> loaded list \<Rightarrow> wanted \<Rightarrow> u64 option \<Rightarrow> loaded list \<Rightarrow> bool" where
  "fits_beside b ls w free gone \<longleftrightarrow>
     (case b_limit_mib b of
        None \<Rightarrow> True
      | Some limit \<Rightarrow> cost_sum ls - cost_sum gone + unat (wt_cost_mib w) \<le> unat limit) \<and>
     (case free of None \<Rightarrow> True | Some room \<Rightarrow> unat (wt_device_mib w) \<le> unat room + device_sum gone)"

definition freed_by :: "loaded list \<Rightarrow> freed" where
  "freed_by gone = \<lparr>fr_cost = sum_list (map l_cost_mib gone), fr_device = sum_list (map l_device_mib gone)\<rparr>"

lemma cost_sum_take: "cost_sum (take n (admit_candidates w ls)) \<le> cost_sum ls"
  and device_sum_take: "device_sum (take n (admit_candidates w ls)) \<le> device_sum ls"
  unfolding cost_sum_def device_sum_def
  by (rule le_trans [OF admitting.prefix_sum_le sum_list_filter_le])+

lemma unat_freed:
  assumes "no_wrap ls w free"
  shows "unat (fr_cost (freed_by (take n (admit_candidates w ls)))) = cost_sum (take n (admit_candidates w ls))"
    and "unat (fr_device (freed_by (take n (admit_candidates w ls)))) = device_sum (take n (admit_candidates w ls))"
proof -
  let ?gone = "take n (admit_candidates w ls)"
  have "sum_list (map unat (map l_cost_mib ?gone)) < 2 ^ LENGTH(64)"
    "sum_list (map unat (map l_device_mib ?gone)) < 2 ^ LENGTH(64)"
    using assms cost_sum_take [of n w ls] device_sum_take [of n w ls]
    by (simp_all add: no_wrap_def cost_sum_def device_sum_def comp_def)
  from this [THEN unat_sum_list_exact]
  show "unat (fr_cost (freed_by ?gone)) = cost_sum ?gone" "unat (fr_device (freed_by ?gone)) = device_sum ?gone"
    by (simp_all add: freed_by_def cost_sum_def device_sum_def comp_def)
qed

lemma short_of_fits:
  assumes "no_wrap ls w free"
  shows "short_of (room_for b ls free) w (freed_by (take n (admit_candidates w ls))) = None \<longleftrightarrow>
     fits_beside b ls w free (take n (admit_candidates w ls))"
proof -
  let ?gone = "take n (admit_candidates w ls)" and ?f = "freed_by (take n (admit_candidates w ls))"
  have held: "unat (sum_list (map l_cost_mib ls)) = cost_sum ls"
    using assms unat_sum_list_exact [of "map l_cost_mib ls"]
    by (simp add: no_wrap_def cost_sum_def comp_def)
  have ledger: "unat (saturating_sub (sum_list (map l_cost_mib ls)) (fr_cost ?f) + wt_cost_mib w)
      = cost_sum ls - cost_sum ?gone + unat (wt_cost_mib w)"
  proof (subst unat_plus_exact)
    have "cost_sum ls - cost_sum ?gone + unat (wt_cost_mib w) \<le> cost_sum ls + unat (wt_cost_mib w)" by simp
    then show "unat (saturating_sub (sum_list (map l_cost_mib ls)) (fr_cost ?f)) + unat (wt_cost_mib w) < 2 ^ LENGTH(64)"
      using assms by (simp add: held unat_freed [OF assms] no_wrap_def del: diff_le_self)
  qed (simp add: held unat_freed [OF assms])
  have device: "unat (room + fr_device ?f) = unat room + device_sum ?gone" if "free = Some room" for room
    using assms that device_sum_take [of n w ls]
    by (subst unat_plus_exact) (simp_all add: unat_freed [OF assms] no_wrap_def)
  show ?thesis
    using ledger device
    by (auto simp: short_of_def room_for_def fits_beside_def word_le_nat_alt split: option.splits)
qed

section \<open>The chosen prefix\<close>

lemma freed_by_step:
  "\<lparr>fr_cost = fr_cost f + l_cost_mib c, fr_device = fr_device f + l_device_mib c\<rparr> = freed_by (gone @ [c])"
  if "f = freed_by gone"
  using that by (simp add: freed_by_def)

lemma choose_prefix:
  assumes "choose_unloads r w cs (freed_by gone) (map l_id gone) = (f, ids)"
  shows "\<exists>n \<le> length cs. f = freed_by (gone @ take n cs) \<and> ids = map l_id (gone @ take n cs) \<and>
     (\<forall>k < n. short_of r w (freed_by (gone @ take k cs)) \<noteq> None) \<and>
     (n = length cs \<or> short_of r w f = None)"
  using assms
proof (induction cs arbitrary: gone)
  case Nil
  then show ?case by simp
next
  case (Cons c cs)
  show ?case
  proof (cases "short_of r w (freed_by gone) = None")
    case True
    with Cons.prems have "f = freed_by gone" "ids = map l_id gone" by simp_all
    with True show ?thesis by (intro exI [of _ 0]) simp
  next
    case False
    have "choose_unloads r w cs (freed_by (gone @ [c])) (map l_id (gone @ [c])) = (f, ids)"
      using Cons.prems False freed_by_step [OF refl, of gone c] by simp
    from Cons.IH [OF this] obtain n where n: "n \<le> length cs" "f = freed_by ((gone @ [c]) @ take n cs)"
      "ids = map l_id ((gone @ [c]) @ take n cs)"
      "\<forall>k < n. short_of r w (freed_by ((gone @ [c]) @ take k cs)) \<noteq> None"
      "n = length cs \<or> short_of r w f = None"
      by blast
    have "\<forall>k < Suc n. short_of r w (freed_by (gone @ take k (c # cs))) \<noteq> None"
      using n(4) False by (auto simp: less_Suc_eq_0_disj)
    with n show ?thesis by (intro exI [of _ "Suc n"]) simp
  qed
qed

text \<open>
  The whole decision, as a case distinction over what fits: already loaded, over the whole
  budget, room now, room once a least prefix of the candidates is gone, or none.
\<close>

definition over_budget :: "budget \<Rightarrow> wanted \<Rightarrow> bool" where
  "over_budget b w \<longleftrightarrow> (case b_limit_mib b of None \<Rightarrow> False | Some limit \<Rightarrow> unat limit < unat (wt_cost_mib w))"

definition busy_holder :: "wanted \<Rightarrow> loaded list \<Rightarrow> bool" where
  "busy_holder w ls \<longleftrightarrow> (\<exists>l \<in> set ls. l_residency l = OnDemand \<and> l_busy l \<and> l_id l \<noteq> wt_id w)"

lemma admit_decide:
  "admit b ls w free =
     (if wt_id w \<in> l_id ` set ls then Fits
      else if over_budget b w then
        Refuse (quoted (wt_id w) @ '' is estimated at '' @ show_word (wt_cost_mib w)
                 @ '' MiB, which is more than the whole budget of '' @ show_word (ucast (the (b_limit_mib b)) :: u64)
                 @ '' MiB; nothing can be unloaded to make it fit'')
      else decide b ls w free)"
proof -
  have "list_ex (\<lambda>held. l_id held = wt_id w) ls \<longleftrightarrow> wt_id w \<in> l_id ` set ls"
    by (force simp: list_ex_iff)
  moreover have "(ucast (limit :: u32) :: u64) < wt_cost_mib w \<longleftrightarrow> unat limit < unat (wt_cost_mib w)" for limit
    by (simp add: word_less_nat_alt)
  ultimately show ?thesis
    by (auto simp: admit_def over_budget_def split: option.split)
qed

lemma decide_cases:
  assumes "no_wrap ls w free"
  shows "(fits_beside b ls w free [] \<and> decide b ls w free = Fits) \<or>
    (\<exists>n. 0 < n \<and> n \<le> length (admit_candidates w ls) \<and>
       decide b ls w free = Unload (map l_id (take n (admit_candidates w ls))) \<and>
       fits_beside b ls w free (take n (admit_candidates w ls)) \<and>
       (\<forall>k < n. \<not> fits_beside b ls w free (take k (admit_candidates w ls)))) \<or>
    (\<not> fits_beside b ls w free (admit_candidates w ls) \<and>
     (\<exists>s. short_of (room_for b ls free) w (freed_by (admit_candidates w ls)) = Some s \<and>
        decide b ls w free =
        (if busy_holder w ls then Blocked else Refuse)
          (refusal (room_for b ls free) s w (freed_by (admit_candidates w ls)) ls)))"
proof -
  let ?cs = "admit_candidates w ls" and ?r = "room_for b ls free"
  have none_freed: "nothing_freed = freed_by []" by (simp add: nothing_freed_def freed_by_def)
  note fits = short_of_fits [OF assms, of b]
  have fits0: "short_of ?r w (freed_by []) = None \<longleftrightarrow> fits_beside b ls w free []"
    using fits [of 0] by simp
  have all: "short_of ?r w (freed_by ?cs) = None \<longleftrightarrow> fits_beside b ls w free ?cs"
    using fits [of "length ?cs"] by simp
  have busy: "list_ex (\<lambda>l. l_residency l = OnDemand \<and> l_busy l \<and> l_id l \<noteq> wt_id w) ls = busy_holder w ls"
    by (auto simp: busy_holder_def list_ex_iff)
  show ?thesis
  proof (cases "short_of ?r w (freed_by []) = None")
    case True
    then have "decide b ls w free = Fits" unfolding decide_def none_freed Let_def by simp
    with True fits0 show ?thesis by blast
  next
    case short: False
    obtain f ids where run: "choose_unloads ?r w ?cs (freed_by []) [] = (f, ids)" by fastforce
    from choose_prefix [of ?r w ?cs "[]" f ids] run obtain n where
      n: "n \<le> length ?cs" "f = freed_by (take n ?cs)" "ids = map l_id (take n ?cs)"
        "\<forall>k < n. short_of ?r w (freed_by (take k ?cs)) \<noteq> None"
        "n = length ?cs \<or> short_of ?r w f = None"
      by auto
    show ?thesis
    proof (cases "short_of ?r w f = None")
      case True
      then have "0 < n" using n(2) short by (cases n) auto
      moreover have "decide b ls w free = Unload ids"
        using short run True unfolding decide_def none_freed Let_def by simp
      moreover have "fits_beside b ls w free (take n ?cs)" using fits n(2) True by simp
      moreover have "\<forall>k < n. \<not> fits_beside b ls w free (take k ?cs)" using n(4) fits by simp
      ultimately show ?thesis using n(1,3) by blast
    next
      case False
      then have f: "f = freed_by ?cs" using n(2,5) by auto
      then obtain s where s: "short_of ?r w (freed_by ?cs) = Some s" using False by auto
      have "decide b ls w free = (if busy_holder w ls then Blocked else Refuse) (refusal ?r s w (freed_by ?cs) ls)"
        using short run s f unfolding decide_def none_freed busy Let_def by simp
      moreover have "\<not> fits_beside b ls w free ?cs" using all s by simp
      ultimately show ?thesis using s by blast
    qed
  qed
qed

section \<open>What a decision means\<close>

lemma admit_unload_cases:
  assumes "no_wrap ls w free" and "admit b ls w free = Unload ids"
  obtains n where "0 < n" "n \<le> length (admit_candidates w ls)" "ids = map l_id (take n (admit_candidates w ls))"
    "fits_beside b ls w free (take n (admit_candidates w ls))"
    "\<And>k. k < n \<Longrightarrow> \<not> fits_beside b ls w free (take k (admit_candidates w ls))"
proof -
  have "decide b ls w free = Unload ids" using assms(2) by (auto simp: admit_decide split: if_splits)
  with decide_cases [OF assms(1), of b] that show ?thesis by (auto split: if_splits)
qed

lemma remaining_cost:
  "distinct (map l_id ls) \<Longrightarrow> ids = map l_id (take n (admit_candidates w ls)) \<Longrightarrow>
     cost_sum (filter (\<lambda>l. l_id l \<notin> set ids) ls) = cost_sum ls - cost_sum (take n (admit_candidates w ls))"
  using admitting.remaining_sum [of l_id ls "\<lambda>l. unat (l_cost_mib l)" n w] by (simp add: cost_sum_def)

lemma admit_unload_fits:
  assumes "no_wrap ls w free" and "distinct (map l_id ls)" and "admit b ls w free = Unload ids"
    and "b_limit_mib b = Some limit"
  shows "cost_sum (filter (\<lambda>l. l_id l \<notin> set ids) ls) + unat (wt_cost_mib w) \<le> unat limit"
proof -
  obtain n where "ids = map l_id (take n (admit_candidates w ls))"
      "fits_beside b ls w free (take n (admit_candidates w ls))"
    by (rule admit_unload_cases [OF assms(1,3)])
  with remaining_cost [OF assms(2), of ids n] assms(4) show ?thesis by (simp add: fits_beside_def)
qed

lemma admit_fits:
  "no_wrap ls w free \<Longrightarrow> wt_id w \<notin> l_id ` set ls \<Longrightarrow> admit b ls w free = Fits \<Longrightarrow> fits_beside b ls w free []"
  using decide_cases [of ls w free b] by (auto simp: admit_decide split: if_splits)

text \<open>
  C8: Unloading is safe, enough and least. When admission answers with a list to unload, the
  list names models that are on-demand, idle and not the wanted one; each answered no later
  than any candidate left loaded; with them gone the wanted model is within the budget beside
  everything that stays loaded and within the device's room; and no shorter prefix would do.
\<close>

theorem admit_unload_sound:
  assumes "no_wrap ls w free" and "distinct (map l_id ls)" and "admit b ls w free = Unload ids"
  shows "\<exists>chosen. ids = map l_id chosen \<and> ids \<noteq> [] \<and>
    (\<forall>l \<in> set chosen. l \<in> set ls \<and> l_residency l = OnDemand \<and> \<not> l_busy l \<and> l_id l \<noteq> wt_id w) \<and>
    (\<forall>l \<in> set chosen. \<forall>k \<in> set ls. candidate w k \<and> l_id k \<notin> set ids \<longrightarrow> l_last_used l \<le> l_last_used k) \<and>
    (\<forall>limit. b_limit_mib b = Some limit \<longrightarrow>
       cost_sum (filter (\<lambda>l. l_id l \<notin> set ids) ls) + unat (wt_cost_mib w) \<le> unat limit) \<and>
    (\<forall>room. free = Some room \<longrightarrow> unat (wt_device_mib w) \<le> unat room + device_sum chosen) \<and>
    (\<forall>k < length chosen. \<not> fits_beside b ls w free (take k chosen))"
proof -
  let ?cs = "admit_candidates w ls"
  obtain n where n: "0 < n" "n \<le> length ?cs" "ids = map l_id (take n ?cs)" "fits_beside b ls w free (take n ?cs)"
      "\<And>k. k < n \<Longrightarrow> \<not> fits_beside b ls w free (take k ?cs)"
    using admit_unload_cases [OF assms(1,3)] by blast
  let ?chosen = "take n ?cs"
  have ids: "set ids = l_id ` set ?chosen" by (simp add: n(3))
  have sub: "l \<in> set ls \<and> candidate w l" if "l \<in> set ?chosen" for l
    using that admitting.set_candidates [of w ls] by (auto dest: in_set_takeD)
  have colder: "l_last_used l \<le> l_last_used k"
    if "l \<in> set ?chosen" "k \<in> set ls" "candidate w k" "l_id k \<notin> set ids" for l k
  proof -
    have "k \<in> set ?cs" using that(2,3) by (simp add: admitting.set_candidates)
    then have "k \<in> set ?chosen \<or> k \<in> set (drop n ?cs)"
      by (metis append_take_drop_id Un_iff set_append)
    with that(4) have "k \<in> set (drop n ?cs)" by (auto simp: ids)
    with that(1) show ?thesis by (rule admitting.colder_first)
  qed
  note remaining = remaining_cost [OF assms(2) n(3)]
  have least: "\<not> fits_beside b ls w free (take k ?chosen)" if "k < length ?chosen" for k
    using that n(2) n(5) [of k] by simp
  have "?chosen \<noteq> []" using n(1,2) by (cases ?cs) auto
  then show ?thesis
    using n(3,4) sub colder remaining least
    by (intro exI [of _ ?chosen]) (auto simp: fits_beside_def candidate_def)
qed

lemma fits_beside_more:
  assumes "fits_beside b ls w free (take n gone)"
  shows "fits_beside b ls w free gone"
proof -
  have "cost_sum gone = cost_sum (take n gone) + cost_sum (drop n gone)"
      "device_sum gone = device_sum (take n gone) + device_sum (drop n gone)"
    by (metis append_take_drop_id cost_sum_def map_append sum_list_append)
      (metis append_take_drop_id device_sum_def map_append sum_list_append)
  then have "cost_sum (take n gone) \<le> cost_sum gone" "device_sum (take n gone) \<le> device_sum gone" by simp_all
  with assms show ?thesis by (auto simp: fits_beside_def split: option.splits)
qed

text \<open>
  C13: Each answer means one situation, and each situation gets its answer: served as it is exactly when the model is loaded
  already or is within the budget and the room now; unloading exactly when it is not, but would be with every candidate gone;
  blocked exactly when not even then, and an on-demand model other than the wanted one is busy; refused exactly when no
  such model is, or when the estimate alone is over the budget.
\<close>

theorem admit_classified:
  assumes "no_wrap ls w free"
  shows "(admit b ls w free = Fits \<longleftrightarrow>
       wt_id w \<in> l_id ` set ls \<or> \<not> over_budget b w \<and> fits_beside b ls w free []) \<and>
    ((\<exists>ids. admit b ls w free = Unload ids) \<longleftrightarrow>
       wt_id w \<notin> l_id ` set ls \<and> \<not> over_budget b w \<and> \<not> fits_beside b ls w free [] \<and>
       fits_beside b ls w free (admit_candidates w ls)) \<and>
    ((\<exists>why. admit b ls w free = Blocked why) \<longleftrightarrow>
       wt_id w \<notin> l_id ` set ls \<and> \<not> over_budget b w \<and>
       \<not> fits_beside b ls w free (admit_candidates w ls) \<and> busy_holder w ls) \<and>
    ((\<exists>why. admit b ls w free = Refuse why) \<longleftrightarrow>
       wt_id w \<notin> l_id ` set ls \<and>
       (over_budget b w \<or> \<not> fits_beside b ls w free (admit_candidates w ls) \<and> \<not> busy_holder w ls))"
proof (cases "wt_id w \<in> l_id ` set ls \<or> over_budget b w")
  case True
  then show ?thesis by (auto simp: admit_decide)
next
  case False
  then have admit: "admit b ls w free = decide b ls w free" by (simp add: admit_decide)
  have more: "fits_beside b ls w free [] \<Longrightarrow> fits_beside b ls w free (admit_candidates w ls)"
    by (rule fits_beside_more [where n = 0]) simp
  show ?thesis
    using decide_cases [OF assms(1), of b] False more unfolding admit
    by (elim disjE exE conjE) (auto split: if_splits dest: spec [where x = 0] fits_beside_more)
qed

text \<open>
  With no ceiling and no device to ask, admission never refuses, waits or evicts.
\<close>

theorem admit_unlimited:
  "b_limit_mib b = None \<Longrightarrow> admit b ls w None = Fits"
  by (simp add: admit_def decide_def short_of_def room_for_def Let_def)

lemma reserved_exact: "cost_sum ls < 2 ^ 64 \<Longrightarrow>
    unat (reserved_mib ls) = cost_sum (filter (\<lambda>l. l_residency l = Resident) ls)"
proof -
  assume "cost_sum ls < 2 ^ 64"
  then have "cost_sum (filter (\<lambda>l. l_residency l = Resident) ls) < 2 ^ 64"
    using sum_list_filter_le [of "\<lambda>l. unat (l_cost_mib l)" "\<lambda>l. l_residency l = Resident" ls]
    by (simp add: cost_sum_def)
  then show ?thesis
    using unat_sum_list_exact [of "map l_cost_mib (filter (\<lambda>l. l_residency l = Resident) ls)"]
    by (simp add: reserved_mib_def cost_sum_def comp_def)
qed

lemma residents_stay:
  "cost_sum (filter (\<lambda>l. l_residency l = Resident) ls) \<le> cost_sum ls - cost_sum (admit_candidates w ls)"
proof -
  have "cost_sum (admit_candidates w ls) = cost_sum (filter (candidate w) ls)"
    unfolding cost_sum_def by (rule admitting.eligible_sum)
  moreover have "cost_sum (filter (\<lambda>l. l_residency l = Resident) ls) + cost_sum (filter (candidate w) ls) \<le> cost_sum ls"
    by (induction ls) (auto simp: cost_sum_def candidate_def)
  ultimately show ?thesis by simp
qed

text \<open>
  C39: A request that can never be served is made to wait. When the residents alone leave no
  room for the wanted model, no amount of waiting helps and the message says so; yet if any
  other on-demand model happens to be busy, the answer is the one that queues, not the refusal.
\<close>

theorem blocked_forever:
  assumes wrap: "no_wrap ls w free" and "wt_id w \<notin> l_id ` set ls" and limit: "b_limit_mib b = Some limit"
    and alone: "unat (wt_cost_mib w) \<le> unat limit"
    and never: "unat limit < cost_sum (filter (\<lambda>l. l_residency l = Resident) ls) + unat (wt_cost_mib w)"
    and busy: "busy_holder w ls"
  shows "admit b ls w free =
    Blocked (never_message w (ucast limit) (reserved_mib ls) (map l_id (filter (\<lambda>l. l_residency l = Resident) ls)))"
proof -
  let ?cs = "admit_candidates w ls" and ?r = "room_for b ls free"
  have "\<not> over_budget b w" using limit alone by (simp add: over_budget_def)
  then have admit: "admit b ls w free = decide b ls w free" using assms(2) by (simp add: admit_decide)
  have short: "\<not> fits_beside b ls w free gone" if "cost_sum gone \<le> cost_sum ?cs" for gone
    using residents_stay [of ls w] never limit that by (auto simp: fits_beside_def)
  have "cost_sum (take k ?cs) \<le> cost_sum ?cs" for k unfolding cost_sum_def by (rule sum_list_take_le)
  then have least: "\<not> fits_beside b ls w free (take k ?cs)" for k by (rule short)
  have none: "\<not> fits_beside b ls w free []" using least [of 0] by simp
  from decide_cases [OF wrap, of b] obtain s where
    s: "short_of ?r w (freed_by ?cs) = Some s" "decide b ls w free = Blocked (refusal ?r s w (freed_by ?cs) ls)"
    using none least busy by (elim disjE exE conjE) (simp_all only: if_True, blast+)
  have gone: "unat (fr_cost (freed_by ?cs)) = cost_sum ?cs"
    using unat_freed(1) [OF wrap, of "length ?cs"] by simp
  have total: "cost_sum ls + unat (wt_cost_mib w) < 2 ^ 64" using wrap by (simp add: no_wrap_def)
  have held: "unat (sum_list (map l_cost_mib ls)) = cost_sum ls"
    using total unat_sum_list_exact [of "map l_cost_mib ls"] by (simp add: cost_sum_def comp_def)
  have reserved: "unat (reserved_mib ls) = cost_sum (filter (\<lambda>l. l_residency l = Resident) ls)"
    using total by (intro reserved_exact) simp
  have "unat (saturating_sub (sum_list (map l_cost_mib ls)) (fr_cost (freed_by ?cs)) + wt_cost_mib w)
      = cost_sum ls - cost_sum ?cs + unat (wt_cost_mib w)"
    using total by (subst unat_plus_exact) (simp_all add: held gone less_imp_diff_less trans_less_add1)
  then have "s = Ledger"
    using s(1) limit never residents_stay [of ls w]
    by (auto simp: short_of_def room_for_def word_le_nat_alt Let_def split: if_splits)
  moreover have "unat (wt_cost_mib w + reserved_mib ls) = unat (wt_cost_mib w) + unat (reserved_mib ls)"
    using total residents_stay [of ls w] by (intro unat_plus_exact) (simp add: reserved)
  ultimately have "refusal ?r s w (freed_by ?cs) ls =
      never_message w (ucast limit) (reserved_mib ls) (map l_id (filter (\<lambda>l. l_residency l = Resident) ls))"
    using limit never reserved by (simp add: refusal_def room_for_def word_less_nat_alt Let_def)
  with s(2) admit show ?thesis by simp
qed

text \<open>
  C40: The permanent refusal can name more room than there is. A resident measured above the
  budget makes the reservation exceed the limit, and the room the message says is left is the
  difference wrapped around \<open>2^64\<close> (where overflow is checked, the subtraction panics).
\<close>

theorem refusal_underflow:
  assumes "rm_limit r = Some limit" and "limit < reserved_mib ls"
    and "unat (wt_cost_mib w) + unat (reserved_mib ls) < 2 ^ 64"
  shows "\<exists>before after. refusal r Ledger w f ls =
      before @ '', leaving '' @ show_nat (2 ^ 64 + unat limit - unat (reserved_mib ls)) @ after"
proof -
  have less: "unat limit < unat (reserved_mib ls)" using assms(2) by (simp add: word_less_nat_alt)
  have "unat (wt_cost_mib w + reserved_mib ls) = unat (wt_cost_mib w) + unat (reserved_mib ls)"
    using assms(3) by (intro unat_plus_exact) simp
  then have over: "limit < wt_cost_mib w + reserved_mib ls" using less by (simp add: word_less_nat_alt)
  have "unat (limit - reserved_mib ls) = 2 ^ 64 + unat limit - unat (reserved_mib ls)"
    using less by (simp add: unat_sub_if')
  then have left: "show_word (limit - reserved_mib ls) = show_nat (2 ^ 64 + unat limit - unat (reserved_mib ls))"
    by (simp only: show_word_def)
  have split: "\<exists>before after. a @ b @ c @ d @ e @ '' MiB is permanently reserved by resident entries ('' @ g @
      ''), leaving '' @ x @ h = before @ '', leaving '' @ x @ after" for a b c d e g h x :: string
    by (intro exI [of _ "a @ b @ c @ d @ e @ '' MiB is permanently reserved by resident entries ('' @ g @ '')''"] exI [of _ h])
      simp
  show ?thesis
    unfolding refusal_def short.case Let_def assms(1) unwrap_or.simps if_P [OF over] never_message_def left
    using split [of "quoted (wt_id w)" "'' needs ''" "show_word (wt_cost_mib w)"
      "'' MiB and can never load: of the budget's '' @ show_word limit @ '' MiB, ''" "show_word (reserved_mib ls)"]
    by (simp only: append_assoc)
qed

section \<open>Costs and ceilings\<close>

text \<open>
  A measurement raises what a model is charged and never lowers it: the cost is the larger
  of the estimate and the measurement that counts (the device side alone for a model pinned
  to the processor), and what unloading frees on the device is what was seen there.
\<close>

theorem loaded_of_cost:
  "unat (l_cost_mib (loaded_of e busy last_used m)) =
     max (unat (e_memory_estimate_mib e))
       (if device_need_mib e = 0 then unat (unwrap_or (device_mib m) 0)
        else max (unat (unwrap_or (device_mib m) 0)) (unat (unwrap_or (resident_mib m) 0))) \<and>
   l_device_mib (loaded_of e busy last_used m) = unwrap_or (device_mib m) (wt_device_mib (wanted_of e)) \<and>
   wt_cost_mib (wanted_of e) \<le> l_cost_mib (loaded_of e busy last_used m)"
proof -
  have "(case measured of None \<Rightarrow> estimate | Some mib \<Rightarrow> max mib estimate) = max estimate (unwrap_or measured 0)"
    for measured and estimate :: u64
    by (cases measured) (simp_all add: max.commute)
  moreover have "unwrap_or (largest_mib m) 0 = max (unwrap_or (device_mib m) 0) (unwrap_or (resident_mib m) 0)"
    by (cases "device_mib m"; cases "resident_mib m") (simp_all add: largest_mib_def max.commute)
  ultimately show ?thesis
    by (auto simp: loaded_of_def wanted_of_def Let_def)
qed

text \<open>
  A budget the machine sets leaves a margin: on a device, at least a tenth of its total
  and at least 1024 MiB stay outside it (no ceiling below that); on system memory, at least a
  fifth does; and a machine that reports nothing sets none.
\<close>

theorem budget_derived_bounds:
  "case probe_device m p of
     Some d \<Rightarrow>
       (case b_limit_mib (budget_derived m p) of
          Some limit \<Rightarrow> 0 < unat limit \<and> unat limit + max (unat (total_mib d) div 10) 1024 \<le> unat (total_mib d)
        | None \<Rightarrow> unat (total_mib d) \<le> max (unat (total_mib d) div 10) 1024)
   | None \<Rightarrow>
       (case probe_system_total_mib m p of
          Some t \<Rightarrow>
            unat t < 2 ^ 57 \<longrightarrow>
            (case b_limit_mib (budget_derived m p) of
               Some limit \<Rightarrow> 0 < unat limit \<and> unat limit * 100 \<le> unat t * 80
             | None \<Rightarrow> unat t * 80 < 100)
        | None \<Rightarrow> b_limit_mib (budget_derived m p) = None)"
proof -
  have "unat (- 1 :: u32) = 4294967295" by (simp add: unsigned_minus_1_eq_mask mask_eq_exp_minus_1)
  then have cap: "unat (unwrap_or (try_u32 (limit :: u64)) (-1)) \<le> unat limit" for limit
    by (simp add: try_u32_def unsigned_ucast_eq take_bit_eq_mod)
  have pos: "0 < limit \<Longrightarrow> 0 < unat (unwrap_or (try_u32 (limit :: u64)) (-1))" for limit
    using \<open>unat (- 1 :: u32) = 4294967295\<close> by (simp add: try_u32_def unsigned_ucast_eq take_bit_eq_mod word_less_nat_alt)
  show ?thesis
  proof (cases "probe_device m p")
    case (Some d)
    let ?margin = "max (total_mib d div 10) min_device_margin_mib"
    have margin: "unat ?margin = max (unat (total_mib d) div 10) 1024"
      by (simp add: min_device_margin_mib_def unat_div_distrib)
    let ?limit = "saturating_sub (total_mib d) ?margin"
    have limit: "unat ?limit = unat (total_mib d) - unat ?margin" by simp
    have b: "b_limit_mib (budget_derived m p) =
        (if 0 < ?limit then Some (unwrap_or (try_u32 ?limit) (-1)) else None)"
      using Some by (simp add: budget_derived_def Let_def)
    show ?thesis
    proof (cases "0 < ?limit")
      case True
      then have "0 < unat ?limit" by (simp add: word_less_nat_alt)
      then have "unat ?limit + unat ?margin = unat (total_mib d)" unfolding limit by simp
      with True cap [of ?limit] pos [of ?limit] show ?thesis
        by (simp only: Some option.case b if_True margin [symmetric]) simp
    next
      case False
      then have "?limit = 0" by (simp only: word_greater_zero_iff not_not)
      then have "unat ?limit = 0" by (simp only: unsigned_0)
      then have "unat (total_mib d) \<le> unat ?margin" unfolding limit by (simp only: diff_is_0_eq)
      with False show ?thesis by (simp only: Some option.case b if_False margin)
    qed
  next
    case None
    show ?thesis
    proof (cases "probe_system_total_mib m p")
      case (Some t)
      let ?limit = "t * system_share_percent div 100"
      have limit: "unat ?limit = unat t * 80 div 100" if "unat t < 2 ^ 57"
        using that by (simp add: unat_div_distrib system_share_percent_def unat_mult_exact)
      then show ?thesis
        using None Some cap [of ?limit] pos [of ?limit]
        by (auto simp: budget_derived_def Let_def word_less_nat_alt)
    next
      case None
      then show ?thesis using \<open>probe_device m p = None\<close> by (simp add: budget_derived_def)
    qed
  qed
qed

section \<open>Applied\<close>

definition sample_model :: "string \<Rightarrow> u64 \<Rightarrow> residency \<Rightarrow> bool \<Rightarrow> nat \<Rightarrow> loaded" where
  "sample_model i mib r busy t =
     \<lparr>l_id = i, l_cost_mib = mib, l_device_mib = mib, l_residency = r, l_busy = busy, l_last_used = Instant t\<rparr>"

definition sample_loaded :: "loaded list" where
  "sample_loaded = [sample_model ''a'' 400 OnDemand False 5, sample_model ''b'' 300 OnDemand False 2, sample_model ''r'' 200 Resident True 1]"

definition sample_wanted :: wanted where
  "sample_wanted = \<lparr>wt_id = ''c'', wt_cost_mib = 300, wt_device_mib = 300\<rparr>"

lemma sample_admission:
  "no_wrap sample_loaded sample_wanted (Some 100)" "distinct (map l_id sample_loaded)"
  "admit (budget_new (Some 1000)) sample_loaded sample_wanted (Some 100) = Unload [''b'']"
  by code_simp+

theorem admit_unload_sound_witness:
  "\<exists>chosen :: loaded list. [''b''] = map l_id chosen \<and> (\<forall>l \<in> set chosen. l_residency l = OnDemand \<and> \<not> l_busy l)"
proof -
  from admit_unload_sound [OF sample_admission] obtain chosen where
    "[''b''] = map l_id chosen" "\<forall>l \<in> set chosen. l \<in> set sample_loaded \<and> l_residency l = OnDemand \<and>
       \<not> l_busy l \<and> l_id l \<noteq> wt_id sample_wanted"
    by (elim exE conjE)
  then show ?thesis by (intro exI [of _ chosen]) simp
qed

theorem admit_classified_witness:
  "''c'' \<notin> l_id ` set sample_loaded \<and> \<not> fits_beside (budget_new (Some 1000)) sample_loaded sample_wanted (Some 100) [] \<and>
   fits_beside (budget_new (Some 1000)) sample_loaded sample_wanted (Some 100) (admit_candidates sample_wanted sample_loaded)"
  using admit_classified [OF sample_admission(1), of "budget_new (Some 1000)"] sample_admission(3)
  by (simp add: sample_wanted_def)

theorem admit_unlimited_witness:
  "admit (budget_new None) sample_loaded sample_wanted None = Fits"
  by (rule admit_unlimited) (simp add: budget_new_def budget_with_probe_def)

definition stuck_loaded :: "loaded list" where
  "stuck_loaded = [sample_model ''b'' 100 OnDemand True 2, sample_model ''r'' 800 Resident False 1]"

lemma stuck_admission:
  "no_wrap stuck_loaded sample_wanted None" "wt_id sample_wanted \<notin> l_id ` set stuck_loaded"
  "b_limit_mib (budget_new (Some 1000)) = Some 1000" "unat (wt_cost_mib sample_wanted) \<le> unat (1000 :: u32)"
  "unat (1000 :: u32) < cost_sum (filter (\<lambda>l. l_residency l = Resident) stuck_loaded) + unat (wt_cost_mib sample_wanted)"
  "busy_holder sample_wanted stuck_loaded"
  by code_simp+

theorem blocked_forever_witness:
  "\<exists>message. admit (budget_new (Some 1000)) stuck_loaded sample_wanted None = Blocked message"
  using blocked_forever [OF stuck_admission] by blast

definition oversized_room :: room where
  "oversized_room = \<lparr>rm_limit = Some 1000, rm_held = 1200, rm_device_free = None\<rparr>"

theorem refusal_underflow_witness:
  "\<exists>before after. refusal oversized_room Ledger sample_wanted nothing_freed [sample_model ''r'' 1200 Resident False 1] =
     before @ '', leaving '' @ show_nat 18446744073709551416 @ after"
proof -
  have "rm_limit oversized_room = Some 1000" "(1000 :: u64) < reserved_mib [sample_model ''r'' 1200 Resident False 1]"
    "unat (wt_cost_mib sample_wanted) + unat (reserved_mib [sample_model ''r'' 1200 Resident False 1]) < 2 ^ 64"
    "2 ^ 64 + unat (1000 :: u64) - unat (reserved_mib [sample_model ''r'' 1200 Resident False 1]) = 18446744073709551416"
    by code_simp+
  from refusal_underflow [OF this(1-3)] this(4) show ?thesis by simp
qed

definition sample_probe :: probe where
  "sample_probe = Fixed \<lparr>fx_device = Some \<lparr>total_mib = 32607, used_mib = 0\<rparr>, fx_system_total_mib = None,
     fx_measurement = unknown_measurement\<rparr>"

theorem budget_derived_bounds_witness:
  "\<forall>m. case b_limit_mib (budget_derived m sample_probe) of None \<Rightarrow> False | Some limit \<Rightarrow> unat limit + 3260 \<le> 32607"
proof
  fix m
  show "case b_limit_mib (budget_derived m sample_probe) of None \<Rightarrow> False | Some limit \<Rightarrow> unat limit + 3260 \<le> 32607"
    using budget_derived_bounds [of m sample_probe] by (simp add: sample_probe_def split: option.splits)
qed

end
