(* ===== verification/Idle.thy ===== *)
theory Idle
  imports Admission Policy
begin

text \<open>
  How long an on-demand model may sit unused, and what that expires (\<open>src/src/idle.rs\<close>). The
  expired models are an instance of the eviction order of \<open>Policy\<close>, as admission's
  candidates are.
\<close>

datatype idle_window = IdleWindow (window_duration: "duration option")

record limits =
  lm_budget :: budget
  lm_idle_window :: idle_window
  lm_wait :: wait

definition idle_variable :: string where
  "idle_variable = ''MAESTRO_IDLE_UNLOAD_SECONDS''"

definition idle_window_new :: "duration \<Rightarrow> idle_window" where
  "idle_window_new d = (if d = 0 then IdleWindow None else IdleWindow (Some d))"

definition window_seconds :: "idle_window \<Rightarrow> nat option" where
  "window_seconds w = map_option as_secs (window_duration w)"

definition outlived :: "instant \<times> duration \<Rightarrow> loaded \<Rightarrow> bool" where
  "outlived c l \<longleftrightarrow>
     l_residency l = OnDemand \<and> \<not> l_busy l \<and> snd c \<le> duration_since (fst c) (l_last_used l)"

definition idle_candidates :: "instant \<times> duration \<Rightarrow> loaded list \<Rightarrow> loaded list" where
  "idle_candidates c ls = sort_key l_last_used (filter (outlived c) ls)"

definition expired :: "idle_window \<Rightarrow> loaded list \<Rightarrow> instant \<Rightarrow> string list" where
  "expired w ls now =
     (case window_duration w of
        None \<Rightarrow> []
      | Some window \<Rightarrow> map l_id (idle_candidates (now, window) ls))"

definition idle_configured :: "environment \<Rightarrow> failure + idle_window" where
  "idle_configured env =
     (case env_value env idle_variable of
        None \<Rightarrow> Inr (IdleWindow None)
      | Some v \<Rightarrow>
          (let txt = from_utf8_lossy v in
           case parse_u64 (trim txt) of
             Some seconds \<Rightarrow> Inr (idle_window_new (from_secs seconds))
           | None \<Rightarrow>
               Inl (Unavailable (idle_variable @ '' carries '' @ quoted txt
                 @ '', which is not a whole number of seconds; unset it for no idle window, or give ''
                 @ ''it a whole number''))))"

interpretation idling: coldest_first outlived l_last_used idle_candidates
  unfolding idle_candidates_def by (rule sorted_filter_coldest)

text \<open>
  The idle window expires exactly the on-demand models nobody is reading that have gone
  unused for at least the window, coldest first; a resident or busy model never, and with no
  window (unset, empty or zero) nothing.
\<close>

theorem expired_exact:
  "case window_duration w of
     None \<Rightarrow> expired w ls now = []
   | Some window \<Rightarrow>
       \<exists>gone. expired w ls now = map l_id gone \<and> sorted (map l_last_used gone) \<and>
         set gone = {l \<in> set ls. l_residency l = OnDemand \<and> \<not> l_busy l \<and>
                       nanos (l_last_used l) + window \<le> nanos now \<or>
                     l \<in> set ls \<and> l_residency l = OnDemand \<and> \<not> l_busy l \<and> window = 0}"
proof (cases "window_duration w")
  case None
  then show ?thesis by (simp add: expired_def)
next
  case (Some window)
  have "window \<le> nanos now - t \<longleftrightarrow> t + window \<le> nanos now \<or> window = 0" for t by auto
  then have "set (idle_candidates (now, window) ls) = {l \<in> set ls. l_residency l = OnDemand \<and> \<not> l_busy l \<and>
                       nanos (l_last_used l) + window \<le> nanos now \<or>
                     l \<in> set ls \<and> l_residency l = OnDemand \<and> \<not> l_busy l \<and> window = 0}"
    by (auto simp: idling.set_candidates outlived_def duration_since_def)
  then show ?thesis
    using Some idling.coldest_sorted [of "(now, window)" ls]
    by (simp add: expired_def) blast
qed

end
