(* ===== verification/Slots.thy ===== *)
theory Slots
  imports Idle
begin

text \<open>
  Which child is loaded for which entry (\<open>src/src/proxy/loaded.rs\<close>, \<open>proxy/slots/mod.rs\<close>,
  \<open>slots/room.rs\<close>, \<open>slots/start.rs\<close>, \<open>slots/sweep.rs\<close>, \<open>slots/view.rs\<close>). An
  \<open>Arc<Child>\<close> is a child and a count kept beside it: the store \<open>wd_strong\<close> holds the strong
  count of every process handle, cloning adds one, dropping takes one away, and the drop
  that reaches zero ends the process (\<open>wd_ended\<close> records them in order). Everything the code
  does while it holds one slot's lock is one function from world to world; what other threads
  may do between two of those is the business of \<open>Slots_Machine\<close>. The lines printed for
  the operator are not part of the world.
\<close>

section \<open>Children and their handles\<close>

record child =
  ch_id :: string
  ch_port :: u16
  ch_pid :: u32
  ch_handle :: nat \<comment> \<open>which allocation: the identity a clone shares\<close>

record slot_child =
  sc_child :: child
  sc_last_used :: instant
  sc_measured :: measurement

record world =
  wd_slots :: "string \<Rightarrow> slot_child option"
  wd_strong :: "nat \<Rightarrow> nat"
  wd_process :: "nat \<Rightarrow> liveness"
  wd_ended :: "nat list"

definition clone_child :: "child \<Rightarrow> world \<Rightarrow> world" where
  "clone_child c w = w\<lparr>wd_strong := (wd_strong w)(ch_handle c := Suc (wd_strong w (ch_handle c)))\<rparr>"

definition drop_child :: "child \<Rightarrow> world \<Rightarrow> world" where
  "drop_child c w =
     (let n = wd_strong w (ch_handle c) - 1;
          w = w\<lparr>wd_strong := (wd_strong w)(ch_handle c := n)\<rparr>
      in if n = 0 then w\<lparr>wd_ended := wd_ended w @ [ch_handle c]\<rparr> else w)"

definition put_slot :: "string \<Rightarrow> slot_child option \<Rightarrow> world \<Rightarrow> world" where
  "put_slot i held w = w\<lparr>wd_slots := (wd_slots w)(i := held)\<rparr>"

section \<open>One slot (loaded.rs)\<close>

definition busy :: "world \<Rightarrow> child \<Rightarrow> bool" where
  "busy w c \<longleftrightarrow> 1 < wd_strong w (ch_handle c)"

text \<open>\<open>Arc::get_mut\<close> succeeds when this handle is the only one; only then is the process asked.\<close>

definition exited :: "world \<Rightarrow> slot_child \<Rightarrow> string option" where
  "exited w held =
     (if wd_strong w (ch_handle (sc_child held)) = 1
      then (case wd_process w (ch_handle (sc_child held)) of
              Exited status \<Rightarrow> Some status | Running \<Rightarrow> None)
      else None)"

definition live_child :: "string \<Rightarrow> instant \<Rightarrow> world \<Rightarrow> child option \<times> world" where
  "live_child i now w =
     (case wd_slots w i of
        None \<Rightarrow> (None, w)
      | Some held \<Rightarrow>
          if exited w held \<noteq> None
          then (None, drop_child (sc_child held) (put_slot i None w))
          else (Some (sc_child held),
                clone_child (sc_child held) (put_slot i (Some (held\<lparr>sc_last_used := now\<rparr>)) w)))"

definition take_if_exited :: "string \<Rightarrow> world \<Rightarrow> (slot_child \<times> string) option \<times> world" where
  "take_if_exited i w =
     (case wd_slots w i of
        None \<Rightarrow> (None, w)
      | Some held \<Rightarrow>
          (case exited w held of
             None \<Rightarrow> (None, w)
           | Some status \<Rightarrow> (Some (held, status), put_slot i None w)))"

datatype take = Taken slot_child | Take_busy | Take_empty

definition take_if_idle :: "string \<Rightarrow> (slot_child \<Rightarrow> bool) \<Rightarrow> world \<Rightarrow> take \<times> world" where
  "take_if_idle i also w =
     (case wd_slots w i of
        Some held \<Rightarrow>
          if busy w (sc_child held) \<or> \<not> also held then (Take_busy, w)
          else (Taken held, put_slot i None w)
      | None \<Rightarrow> (Take_empty, w))"

section \<open>What is loaded (view.rs)\<close>

definition snapshot :: "entry list \<Rightarrow> (entry \<Rightarrow> slot_child \<Rightarrow> 'a) \<Rightarrow> world \<Rightarrow> 'a list" where
  "snapshot es project w =
     List.map_filter (\<lambda>e. map_option (project e) (wd_slots w (e_id e))) es"

definition held_as :: "world \<Rightarrow> entry \<Rightarrow> slot_child \<Rightarrow> loaded" where
  "held_as w e held = loaded_of e (busy w (sc_child held)) (sc_last_used held) (sc_measured held)"

definition held_now :: "entry list \<Rightarrow> world \<Rightarrow> loaded list" where
  "held_now es w = snapshot es (held_as w) w"

definition loaded_ids :: "entry list \<Rightarrow> world \<Rightarrow> string list" where
  "loaded_ids es w = snapshot es (\<lambda>e _. e_id e) w"

definition memory_of :: "entry list \<Rightarrow> world \<Rightarrow> (string \<times> u64 option) list" where
  "memory_of es w = snapshot es (\<lambda>e held. (e_id e, largest_mib (sc_measured held))) w"

section \<open>Unloading (mod.rs, sweep.rs)\<close>

fun unload :: "string list \<Rightarrow> world \<Rightarrow> (string + unit) \<times> world" where
  "unload [] w = (Inr (), w)"
| "unload (i # ids) w =
     (case take_if_idle i (\<lambda>_. True) w of
        (Taken held, w) \<Rightarrow> unload ids (drop_child (sc_child held) w)
      | (Take_busy, w) \<Rightarrow> (Inl i, w)
      | (Take_empty, w) \<Rightarrow> unload ids w)"

fun swept :: "(string \<Rightarrow> world \<Rightarrow> (slot_child \<times> 'a) option \<times> world) \<Rightarrow> string list \<Rightarrow> world
    \<Rightarrow> (string \<times> 'a) list \<times> world" where
  "swept take_from [] w = ([], w)"
| "swept take_from (i # ids) w =
     (case take_from i w of
        (None, w) \<Rightarrow> swept take_from ids w
      | (Some (held, said), w) \<Rightarrow>
          (case swept take_from ids (drop_child (sc_child held) w) of
             (gone, w) \<Rightarrow> ((i, said) # gone, w)))"

definition sweep_exited :: "entry list \<Rightarrow> world \<Rightarrow> (string \<times> string) list \<times> world" where
  "sweep_exited es w = swept take_if_exited (map e_id es) w"

definition stale :: "instant \<Rightarrow> instant \<Rightarrow> duration \<Rightarrow> bool" where
  "stale now last_used d \<longleftrightarrow> d \<le> duration_since now last_used"

definition take_stale :: "instant \<Rightarrow> duration \<Rightarrow> string \<Rightarrow> world \<Rightarrow> (slot_child \<times> unit) option \<times> world" where
  "take_stale now d i w =
     (case take_if_idle i (\<lambda>held. stale now (sc_last_used held) d) w of
        (Taken held, w) \<Rightarrow> (Some (held, ()), w)
      | (_, w) \<Rightarrow> (None, w))"

definition sweep_idle :: "entry list \<Rightarrow> idle_window \<Rightarrow> instant \<Rightarrow> world \<Rightarrow> string list \<times> world" where
  "sweep_idle es window now w =
     (case window_duration window of
        None \<Rightarrow> ([], w)
      | Some d \<Rightarrow>
          (case swept (take_stale now d) (expired window (held_now es w) now) w of
             (gone, w) \<Rightarrow> (map fst gone, w)))"

definition touch :: "string \<Rightarrow> instant \<Rightarrow> world \<Rightarrow> world" where
  "touch i now w =
     (case wd_slots w i of
        None \<Rightarrow> w
      | Some held \<Rightarrow> put_slot i (Some (held\<lparr>sc_last_used := now\<rparr>)) w)"

text \<open>
  Every slot is emptied first; the children go afterwards. The slots come in the order of a hash map: any
  order, each of them once.
\<close>

definition slot_order :: "entry list \<Rightarrow> string list \<Rightarrow> bool" where
  "slot_order es ids \<longleftrightarrow> mset ids = mset (map e_id es)"

lemma slot_order_refl [simp]: "slot_order es (map e_id es)"
  by (simp add: slot_order_def)

lemma slot_order_set: "slot_order es ids \<Longrightarrow> set ids = e_id ` set es"
  unfolding slot_order_def by (metis list.set_map mset_eq_setD)

lemma slot_order_distinct: "slot_order es ids \<Longrightarrow> distinct (map e_id es) \<Longrightarrow> distinct ids"
  unfolding slot_order_def by (metis mset_eq_imp_distinct_iff)

fun take_all :: "string list \<Rightarrow> world \<Rightarrow> slot_child list \<times> world" where
  "take_all [] w = ([], w)"
| "take_all (i # ids) w =
     (case wd_slots w i of
        None \<Rightarrow> take_all ids w
      | Some held \<Rightarrow>
          (case take_all ids (put_slot i None w) of (taken, w) \<Rightarrow> (held # taken, w)))"

definition clear :: "string list \<Rightarrow> world \<Rightarrow> world" where
  "clear ids w =
     (case take_all ids w of (taken, w) \<Rightarrow> fold (\<lambda>held. drop_child (sc_child held)) taken w)"

section \<open>Starting one child (start.rs)\<close>

definition gibibytes :: "u64 option \<Rightarrow> string" where
  "gibibytes mib =
     (case mib of
        None \<Rightarrow> ''nothing readable''
      | Some mib \<Rightarrow>
          (let tenths = mib * 10 div 1024
           in show_word (tenths div 10) @ ''.'' @ show_word (tenths mod 10) @ '' GiB''))"

text \<open>The time a load took is formatted from a float; here it is the text of it.\<close>

definition ready_line :: "entry \<Rightarrow> string \<Rightarrow> measurement \<Rightarrow> string" where
  "ready_line e took m =
     e_id e @ '': ready in '' @ took @ '' s, measured '' @ gibibytes (resident_mib m)
     @ '' resident and '' @ gibibytes (device_mib m) @ '' on the device (catalog said ''
     @ show_word (e_memory_estimate_mib e) @ '' MiB)''"

text \<open>\<open>Server::start\<close> and the machine's measurement are the arguments; the handle is new.\<close>

definition start_child ::
    "(entry \<Rightarrow> failure + child) \<Rightarrow> (u32 \<Rightarrow> measurement) \<Rightarrow> instant \<Rightarrow> entry \<Rightarrow> world
       \<Rightarrow> (failure + slot_child) \<times> world" where
  "start_child server_start measuring now e w =
     (case server_start e of
        Inl failure \<Rightarrow> (Inl failure, w)
      | Inr c \<Rightarrow>
          (Inr \<lparr>sc_child = c, sc_last_used = now, sc_measured = measuring (ch_pid c)\<rparr>,
           w\<lparr>wd_strong := (wd_strong w)(ch_handle c := 1),
             wd_process := (wd_process w)(ch_handle c := Running)\<rparr>))"

text \<open>The handed-out handle and the slot's own come into existence under one lock.\<close>

definition insert_child :: "string \<Rightarrow> slot_child \<Rightarrow> world \<Rightarrow> child \<times> world" where
  "insert_child i held w =
     (let w = clone_child (sc_child held) w;
          before = wd_slots w i;
          w = put_slot i (Some held) w
      in (sc_child held, case before of None \<Rightarrow> w | Some old \<Rightarrow> drop_child (sc_child old) w))"

section \<open>Making room, and waiting for it (room.rs)\<close>

definition sweep_pause :: duration where
  "sweep_pause = from_millis 250"

definition contended :: "entry \<Rightarrow> string \<Rightarrow> duration \<Rightarrow> failure" where
  "contended e held waited =
     (if waited = 0
      then Contended (held @ ''; this may succeed on a retry, or set ''
             @ ''MAESTRO_ADMISSION_WAIT_SECONDS to wait for the room'')
      else Contended (held @ ''; '' @ quoted (e_id e) @ '' waited '' @ show_nat (as_secs waited)
             @ ''s and the room did not free up''))"

datatype pass = Room_made | Still_held string | Turned_away failure

definition make_room_pass ::
    "budget \<Rightarrow> entry list \<Rightarrow> entry \<Rightarrow> u64 option \<Rightarrow> world \<Rightarrow> pass \<times> world" where
  "make_room_pass b es e device_free w =
     (case admit b (held_now es w) (wanted_of e) device_free of
        Fits \<Rightarrow> (Room_made, w)
      | Unload ids \<Rightarrow>
          (case unload ids w of
             (Inr _, w) \<Rightarrow> (Room_made, w)
           | (Inl blocker, w) \<Rightarrow>
               (Still_held (quoted (e_id e) @ '' needs room held by '' @ quoted blocker
                  @ '', which a request reached first''), w))
      | Blocked message \<Rightarrow> (Still_held message, w)
      | Refuse message \<Rightarrow> (Turned_away (Refused message), w))"

text \<open>
  What the world outside the wait is: what the device has free on each pass, what the clock
  says after it, and what other threads did to the slots during the pause that follows.
\<close>

record surroundings =
  su_clock :: "nat \<Rightarrow> instant"
  su_device_free :: "nat \<Rightarrow> u64 option"
  su_others :: "nat \<Rightarrow> world \<Rightarrow> world"

datatype 'a run = Done 'a | Panicked | Out_of_fuel

fun make_room_loop ::
    "nat \<Rightarrow> surroundings \<Rightarrow> nat \<Rightarrow> instant \<Rightarrow> duration \<Rightarrow> budget \<Rightarrow> entry list \<Rightarrow> entry \<Rightarrow> world
       \<Rightarrow> ((failure + unit) \<times> world) run" where
  "make_room_loop 0 su n deadline waiting b es e w = Out_of_fuel"
| "make_room_loop (Suc fuel) su n deadline waiting b es e w =
     (case make_room_pass b es e (su_device_free su n) w of
        (Room_made, w) \<Rightarrow> Done (Inr (), w)
      | (Turned_away f, w) \<Rightarrow> Done (Inl f, w)
      | (Still_held held, w) \<Rightarrow>
          if deadline \<le> su_clock su (Suc n) then Done (Inl (contended e held waiting), w)
          else make_room_loop fuel su (Suc n) deadline waiting b es e (su_others su n w))"

definition make_room ::
    "nat \<Rightarrow> surroundings \<Rightarrow> wait \<Rightarrow> budget \<Rightarrow> entry list \<Rightarrow> entry \<Rightarrow> world
       \<Rightarrow> ((failure + unit) \<times> world) run" where
  "make_room fuel su waiting b es e w =
     (case instant_plus (su_clock su 0) (wait_duration waiting) of
        None \<Rightarrow> Panicked
      | Some deadline \<Rightarrow> make_room_loop fuel su 0 deadline (wait_duration waiting) b es e w)"

section \<open>The child serving an entry (mod.rs)\<close>

record slots =
  sl_budget :: budget
  sl_wait :: wait

text \<open>What \<open>Slots::admit\<close> is given besides the slots: the server, the root and the machine.\<close>

record launcher =
  la_model_file :: "entry \<Rightarrow> failure + unit"
  la_start :: "entry \<Rightarrow> failure + child"
  la_measure :: "u32 \<Rightarrow> measurement"

definition admit_child ::
    "nat \<Rightarrow> surroundings \<Rightarrow> launcher \<Rightarrow> slots \<Rightarrow> entry list \<Rightarrow> entry \<Rightarrow> instant \<Rightarrow> world
       \<Rightarrow> ((failure + child) \<times> world) run" where
  "admit_child fuel su la sl es e now w =
     (case live_child (e_id e) now w of
        (Some c, w) \<Rightarrow> Done (Inr c, w)
      | (None, w) \<Rightarrow>
          (case la_model_file la e of
             Inl failure \<Rightarrow> Done (Inl failure, w)
           | Inr _ \<Rightarrow>
               (case make_room fuel su (sl_wait sl) (sl_budget sl) es e w of
                  Panicked \<Rightarrow> Panicked
                | Out_of_fuel \<Rightarrow> Out_of_fuel
                | Done (Inl failure, w) \<Rightarrow> Done (Inl failure, w)
                | Done (Inr _, w) \<Rightarrow>
                    (case start_child (la_start la) (la_measure la) now e w of
                       (Inl failure, w) \<Rightarrow> Done (Inl failure, w)
                     | (Inr held, w) \<Rightarrow>
                         (case insert_child (e_id e) held w of (c, w) \<Rightarrow> Done (Inr c, w))))))"

definition child_for ::
    "nat \<Rightarrow> surroundings \<Rightarrow> launcher \<Rightarrow> slots \<Rightarrow> entry list \<Rightarrow> entry \<Rightarrow> instant \<Rightarrow> world
       \<Rightarrow> ((failure + child) \<times> world) run" where
  "child_for fuel su la sl es e now w =
     (case live_child (e_id e) now w of
        (Some c, w) \<Rightarrow> Done (Inr c, w)
      | (None, w) \<Rightarrow> admit_child fuel su la sl es e now w)"

end
