(* ===== verification/Slots_Laws.thy ===== *)
theory Slots_Laws
  imports Slots Admission_Laws
begin

text \<open>
  The slot invariant of \<open>src/src/proxy/loaded.rs\<close>, and what each operation does to it. The
  invariant says the strong count of a child is exactly the handles readers hold (\<open>ext\<close>) plus
  the slot's own, that no two slots share a child, and that an ended child has no handle left.
  Every operation keeps it, moving handles only as its result says; the laws of taking are an
  interface that the unload path and both sweeps instantiate.
\<close>

abbreviation handle_of :: "slot_child \<Rightarrow> nat" where
  "handle_of held \<equiv> ch_handle (sc_child held)"

definition in_slot :: "world \<Rightarrow> nat \<Rightarrow> bool" where
  "in_slot w h \<longleftrightarrow> (\<exists>i held. wd_slots w i = Some held \<and> handle_of held = h)"

definition refs_ok :: "string set \<Rightarrow> (nat \<Rightarrow> nat) \<Rightarrow> world \<Rightarrow> bool" where
  "refs_ok ids ext w \<longleftrightarrow>
     (\<forall>i held. wd_slots w i = Some held \<longrightarrow> i \<in> ids) \<and>
     (\<forall>i j a b. wd_slots w i = Some a \<and> wd_slots w j = Some b \<and> handle_of a = handle_of b \<longrightarrow> i = j) \<and>
     (\<forall>h. wd_strong w h = ext h + (if in_slot w h then 1 else 0)) \<and>
     (\<forall>h \<in> set (wd_ended w). wd_strong w h = 0)"

section \<open>The primitives\<close>

lemma put_slot_simps [simp]:
  "wd_slots (put_slot i x w) = (wd_slots w)(i := x)" "wd_strong (put_slot i x w) = wd_strong w"
  "wd_process (put_slot i x w) = wd_process w" "wd_ended (put_slot i x w) = wd_ended w"
  by (simp_all add: put_slot_def)

lemma clone_child_simps [simp]:
  "wd_slots (clone_child c w) = wd_slots w" "wd_process (clone_child c w) = wd_process w"
  "wd_ended (clone_child c w) = wd_ended w"
  "wd_strong (clone_child c w) = (wd_strong w)(ch_handle c := Suc (wd_strong w (ch_handle c)))"
  by (simp_all add: clone_child_def)

lemma drop_child_simps [simp]:
  "wd_slots (drop_child c w) = wd_slots w" "wd_process (drop_child c w) = wd_process w"
  "wd_strong (drop_child c w) = (wd_strong w)(ch_handle c := wd_strong w (ch_handle c) - 1)"
  "wd_ended (drop_child c w) =
     (if wd_strong w (ch_handle c) \<le> 1 then wd_ended w @ [ch_handle c] else wd_ended w)"
  by (auto simp: drop_child_def Let_def)

lemma refs_okD:
  assumes "refs_ok ids ext w"
  shows "wd_slots w i = Some held \<Longrightarrow> i \<in> ids"
    and "wd_slots w i = Some a \<Longrightarrow> wd_slots w j = Some b \<Longrightarrow> handle_of a = handle_of b \<Longrightarrow> i = j"
    and "wd_strong w h = ext h + (if in_slot w h then 1 else 0)"
    and "h \<in> set (wd_ended w) \<Longrightarrow> wd_strong w h = 0"
  using assms unfolding refs_ok_def by blast+

lemma refs_ended: "refs_ok ids ext w \<Longrightarrow> h \<in> set (wd_ended w) \<Longrightarrow> ext h = 0 \<and> \<not> in_slot w h"
  using refs_okD(3,4) [of ids ext w h] by (auto split: if_splits)

text \<open>The signal the policy acts on: a child in a slot is busy exactly when a reader holds it.\<close>

lemma busy_iff_held:
  assumes "refs_ok ids ext w" and "wd_slots w i = Some held"
  shows "busy w (sc_child held) \<longleftrightarrow> 0 < ext (handle_of held)"
proof -
  have "in_slot w (handle_of held)" using assms(2) by (auto simp: in_slot_def)
  then show ?thesis using refs_okD(3) [OF assms(1), of "handle_of held"] by (simp add: busy_def)
qed

lemma in_slot_emptied:
  assumes "refs_ok ids ext w" and "wd_slots w i = Some held"
  shows "in_slot (put_slot i None w) h \<longleftrightarrow> in_slot w h \<and> h \<noteq> handle_of held"
proof
  assume "in_slot (put_slot i None w) h"
  then obtain j k where j: "j \<noteq> i" "wd_slots w j = Some k" "handle_of k = h"
    by (auto simp: in_slot_def split: if_splits)
  then have "h \<noteq> handle_of held" using refs_okD(2) [OF assms(1) j(2) assms(2)] by auto
  with j show "in_slot w h \<and> h \<noteq> handle_of held" by (auto simp: in_slot_def)
next
  assume "in_slot w h \<and> h \<noteq> handle_of held"
  then obtain j k where j: "wd_slots w j = Some k" "handle_of k = h" "h \<noteq> handle_of held"
    by (auto simp: in_slot_def)
  then have "wd_slots (put_slot i None w) j = Some k" using assms(2) by auto
  with j show "in_slot (put_slot i None w) h" unfolding in_slot_def by blast
qed

lemma in_slot_filled:
  assumes "wd_slots w i = None"
  shows "in_slot (put_slot i (Some x) w) h \<longleftrightarrow> in_slot w h \<or> h = handle_of x"
proof
  assume "in_slot (put_slot i (Some x) w) h"
  then show "in_slot w h \<or> h = handle_of x" by (auto simp: in_slot_def split: if_splits)
next
  assume "in_slot w h \<or> h = handle_of x"
  then show "in_slot (put_slot i (Some x) w) h"
  proof
    assume "in_slot w h"
    then obtain j k where "wd_slots w j = Some k" "handle_of k = h" by (auto simp: in_slot_def)
    then have "wd_slots (put_slot i (Some x) w) j = Some k" using assms by auto
    with \<open>handle_of k = h\<close> show ?thesis unfolding in_slot_def by blast
  qed (auto simp: in_slot_def)
qed

lemma in_slot_restamped:
  assumes "wd_slots w i = Some held" and "sc_child x = sc_child held"
  shows "in_slot (put_slot i (Some x) w) h \<longleftrightarrow> in_slot w h"
proof
  assume "in_slot (put_slot i (Some x) w) h"
  then show "in_slot w h" using assms by (auto simp: in_slot_def split: if_splits)
next
  assume "in_slot w h"
  then obtain j k where j: "wd_slots w j = Some k" "handle_of k = h" by (auto simp: in_slot_def)
  show "in_slot (put_slot i (Some x) w) h"
  proof (cases "j = i")
    case True
    then have "handle_of x = h" using j assms by simp
    then show ?thesis by (auto simp: in_slot_def)
  next
    case False
    then have "wd_slots (put_slot i (Some x) w) j = Some k" using j by simp
    then show ?thesis using j unfolding in_slot_def by blast
  qed
qed

text \<open>Emptying a slot hands its handle to whoever emptied it.\<close>

lemma refs_emptied:
  assumes "refs_ok ids ext w" and "wd_slots w i = Some held"
  shows "refs_ok ids (ext(handle_of held := Suc (ext (handle_of held)))) (put_slot i None w)"
proof -
  have "in_slot w (handle_of held)" using assms(2) by (auto simp: in_slot_def)
  moreover note in_slot_emptied [OF assms] refs_okD(3) [OF assms(1)]
  ultimately show ?thesis
    using assms(1) refs_okD(2) [OF assms(1)] unfolding refs_ok_def by (auto split: if_splits)
qed

lemma refs_dropped:
  assumes "refs_ok ids ext w" and "0 < ext (ch_handle c)"
  shows "refs_ok ids (ext(ch_handle c := ext (ch_handle c) - 1)) (drop_child c w)"
proof -
  have slot: "in_slot (drop_child c w) h = in_slot w h" for h by (simp add: in_slot_def)
  show ?thesis
    using assms unfolding refs_ok_def slot by (auto split: if_splits)
qed

lemma refs_cloned:
  assumes "refs_ok ids ext w" and "0 < wd_strong w (ch_handle c)"
  shows "refs_ok ids (ext(ch_handle c := Suc (ext (ch_handle c)))) (clone_child c w)"
proof -
  have slot: "in_slot (clone_child c w) h = in_slot w h" for h by (simp add: in_slot_def)
  show ?thesis
    using assms unfolding refs_ok_def slot by (auto split: if_splits)
qed

lemma refs_restamped:
  assumes "refs_ok ids ext w" and "wd_slots w i = Some held" and "sc_child x = sc_child held"
  shows "refs_ok ids ext (put_slot i (Some x) w)"
proof -
  note in_slot_restamped [OF assms(2,3)]
  then show ?thesis
    using assms unfolding refs_ok_def by (auto split: if_splits)
qed

section \<open>Each operation of a slot\<close>

lemma live_child_refs:
  assumes refs: "refs_ok ids ext w" and live: "live_child i now w = (r, w')"
  shows "case r of
      None \<Rightarrow> refs_ok ids ext w' \<and> wd_slots w' i = None
    | Some c \<Rightarrow> refs_ok ids (ext(ch_handle c := Suc (ext (ch_handle c)))) w' \<and>
        (\<exists>held. wd_slots w i = Some held \<and> sc_child held = c \<and> wd_slots w' i = Some (held\<lparr>sc_last_used := now\<rparr>))"
proof (cases "wd_slots w i")
  case None
  then show ?thesis using assms by (auto simp: live_child_def)
next
  case (Some held)
  have slot: "in_slot w (handle_of held)" using Some by (auto simp: in_slot_def)
  have strong: "wd_strong w (handle_of held) = Suc (ext (handle_of held))"
    using refs_okD(3) [OF refs, of "handle_of held"] slot by simp
  show ?thesis
  proof (cases "exited w held")
    case None
    let ?w = "put_slot i (Some (held\<lparr>sc_last_used := now\<rparr>)) w"
    have "refs_ok ids ext ?w" using refs Some by (rule refs_restamped) simp
    then have "refs_ok ids (ext(handle_of held := Suc (ext (handle_of held)))) (clone_child (sc_child held) ?w)"
      by (rule refs_cloned) (simp add: strong)
    then show ?thesis using live Some None by (auto simp: live_child_def)
  next
    case dead: (Some status)
    then have none: "ext (handle_of held) = 0" using strong by (auto simp: exited_def split: if_splits)
    have "refs_ok ids (ext(handle_of held := Suc (ext (handle_of held)))) (put_slot i None w)"
      using refs Some by (rule refs_emptied)
    from refs_dropped [OF this, of "sc_child held"]
    have "refs_ok ids ext (drop_child (sc_child held) (put_slot i None w))"
      using none by (simp add: fun_upd_idem)
    then show ?thesis using live Some dead by (auto simp: live_child_def)
  qed
qed

text \<open>
  Taking a child out of a slot, as an interface: every way of taking leaves the slot it looked
  at empty when it takes, hands over the only handle, and changes nothing else.
\<close>

locale slot_taking =
  fixes take_from :: "string \<Rightarrow> world \<Rightarrow> (slot_child \<times> 'a) option \<times> world"
  assumes took: "take_from i w = (Some (held, x), w') \<Longrightarrow>
      wd_slots w i = Some held \<and> wd_strong w (handle_of held) \<le> 1 \<and> w' = put_slot i None w"
    and left: "take_from i w = (None, w') \<Longrightarrow> w' = w"
begin

lemma took_refs:
  assumes "refs_ok ids ext w" and "take_from i w = (Some (held, x), w')"
  shows "refs_ok ids (ext(handle_of held := 1)) w' \<and> ext (handle_of held) = 0 \<and> wd_slots w' i = None"
proof -
  note t = took [OF assms(2)]
  have "in_slot w (handle_of held)" using t by (auto simp: in_slot_def)
  then have "ext (handle_of held) = 0"
    using refs_okD(3) [OF assms(1), of "handle_of held"] t by simp
  then show ?thesis using refs_emptied [OF assms(1), of i held] t by simp
qed

text \<open>A sweep ends only children nobody was reading from, and names exactly the slots it emptied.\<close>

lemma took_dropped:
  assumes "refs_ok ids ext w" and "take_from i w = (Some (held, x), w1)"
  shows "refs_ok ids ext (drop_child (sc_child held) w1)" and "ext (handle_of held) = 0"
proof -
  note tr = took_refs [OF assms]
  show "ext (handle_of held) = 0" using tr by simp
  have "refs_ok ids ((ext(handle_of held := 1))(handle_of held := 0)) (drop_child (sc_child held) w1)"
    using refs_dropped [of ids "ext(handle_of held := 1)" w1 "sc_child held"] tr by simp
  then show "refs_ok ids ext (drop_child (sc_child held) w1)" using tr by (simp add: fun_upd_idem)
qed

lemma swept_cases:
  assumes "swept take_from (i # js) w = (gone, w')"
  obtains (stays) "swept take_from js w = (gone, w')"
    | (goes) held x w1 rest where "take_from i w = (Some (held, x), w1)"
        "swept take_from js (drop_child (sc_child held) w1) = (rest, w')" "gone = (i, x) # rest"
proof (cases "take_from i w")
  case (Pair r w1)
  show thesis
  proof (cases r)
    case None
    then have "w1 = w" using left Pair by simp
    then show thesis using stays assms Pair None by simp
  next
    case (Some hx)
    then show thesis using goes assms Pair by (cases hx) (auto split: prod.splits)
  qed
qed

lemma swept_refs:
  assumes "refs_ok ids ext w" and "swept take_from is w = (gone, w')"
  shows "refs_ok ids ext w' \<and> fst ` set gone \<subseteq> set is \<and>
    (\<forall>i. wd_slots w' i = (if i \<in> fst ` set gone then None else wd_slots w i)) \<and>
    (\<forall>i \<in> fst ` set gone. \<exists>held. wd_slots w i = Some held \<and> ext (handle_of held) = 0)"
  using assms
proof (induction "is" arbitrary: w gone)
  case Nil
  then show ?case by simp
next
  case (Cons i js)
  from Cons.prems(2) show ?case
  proof (cases rule: swept_cases)
    case stays
    from Cons.IH [OF Cons.prems(1) this] show ?thesis by auto
  next
    case (goes held x w1 rest)
    note kept = took_dropped [OF Cons.prems(1) goes(1)] and tk = took [OF goes(1)]
    note ih = Cons.IH [OF kept(1) goes(2)]
    have slots: "wd_slots (drop_child (sc_child held) w1) k = (if k = i then None else wd_slots w k)" for k
      using tk by simp
    show ?thesis using ih kept(2) tk goes(3) unfolding slots by (auto split: if_splits)
  qed
qed

end

text \<open>
  A way of taking with a say of its own: of a child nobody reads from, it takes exactly those it finds due,
  which is a matter of the child and of what its process has come to.
\<close>

locale slot_sweeping = slot_taking +
  fixes due :: "(nat \<Rightarrow> liveness) \<Rightarrow> slot_child \<Rightarrow> 'a option"
  assumes offered: "wd_slots w i = Some held \<Longrightarrow> wd_strong w (handle_of held) = 1 \<Longrightarrow>
      take_from i w = (case due (wd_process w) held of
        None \<Rightarrow> (None, w) | Some x \<Rightarrow> (Some (held, x), put_slot i None w))"
begin

lemma alone_in_slot:
  assumes "refs_ok ids ext w" and "wd_slots w i = Some held" and "ext (handle_of held) = 0"
  shows "wd_strong w (handle_of held) = 1"
  using refs_okD(3) [OF assms(1), of "handle_of held"] assms(2,3) by (auto simp: in_slot_def)

lemma took_due:
  assumes "refs_ok ids ext w" and "take_from i w = (Some (held, x), w1)"
  shows "due (wd_process w) held = Some x"
proof -
  have "wd_slots w i = Some held" "ext (handle_of held) = 0" using took [OF assms(2)] took_refs [OF assms] by auto
  with offered [OF this(1) alone_in_slot [OF assms(1) this]] assms(2) show ?thesis by (auto split: option.splits)
qed

lemma left_undue:
  assumes "refs_ok ids ext w" and "take_from i w = (None, w1)" and "wd_slots w i = Some held" and "ext (handle_of held) = 0"
  shows "due (wd_process w) held = None"
  using offered [OF assms(3) alone_in_slot [OF assms(1,3,4)]] assms(2) by (auto split: option.splits)

lemma swept_exact:
  assumes "refs_ok ids ext w" and "swept take_from is w = (gone, w')"
  shows "set gone = {(i, x). i \<in> set is \<and> (\<exists>held. wd_slots w i = Some held \<and> ext (handle_of held) = 0 \<and>
    due (wd_process w) held = Some x)}"
  using assms
proof (induction "is" arbitrary: w gone)
  case Nil
  then show ?case by simp
next
  case (Cons i js)
  show ?case
  proof (cases "take_from i w")
    case (Pair r w1)
    show ?thesis
    proof (cases r)
      case None
      then have "w1 = w" "take_from i w = (None, w1)" using left Pair by simp_all
      then show ?thesis
        using Cons.IH [OF Cons.prems(1)] Cons.prems(2) left_undue [OF Cons.prems(1), of i w1] by auto
    next
      case (Some hx)
      then obtain held x where t: "take_from i w = (Some (held, x), w1)" using Pair by (cases hx) auto
      then obtain rest where rest: "swept take_from js (drop_child (sc_child held) w1) = (rest, w')" "gone = (i, x) # rest"
        using Cons.prems(2) by (auto split: prod.splits)
      note kept = took_dropped [OF Cons.prems(1) t] and tk = took [OF t] and due = took_due [OF Cons.prems(1) t]
      have "wd_slots (drop_child (sc_child held) w1) k = (if k = i then None else wd_slots w k)"
          "wd_process (drop_child (sc_child held) w1) = wd_process w" for k
        using tk by simp_all
      then show ?thesis using Cons.IH [OF kept(1) rest(1)] tk kept(2) due rest(2) by (auto split: if_splits)
    qed
  qed
qed

end

interpretation reaping: slot_sweeping take_if_exited
  "\<lambda>p held. case p (handle_of held) of Exited status \<Rightarrow> Some status | Running \<Rightarrow> None"
  by unfold_locales
    (auto simp: take_if_exited_def exited_def split: option.splits if_splits liveness.splits)

lemma take_if_idle_Taken:
  "take_if_idle i also w = (Taken held, w') \<Longrightarrow>
     wd_slots w i = Some held \<and> wd_strong w (handle_of held) \<le> 1 \<and> also held \<and> w' = put_slot i None w"
  by (auto simp: take_if_idle_def busy_def split: option.splits if_splits)

lemma take_if_idle_left:
  "take_if_idle i also w = (r, w') \<Longrightarrow> \<forall>held. r \<noteq> Taken held \<Longrightarrow> w' = w"
  by (auto simp: take_if_idle_def split: option.splits if_splits)

lemma take_stale_eq:
  "take_stale now d i w = (Some (held, x), w') \<longleftrightarrow> take_if_idle i (\<lambda>held. stale now (sc_last_used held) d) w = (Taken held, w')"
  "take_stale now d i w = (None, w') \<longleftrightarrow>
     (\<exists>r. take_if_idle i (\<lambda>held. stale now (sc_last_used held) d) w = (r, w') \<and> (\<forall>held. r \<noteq> Taken held))"
  by (auto simp: take_stale_def split: take.splits prod.splits)

interpretation expiring: slot_sweeping "take_stale now d"
  "\<lambda>_ held. if d \<le> duration_since now (sc_last_used held) then Some () else None" for now d
  by unfold_locales
    (auto simp: take_stale_eq dest: take_if_idle_Taken take_if_idle_left,
     auto simp: take_stale_def take_if_idle_def busy_def stale_def)

text \<open>Eviction's own way of taking: idle, and nothing else asked.\<close>

definition take_idle :: "string \<Rightarrow> world \<Rightarrow> (slot_child \<times> unit) option \<times> world" where
  "take_idle i w =
     (case take_if_idle i (\<lambda>_. True) w of (Taken held, w) \<Rightarrow> (Some (held, ()), w) | (_, w) \<Rightarrow> (None, w))"

lemma take_idle_eq:
  "take_idle i w = (Some (held, x), w') \<longleftrightarrow> take_if_idle i (\<lambda>_. True) w = (Taken held, w')"
  "take_idle i w = (None, w') \<longleftrightarrow> (\<exists>r. take_if_idle i (\<lambda>_. True) w = (r, w') \<and> (\<forall>held. r \<noteq> Taken held))"
  by (auto simp: take_idle_def split: take.splits prod.splits)

interpretation evicting: slot_taking take_idle
  by unfold_locales (auto simp: take_idle_eq dest: take_if_idle_Taken take_if_idle_left)

section \<open>Unloading\<close>

lemma take_if_idle_busy:
  "take_if_idle i (\<lambda>_. True) w = (Take_busy, w') \<Longrightarrow> \<exists>held. wd_slots w i = Some held \<and> busy w (sc_child held) \<and> w' = w"
  by (auto simp: take_if_idle_def split: option.splits if_splits)

lemma take_if_idle_empty:
  "take_if_idle i also w = (Take_empty, w') \<Longrightarrow> wd_slots w i = None \<and> w' = w"
  by (auto simp: take_if_idle_def split: option.splits if_splits)

text \<open>
  Unloading for room ends only children nobody reads from, and touches no slot it was not
  asked about. When it succeeds every named slot is empty; when it fails it names one of them
  that a reader holds, and has left that slot and its child alone.
\<close>

lemma unload_refs:
  assumes "refs_ok ids ext w" and "unload wanted_ids w = (r, w')"
  shows "refs_ok ids ext w' \<and>
    (\<forall>i. wd_slots w' i = wd_slots w i \<or>
         (i \<in> set wanted_ids \<and> wd_slots w' i = None \<and>
          (\<exists>held. wd_slots w i = Some held \<and> ext (handle_of held) = 0))) \<and>
    (case r of
       Inr _ \<Rightarrow> \<forall>i \<in> set wanted_ids. wd_slots w' i = None
     | Inl blocker \<Rightarrow> blocker \<in> set wanted_ids \<and> wd_slots w' blocker = wd_slots w blocker \<and>
         (\<exists>held. wd_slots w blocker = Some held \<and> 0 < ext (handle_of held)))"
  using assms
proof (induction wanted_ids w arbitrary: r w' rule: unload.induct)
  case (1 w)
  then show ?case by auto
next
  case (2 i js w)
  obtain t w1 where t: "take_if_idle i (\<lambda>_. True) w = (t, w1)" by fastforce
  show ?case
  proof (cases t)
    case (Taken held)
    have took: "take_idle i w = (Some (held, ()), w1)" using t Taken by (simp add: take_idle_eq)
    note kept = evicting.took_dropped [OF 2(3) took] and tk = evicting.took [OF took]
    have rest: "unload js (drop_child (sc_child held) w1) = (r, w')" using 2(4) t Taken by simp
    note ih = 2(1) [OF t [symmetric] Taken kept(1) rest]
    have slots: "wd_slots (drop_child (sc_child held) w1) k = (if k = i then None else wd_slots w k)" for k
      using tk by simp
    show ?thesis
      using ih tk kept(2) unfolding slots by (auto split: sum.splits if_splits)
  next
    case Take_busy
    then obtain held where "wd_slots w i = Some held" "busy w (sc_child held)" "w1 = w"
      using take_if_idle_busy t by blast
    then show ?thesis
      using 2(3,4) t Take_busy busy_iff_held [OF 2(3)] by auto
  next
    case Take_empty
    then have empty: "wd_slots w i = None" "w1 = w" using take_if_idle_empty t by blast+
    have rest: "unload js w1 = (r, w')" using 2(4) t Take_empty by simp
    have "refs_ok ids ext w1" using 2(3) empty by simp
    note ih = 2(2) [OF t [symmetric] Take_empty this rest]
    have "wd_slots w' i = None" using ih empty by metis
    with ih empty show ?thesis by (auto split: sum.splits)
  qed
qed

section \<open>The ledger\<close>

text \<open>What the occupied slots cost, which no reader and no time stamp changes.\<close>

definition entry_cost :: "entry \<Rightarrow> slot_child \<Rightarrow> nat" where
  "entry_cost e held = unat (l_cost_mib (loaded_of e False (Instant 0) (sc_measured held)))"

definition ledger :: "entry list \<Rightarrow> (string \<Rightarrow> slot_child option) \<Rightarrow> nat" where
  "ledger es slots =
     sum_list (map (\<lambda>e. case slots (e_id e) of None \<Rightarrow> 0 | Some held \<Rightarrow> entry_cost e held) es)"

lemma cost_held_as: "unat (l_cost_mib (held_as w e held)) = entry_cost e held"
  by (simp add: held_as_def entry_cost_def loaded_of_def Let_def)

lemma id_held_as [simp]: "l_id (held_as w e held) = e_id e"
  by (simp add: held_as_def loaded_of_def Let_def)

lemma held_now_Cons:
  "held_now (e # es) w =
     (case wd_slots w (e_id e) of None \<Rightarrow> held_now es w | Some held \<Rightarrow> held_as w e held # held_now es w)"
  by (simp add: held_now_def snapshot_def List.map_filter_simps split: option.split)

lemma held_now_Nil [simp]: "held_now [] w = []"
  by (simp add: held_now_def snapshot_def List.map_filter_simps)

lemma cost_sum_Cons: "cost_sum (l # ls) = unat (l_cost_mib l) + cost_sum ls"
  by (simp add: cost_sum_def)

lemma cost_sum_Nil [simp]: "cost_sum [] = 0"
  by (simp add: cost_sum_def)

lemma ledger_held_now: "cost_sum (held_now es w) = ledger es (wd_slots w)"
  by (induction es) (auto simp: held_now_Cons cost_sum_Cons ledger_def cost_held_as split: option.split)

lemma ledger_kept:
  "cost_sum (filter (\<lambda>l. l_id l \<notin> S) (held_now es w)) = ledger es (\<lambda>i. if i \<in> S then None else wd_slots w i)"
  by (induction es) (auto simp: held_now_Cons cost_sum_Cons ledger_def cost_held_as split: option.split)

lemma ledger_mono:
  "(\<And>i. slots i = None \<or> slots i = slots' i) \<Longrightarrow> ledger es slots \<le> ledger es slots'"
  unfolding ledger_def
proof (rule sum_list_mono)
  fix e :: entry
  assume "\<And>i. slots i = None \<or> slots i = slots' i"
  then have "slots (e_id e) = None \<or> slots (e_id e) = slots' (e_id e)" .
  then show "(case slots (e_id e) of None \<Rightarrow> 0 | Some held \<Rightarrow> entry_cost e held)
      \<le> (case slots' (e_id e) of None \<Rightarrow> 0 | Some held \<Rightarrow> entry_cost e held)"
    by auto
qed

lemma held_now_ids: "l_id ` set (held_now es w) = {i \<in> e_id ` set es. wd_slots w i \<noteq> None}"
  by (induction es) (auto simp: held_now_Cons split: option.splits)

lemma held_now_distinct: "distinct (map e_id es) \<Longrightarrow> distinct (map l_id (held_now es w))"
proof (induction es)
  case (Cons e es)
  then have "e_id e \<notin> l_id ` set (held_now es w)" using held_now_ids [of es w] by auto
  with Cons show ?case by (auto simp: held_now_Cons split: option.split)
qed simp

section \<open>Waiting for room\<close>

lemma instant_plus_nanos: "instant_plus t d = Some u \<Longrightarrow> nanos u = nanos t + d"
  by (auto dest: instant_plus_Some)

lemma sweep_pause_pos: "0 < sweep_pause"
  by (simp add: sweep_pause_def from_millis_def)

lemma rounded_up_enough:
  fixes d p n :: nat
  assumes "0 < p" and "(d + p - 1) div p \<le> n"
  shows "d \<le> n * p"
proof -
  have "d + p - 1 < Suc ((d + p - 1) div p) * p" using assms(1) by (simp add: dividend_less_div_times add.commute)
  also have "\<dots> \<le> Suc n * p" using assms(2) by (intro mult_le_mono1) simp
  finally show ?thesis using assms(1) by simp
qed

lemma make_room_loop_ends:
  assumes pauses: "\<And>n. nanos (su_clock su (Suc n)) + sweep_pause \<le> nanos (su_clock su (Suc (Suc n)))"
    and fuel: "nanos deadline \<le> nanos (su_clock su (Suc n)) + fuel * sweep_pause"
  shows "make_room_loop (Suc fuel) su n deadline waiting b es e w \<noteq> Out_of_fuel"
  using fuel
proof (induction fuel arbitrary: n w)
  case 0
  then have "deadline \<le> su_clock su (Suc n)" by (simp add: less_eq_instant_def)
  then show ?case by (auto split: prod.split pass.split)
next
  case (Suc fuel)
  have "nanos deadline \<le> nanos (su_clock su (Suc (Suc n))) + fuel * sweep_pause"
    using Suc.prems pauses [of n] by simp
  note later = Suc.IH [OF this]
  show ?case
    unfolding make_room_loop.simps(2) [of "Suc fuel"]
    using later by (auto simp del: make_room_loop.simps split: prod.split pass.split)
qed

text \<open>
  C27: A request waits for room no longer than it was told to. The clock is read once for the deadline, and then after each
  pass; if it does not run backwards and each sleep between two passes lasts its quarter of a second, the wait ends within
  one more pass than there are quarter seconds, begun ones counted, in what the request may wait (with a wait of
  zero, on the first pass), with room or with a refusal.
\<close>

theorem make_room_ends:
  assumes "nanos (su_clock su 0) \<le> nanos (su_clock su 1)"
    and "\<And>n. nanos (su_clock su (Suc n)) + sweep_pause \<le> nanos (su_clock su (Suc (Suc n)))"
    and "nanos (su_clock su 0) + wait_duration waiting < instant_limit"
    and "(wait_duration waiting + sweep_pause - 1) div sweep_pause + 1 \<le> fuel"
  shows "\<exists>r. make_room fuel su waiting b es e w = Done r"
proof -
  obtain deadline where d: "instant_plus (su_clock su 0) (wait_duration waiting) = Some deadline"
    using assms(3) by (simp add: instant_plus_def)
  obtain fuel' where fuel': "fuel = Suc fuel'" "(wait_duration waiting + sweep_pause - 1) div sweep_pause \<le> fuel'"
    using assms(4) by (cases fuel) auto
  note enough = rounded_up_enough [OF sweep_pause_pos fuel'(2)]
  have "nanos deadline \<le> nanos (su_clock su (Suc 0)) + fuel' * sweep_pause"
    using instant_plus_nanos [OF d] assms(1) enough by simp
  from make_room_loop_ends [OF assms(2) this]
  have "make_room_loop fuel su 0 deadline (wait_duration waiting) b es e w \<noteq> Out_of_fuel" unfolding fuel'(1) .
  moreover have "make_room_loop k su n deadline dur b es e w \<noteq> Panicked" for k n dur w
    by (induction k arbitrary: n w) (auto split: prod.split pass.split)
  ultimately show ?thesis
    using d by (cases "make_room_loop fuel su 0 deadline (wait_duration waiting) b es e w")
      (auto simp: make_room_def)
qed

text \<open>
  Room that was made is there. When a pass of the wait reports room for an entry that is
  not loaded, the models still loaded and the entry's estimate are within the budget together,
  the slot invariant stands, and no slot gained a child.
\<close>

theorem make_room_pass_sound:
  assumes refs: "refs_ok ids ext w" and es: "distinct (map e_id es)" and absent: "wd_slots w (e_id e) = None"
    and wrap: "no_wrap (held_now es w) (wanted_of e) free"
    and pass: "make_room_pass b es e free w = (Room_made, w')"
  shows "refs_ok ids ext w' \<and> (\<forall>i. wd_slots w' i = None \<or> wd_slots w' i = wd_slots w i) \<and>
    (\<forall>limit. b_limit_mib b = Some limit \<longrightarrow>
       ledger es (wd_slots w') + unat (e_memory_estimate_mib e) \<le> unat limit)"
proof -
  let ?ls = "held_now es w" and ?want = "wanted_of e"
  have want: "wt_id ?want = e_id e" "unat (wt_cost_mib ?want) = unat (e_memory_estimate_mib e)"
    by (simp_all add: wanted_of_def)
  have not_loaded: "wt_id ?want \<notin> l_id ` set ?ls" using absent held_now_ids [of es w] by (auto simp: want)
  show ?thesis
  proof (cases "admit b ?ls ?want free")
    case Fits
    then have "fits_beside b ?ls ?want free []" and "w' = w"
      using admit_fits [OF wrap not_loaded] pass by (auto simp: make_room_pass_def)
    then show ?thesis using refs by (auto simp: fits_beside_def ledger_held_now want)
  next
    case (Unload gone)
    then obtain u where u: "unload gone w = (Inr u, w')"
      using pass by (auto simp: make_room_pass_def split: prod.splits sum.splits)
    note un = unload_refs [OF refs u]
    have emptied: "wd_slots w' i = None \<or> wd_slots w' i = wd_slots w i" for i using un by auto
    have "ledger es (wd_slots w') \<le> ledger es (\<lambda>i. if i \<in> set gone then None else wd_slots w i)"
      using un by (intro ledger_mono) auto
    moreover have "cost_sum (filter (\<lambda>l. l_id l \<notin> set gone) ?ls) + unat (wt_cost_mib ?want) \<le> unat limit"
      if "b_limit_mib b = Some limit" for limit
      by (rule admit_unload_fits [OF wrap held_now_distinct [OF es] Unload that])
    ultimately show ?thesis
      using un emptied by (fastforce simp: ledger_kept want)
  next
    case (Blocked m)
    then show ?thesis using pass by (simp add: make_room_pass_def)
  next
    case (Refuse m)
    then show ?thesis using pass by (simp add: make_room_pass_def)
  qed
qed

section \<open>Sweeping\<close>

lemma held_now_member:
  assumes "l \<in> set (held_now es w)"
  obtains e held where "e \<in> set es" "wd_slots w (e_id e) = Some held" "l = held_as w e held"
  using assms by (auto simp: held_now_def snapshot_def List.map_filter_def)

lemma expired_held:
  assumes "i \<in> set (expired window (held_now es w) now)" and "window_duration window = Some d"
  shows "\<exists>e \<in> set es. e_id e = i \<and> e_residency e = OnDemand \<and>
    (\<exists>held. wd_slots w i = Some held \<and> d \<le> duration_since now (sc_last_used held))"
proof -
  obtain l where l: "l \<in> set (idle_candidates (now, d) (held_now es w))" "i = l_id l"
    using assms by (auto simp: expired_def)
  then have l2: "l \<in> set (held_now es w)" "outlived (now, d) l" by (simp_all add: idling.set_candidates)
  obtain e held where "e \<in> set es" "wd_slots w (e_id e) = Some held" "l = held_as w e held"
    using held_now_member [OF l2(1)] .
  then show ?thesis using l(2) l2(2) by (auto simp: outlived_def held_as_def loaded_of_def Let_def)
qed

lemma expired_due:
  assumes "refs_ok ids ext w" and "window_duration window = Some d" and "e \<in> set es" and "e_residency e = OnDemand"
    and "wd_slots w (e_id e) = Some held" and "ext (handle_of held) = 0" and "d \<le> duration_since now (sc_last_used held)"
  shows "e_id e \<in> set (expired window (held_now es w) now)"
proof -
  have "wd_strong w (handle_of held) = 1" by (rule expiring.alone_in_slot [OF assms(1,5,6)])
  then have "outlived (now, d) (held_as w e held)"
    using assms(4,7) by (simp add: outlived_def held_as_def loaded_of_def Let_def busy_def)
  moreover have "held_as w e held \<in> set (held_now es w)"
    using assms(3,5) by (force simp: held_now_def snapshot_def List.map_filter_def)
  ultimately have "held_as w e held \<in> set (idle_candidates (now, d) (held_now es w))" by (simp add: idling.set_candidates)
  then have "l_id (held_as w e held) \<in> l_id ` set (idle_candidates (now, d) (held_now es w))" by (rule imageI)
  then show ?thesis using assms(2) by (simp add: expired_def)
qed

text \<open>
  C14: Each sweep empties exactly the slots it should. The idle sweep names the models that are loaded, on-demand,
  read by nobody and unused for the window, all of them and no others; the sweep of exited children names those
  whose process has exited and that nobody reads from, with the status each exited with, all of them and no others. Exactly
  the slots named are empty afterwards, and the slot invariant stands.
\<close>

theorem sweeps_sound:
  assumes refs: "refs_ok ids ext w"
  shows "(sweep_idle es window now w = (gone, w') \<longrightarrow>
      refs_ok ids ext w' \<and> (\<forall>i. wd_slots w' i = (if i \<in> set gone then None else wd_slots w i)) \<and>
      (\<forall>i. i \<in> set gone \<longleftrightarrow> (\<exists>e \<in> set es. e_id e = i \<and> e_residency e = OnDemand \<and>
         (\<exists>held d. wd_slots w i = Some held \<and> ext (handle_of held) = 0 \<and>
            window_duration window = Some d \<and> d \<le> duration_since now (sc_last_used held))))) \<and>
    (sweep_exited es w = (dead, w') \<longrightarrow>
      refs_ok ids ext w' \<and> (\<forall>i. wd_slots w' i = (if i \<in> fst ` set dead then None else wd_slots w i)) \<and>
      (\<forall>i status. (i, status) \<in> set dead \<longleftrightarrow> (\<exists>e \<in> set es. e_id e = i \<and>
         (\<exists>held. wd_slots w i = Some held \<and> ext (handle_of held) = 0 \<and>
            wd_process w (handle_of held) = Exited status))))"
proof (rule conjI; rule impI)
  assume "sweep_exited es w = (dead, w')"
  then have dead: "swept take_if_exited (map e_id es) w = (dead, w')" by (simp add: sweep_exited_def)
  have "refs_ok ids ext w'" "\<forall>i. wd_slots w' i = (if i \<in> fst ` set dead then None else wd_slots w i)"
    using reaping.swept_refs [OF refs dead] by simp_all
  moreover have "(i, status) \<in> set dead \<longleftrightarrow> (\<exists>e \<in> set es. e_id e = i \<and>
         (\<exists>held. wd_slots w i = Some held \<and> ext (handle_of held) = 0 \<and>
            wd_process w (handle_of held) = Exited status))" for i status
  proof -
    have "(case p of Exited s \<Rightarrow> Some s | Running \<Rightarrow> None) = Some status \<longleftrightarrow> p = Exited status" for p
      by (cases p) auto
    then show ?thesis unfolding reaping.swept_exact [OF refs dead] by auto
  qed
  ultimately show "refs_ok ids ext w' \<and> (\<forall>i. wd_slots w' i = (if i \<in> fst ` set dead then None else wd_slots w i)) \<and>
      (\<forall>i status. (i, status) \<in> set dead \<longleftrightarrow> (\<exists>e \<in> set es. e_id e = i \<and>
         (\<exists>held. wd_slots w i = Some held \<and> ext (handle_of held) = 0 \<and>
            wd_process w (handle_of held) = Exited status)))" by blast
next
  assume idle: "sweep_idle es window now w = (gone, w')"
  let ?due = "\<lambda>i. \<exists>e \<in> set es. e_id e = i \<and> e_residency e = OnDemand \<and>
         (\<exists>held d. wd_slots w i = Some held \<and> ext (handle_of held) = 0 \<and>
            window_duration window = Some d \<and> d \<le> duration_since now (sc_last_used held))"
  show "refs_ok ids ext w' \<and> (\<forall>i. wd_slots w' i = (if i \<in> set gone then None else wd_slots w i)) \<and>
      (\<forall>i. i \<in> set gone \<longleftrightarrow> ?due i)"
  proof (cases "window_duration window")
    case None
    then show ?thesis using idle refs by (auto simp: sweep_idle_def)
  next
    case (Some d)
    let ?ids = "expired window (held_now es w) now"
    obtain pairs where pairs: "swept (take_stale now d) ?ids w = (pairs, w')" "gone = map fst pairs"
      using idle Some by (auto simp: sweep_idle_def split: prod.splits)
    note sw = expiring.swept_refs [OF refs pairs(1)]
    have gone: "set gone = fst ` set pairs" by (simp add: pairs(2))
    have refs': "refs_ok ids ext w'" and slots: "\<forall>i. wd_slots w' i = (if i \<in> set gone then None else wd_slots w i)"
      unfolding gone using sw by simp_all
    have "i \<in> set gone \<longleftrightarrow> i \<in> set ?ids \<and> (\<exists>held. wd_slots w i = Some held \<and> ext (handle_of held) = 0 \<and>
        d \<le> duration_since now (sc_last_used held))" for i
      unfolding gone expiring.swept_exact [OF refs pairs(1)] by (force simp: image_iff split: if_splits)
    moreover have "?due i" if "i \<in> set ?ids" "wd_slots w i = Some held" "ext (handle_of held) = 0"
        "d \<le> duration_since now (sc_last_used held)" for i held
      using expired_held [OF that(1) Some] that(2-4) Some by blast
    moreover have "i \<in> set ?ids" if "?due i" for i
      using expired_due [OF refs Some] that Some by auto
    ultimately have "i \<in> set gone \<longleftrightarrow> ?due i" for i using Some by (smt (verit) option.inject)
    with refs' slots show ?thesis by blast
  qed
qed

section \<open>Applied\<close>

definition sample_child :: "nat \<Rightarrow> child" where
  "sample_child h = \<lparr>ch_id = ''m'', ch_port = 8081, ch_pid = 4, ch_handle = h\<rparr>"

definition sample_world :: world where
  "sample_world =
     \<lparr>wd_slots = [''m'' \<mapsto> \<lparr>sc_child = sample_child 0, sc_last_used = Instant 5,
        sc_measured = \<lparr>resident_mib = Some 100, device_mib = Some 600\<rparr>\<rparr>],
      wd_strong = (\<lambda>_. 0)(0 := 1), wd_process = (\<lambda>_. Running), wd_ended = []\<rparr>"

definition small_entry :: "string \<Rightarrow> u32 \<Rightarrow> entry" where
  "small_entry i mib = (sample_catalog_entry)\<lparr>e_id := i, e_memory_estimate_mib := mib\<rparr>"

lemma sample_world_refs: "refs_ok {''m'', ''n''} (\<lambda>_. 0) sample_world"
  by (auto simp: refs_ok_def in_slot_def sample_world_def sample_child_def)

lemma sample_pass:
  "make_room_pass (budget_new (Some 1000)) [small_entry ''m'' 500, small_entry ''n'' 600] (small_entry ''n'' 600)
     (Some 400) sample_world =
   (Room_made, drop_child (sample_child 0) (put_slot ''m'' None sample_world))"
proof -
  let ?es = "[small_entry ''m'' 500, small_entry ''n'' 600]"
  have "held_now ?es sample_world =
      [\<lparr>l_id = ''m'', l_cost_mib = 600, l_device_mib = 600, l_residency = OnDemand, l_busy = False, l_last_used = Instant 5\<rparr>]"
    by code_simp
  moreover have "admit (budget_new (Some 1000))
      [\<lparr>l_id = ''m'', l_cost_mib = 600, l_device_mib = 600, l_residency = OnDemand, l_busy = False, l_last_used = Instant 5\<rparr>]
      (wanted_of (small_entry ''n'' 600)) (Some 400) = Unload [''m'']"
    by code_simp
  moreover have "unload [''m''] sample_world = (Inr (), drop_child (sample_child 0) (put_slot ''m'' None sample_world))"
    by (simp add: take_if_idle_def busy_def sample_world_def sample_child_def)
  ultimately show ?thesis by (simp add: make_room_pass_def)
qed

theorem make_room_pass_sound_witness:
  "ledger [small_entry ''m'' 500, small_entry ''n'' 600]
     (wd_slots (drop_child (sample_child 0) (put_slot ''m'' None sample_world))) + 600 \<le> 1000"
proof -
  have "distinct (map e_id [small_entry ''m'' 500, small_entry ''n'' 600])"
    "wd_slots sample_world (e_id (small_entry ''n'' 600)) = None"
    "no_wrap (held_now [small_entry ''m'' 500, small_entry ''n'' 600] sample_world) (wanted_of (small_entry ''n'' 600)) (Some 400)"
    "b_limit_mib (budget_new (Some 1000)) = Some 1000" "unat (e_memory_estimate_mib (small_entry ''n'' 600)) = 600"
    by code_simp+
  with make_room_pass_sound [OF sample_world_refs this(1-3) sample_pass] show ?thesis by simp
qed

definition sample_surroundings :: surroundings where
  "sample_surroundings =
     \<lparr>su_clock = (\<lambda>n. Instant (if n = 0 then 5 else n * 300000000)), su_device_free = (\<lambda>_. None), su_others = (\<lambda>_ w. w)\<rparr>"

theorem make_room_ends_witness:
  "\<exists>r. make_room 241 sample_surroundings (Wait (from_secs 60)) (budget_new (Some 1000)) [] (small_entry ''n'' 600) sample_world = Done r"
  by (rule make_room_ends)
    (simp_all add: sample_surroundings_def sweep_pause_def from_millis_def from_secs_def instant_limit_def)

theorem sweeps_sound_witness:
  "\<exists>w'. sweep_idle [small_entry ''m'' 500] (IdleWindow (Some 3)) (Instant 9) sample_world = ([''m''], w') \<and>
     wd_slots w' ''m'' = None"
proof -
  have "expired (IdleWindow (Some 3)) (held_now [small_entry ''m'' 500] sample_world) (Instant 9) = [''m'']"
    by code_simp
  moreover have "swept (take_stale (Instant 9) 3) [''m''] sample_world =
      ([(''m'', ())], drop_child (sample_child 0) (put_slot ''m'' None sample_world))"
    by (simp add: take_stale_def take_if_idle_def busy_def stale_def duration_since_def sample_world_def sample_child_def)
  ultimately have sweep: "sweep_idle [small_entry ''m'' 500] (IdleWindow (Some 3)) (Instant 9) sample_world =
      ([''m''], drop_child (sample_child 0) (put_slot ''m'' None sample_world))"
    by (simp add: sweep_idle_def)
  with sweeps_sound [OF sample_world_refs] show ?thesis by (metis list.set_intros(1))
qed

end
