(* ===== verification/Slots_Machine.thy ===== *)
theory Slots_Machine
  imports Slots_Laws
begin

text \<open>
  The threads of the router over the slots, interleaved (\<open>src/src/proxy/slots/*.rs\<close>,
  \<open>proxy/residents.rs\<close>, \<open>proxy/reaper.rs\<close>, \<open>proxy/answer.rs\<close>). Every thread is at one point
  of one of three programs: a request (or the loading of a resident, which takes the same
  path), a tick of the reaper, and the stop that clears the slots. One step is what a thread does
  under one acquisition of one slot's lock, or between two of them; the drop of a child that
  was taken out is a step of its own, as the code drops it once the guard is gone. The
  admission lock is a field of the machine. What the machine's clock says, what the device has
  free, whether a wait is over and when a process exits are left open: any value may be drawn at any
  step, of the figures any below \<open>2 ^ 32\<close> mebibytes (\<open>figure_ok\<close>), and a wait may be given up before its deadline too.
  The locks of the slots are not held across steps here; \<open>Slots_Locks\<close> has them taken and let go of.
\<close>

section \<open>Where a thread is\<close>

datatype activity =
    Resting
  | Asking entry \<comment> \<open>\<open>Slots::child\<close>, before the fast path\<close>
  | Queueing entry \<comment> \<open>before the admission lock\<close>
  | Rechecking entry \<comment> \<open>the first thing under it\<close>
  | Locating entry \<comment> \<open>\<open>Server::model_file\<close>\<close>
  | Reading entry "entry list" "entry list" "loaded list" \<comment> \<open>\<open>Slots::held\<close>: slots read, slots to read\<close>
  | Unloading entry "string list"
  | Pausing entry
  | Starting entry
  | Inserting entry slot_child
  | Serving entry child \<comment> \<open>the relay\<close>
  | Reaping "string list" \<comment> \<open>\<open>sweep_exited\<close>\<close>
  | Weighing duration "entry list" "loaded list" \<comment> \<open>\<open>sweep_idle\<close>, its snapshot\<close>
  | Expiring instant duration "string list"
  | is_Clearing: Clearing "string list" "slot_child list"
  | Dropping child activity \<comment> \<open>a handle to let go of, and what comes after\<close>

text \<open>The guard \<open>_admitting\<close> lives from the recheck until \<open>Slots::admit\<close> returns.\<close>

fun admitting_now :: "activity \<Rightarrow> bool" where
  "admitting_now (Rechecking e) = True"
| "admitting_now (Locating e) = True"
| "admitting_now (Reading e done todo acc) = True"
| "admitting_now (Unloading e ids) = True"
| "admitting_now (Pausing e) = True"
| "admitting_now (Starting e) = True"
| "admitting_now (Inserting e held) = True"
| "admitting_now (Dropping c a) = admitting_now a"
| "admitting_now _ = False"

section \<open>What one thread does in one step\<close>

definition read_slot :: "entry \<Rightarrow> world \<Rightarrow> loaded list" where
  "read_slot x w = (case wd_slots w (e_id x) of None \<Rightarrow> [] | Some held \<Rightarrow> [held_as w x held])"

text \<open>A machine's figures are far below a word's limit: no device or process holds \<open>2 ^ 32\<close> mebibytes.\<close>

definition figure_ok :: "u64 option \<Rightarrow> bool" where
  "figure_ok figure \<longleftrightarrow> (case figure of None \<Rightarrow> True | Some mib \<Rightarrow> mib < 2 ^ 32)"

definition measurement_ok :: "measurement \<Rightarrow> bool" where
  "measurement_ok m \<longleftrightarrow> figure_ok (resident_mib m) \<and> figure_ok (device_mib m)"

definition fresh_handle :: "nat \<Rightarrow> world \<Rightarrow> bool" where
  "fresh_handle h w \<longleftrightarrow> wd_strong w h = 0 \<and> h \<notin> set (wd_ended w)"

inductive moves :: "budget \<Rightarrow> entry list \<Rightarrow> idle_window \<Rightarrow> activity \<Rightarrow> world \<Rightarrow> activity \<Rightarrow> world \<Rightarrow> bool"
  for b es window where
  request: "e \<in> set es \<Longrightarrow> moves b es window Resting w (Asking e) w"
| fast_hit: "live_child (e_id e) now w = (Some c, w') \<Longrightarrow> moves b es window (Asking e) w (Serving e c) w'"
| fast_miss: "live_child (e_id e) now w = (None, w') \<Longrightarrow> moves b es window (Asking e) w (Queueing e) w'"
| enter: "moves b es window (Queueing e) w (Rechecking e) w"
| slow_hit: "live_child (e_id e) now w = (Some c, w') \<Longrightarrow> moves b es window (Rechecking e) w (Serving e c) w'"
| slow_miss: "live_child (e_id e) now w = (None, w') \<Longrightarrow> moves b es window (Rechecking e) w (Locating e) w'"
| located: "moves b es window (Locating e) w (Reading e [] es []) w"
| no_file: "moves b es window (Locating e) w Resting w"
| read: "moves b es window (Reading e done (x # todo) acc) w
           (Reading e (done @ [x]) todo (acc @ read_slot x w)) w"
| fits: "figure_ok free \<Longrightarrow> admit b acc (wanted_of e) free = Fits \<Longrightarrow>
           moves b es window (Reading e done [] acc) w (Starting e) w"
| chosen: "figure_ok free \<Longrightarrow> admit b acc (wanted_of e) free = Unload ids \<Longrightarrow>
           moves b es window (Reading e done [] acc) w (Unloading e ids) w"
| blocked: "admit b acc (wanted_of e) free = Blocked m \<Longrightarrow>
           moves b es window (Reading e done [] acc) w (Pausing e) w"
| refused: "admit b acc (wanted_of e) free = Refuse m \<Longrightarrow>
           moves b es window (Reading e done [] acc) w Resting w"
| take: "take_if_idle i (\<lambda>_. True) w = (Taken held, w') \<Longrightarrow>
           moves b es window (Unloading e (i # ids)) w (Dropping (sc_child held) (Unloading e ids)) w'"
| take_empty: "take_if_idle i (\<lambda>_. True) w = (Take_empty, w') \<Longrightarrow>
           moves b es window (Unloading e (i # ids)) w (Unloading e ids) w'"
| take_busy: "take_if_idle i (\<lambda>_. True) w = (Take_busy, w') \<Longrightarrow>
           moves b es window (Unloading e (i # ids)) w (Pausing e) w'"
| unloaded: "moves b es window (Unloading e []) w (Starting e) w"
| again: "moves b es window (Pausing e) w (Reading e [] es []) w"
| give_up: "moves b es window (Pausing e) w Resting w"
| start: "start_child server measuring now e w = (Inr held, w') \<Longrightarrow> fresh_handle (handle_of held) w \<Longrightarrow>
           measurement_ok (sc_measured held) \<Longrightarrow> moves b es window (Starting e) w (Inserting e held) w'"
| not_started: "start_child server measuring now e w = (Inl failure, w') \<Longrightarrow>
           moves b es window (Starting e) w Resting w'"
| insert: "insert_child (e_id e) held w = (c, w') \<Longrightarrow>
           moves b es window (Inserting e held) w (Serving e c) w'"
| served: "moves b es window (Serving e c) w (Dropping c Resting) (touch (e_id e) now w)"
| drop: "moves b es window (Dropping c a) w a (drop_child c w)"
| tick: "moves b es window Resting w (Reaping (map e_id es)) w"
| reap: "take_if_exited i w = (Some (held, status), w') \<Longrightarrow>
           moves b es window (Reaping (i # ids)) w (Dropping (sc_child held) (Reaping ids)) w'"
| reap_none: "take_if_exited i w = (None, w') \<Longrightarrow> moves b es window (Reaping (i # ids)) w (Reaping ids) w'"
| weigh: "window_duration window = Some d \<Longrightarrow> moves b es window (Reaping []) w (Weighing d es []) w"
| no_window: "window_duration window = None \<Longrightarrow> moves b es window (Reaping []) w Resting w"
| weigh_one: "moves b es window (Weighing d (x # todo) acc) w (Weighing d todo (acc @ read_slot x w)) w"
| weighed: "moves b es window (Weighing d [] acc) w (Expiring now d (expired window acc now)) w"
| expire: "take_stale now d i w = (Some (held, u), w') \<Longrightarrow>
           moves b es window (Expiring now d (i # ids)) w (Dropping (sc_child held) (Expiring now d ids)) w'"
| expire_none: "take_stale now d i w = (None, w') \<Longrightarrow>
           moves b es window (Expiring now d (i # ids)) w (Expiring now d ids) w'"
| tick_over: "moves b es window (Expiring now d []) w Resting w"
| stop: "slot_order es ids \<Longrightarrow> moves b es window Resting w (Clearing ids []) w"
| clear_one: "wd_slots w i = Some held \<Longrightarrow>
           moves b es window (Clearing (i # ids) taken) w (Clearing ids (taken @ [held])) (put_slot i None w)"
| clear_none: "wd_slots w i = None \<Longrightarrow> moves b es window (Clearing (i # ids) taken) w (Clearing ids taken) w"
| clear_drop: "moves b es window (Clearing [] (held # taken)) w (Dropping (sc_child held) (Clearing [] taken)) w"
| cleared: "moves b es window (Clearing [] []) w Resting w"

section \<open>The machine\<close>

record machine_state =
  ms_threads :: "activity list"
  ms_admission :: "nat option" \<comment> \<open>who holds the admission lock\<close>
  ms_world :: world
  ms_launched :: "nat list" \<comment> \<open>every handle ever made, a history\<close>
  ms_stopping :: bool \<comment> \<open>whether a stop has begun, a history\<close>

text \<open>
  The guard goes when \<open>Slots::admit\<close> returns, with a child or with a failure, and not before: a thread that
  left for anywhere else would still have it.
\<close>

fun admission_over :: "activity \<Rightarrow> bool" where
  "admission_over Resting = True"
| "admission_over (Serving e c) = True"
| "admission_over _ = False"

definition lock_after :: "nat \<Rightarrow> activity \<Rightarrow> activity \<Rightarrow> nat option \<Rightarrow> nat option" where
  "lock_after k a a' lock =
     (if admitting_now a' then Some k else if admitting_now a \<and> admission_over a' then None else lock)"

fun launched_by :: "activity \<Rightarrow> activity \<Rightarrow> nat list" where
  "launched_by (Starting e) (Inserting e' held) = [handle_of held]"
| "launched_by _ _ = []"

inductive step :: "budget \<Rightarrow> entry list \<Rightarrow> idle_window \<Rightarrow> machine_state \<Rightarrow> machine_state \<Rightarrow> bool"
  for b es window where
  thread: "k < length (ms_threads m) \<Longrightarrow>
     moves b es window (ms_threads m ! k) (ms_world m) a w \<Longrightarrow>
     (admitting_now a \<and> \<not> admitting_now (ms_threads m ! k) \<longrightarrow> ms_admission m = None) \<Longrightarrow>
     step b es window m
       \<lparr>ms_threads = (ms_threads m)[k := a],
        ms_admission = lock_after k (ms_threads m ! k) a (ms_admission m),
        ms_world = w, ms_launched = launched_by (ms_threads m ! k) a @ ms_launched m,
        ms_stopping = (ms_stopping m \<or> is_Clearing a)\<rparr>"
| exits: "step b es window m
     (m\<lparr>ms_world := (ms_world m)\<lparr>wd_process := (wd_process (ms_world m))(h := Exited status)\<rparr>\<rparr>)"

definition at_rest :: "nat \<Rightarrow> machine_state" where
  "at_rest n =
     \<lparr>ms_threads = replicate n Resting, ms_admission = None,
      ms_world = \<lparr>wd_slots = Map.empty, wd_strong = (\<lambda>_. 0), wd_process = (\<lambda>_. Running), wd_ended = []\<rparr>,
      ms_launched = [], ms_stopping = False\<rparr>"

inductive reachable :: "budget \<Rightarrow> entry list \<Rightarrow> idle_window \<Rightarrow> nat \<Rightarrow> machine_state \<Rightarrow> bool"
  for b es window n where
  begins: "reachable b es window n (at_rest n)"
| goes_on: "reachable b es window n m \<Longrightarrow> step b es window m m' \<Longrightarrow> reachable b es window n m'"

inductive_cases insert_moves: "moves b es window (Inserting e held) w a' w'"
end
