(* ===== verification/Slots_Machine_Laws.thy ===== *)
theory Slots_Machine_Laws
  imports Slots_Machine
begin

text \<open>
  What holds at every moment of every interleaving of \<open>Slots_Machine\<close>: the strong counts are
  the slots' and the threads' handles, at most one thread is past the admission lock, what an
  admitting thread has read still bounds what the slots hold, and room once found is there
  until the child it was found for is put in its slot. The invariant is proved for each step
  and read off every reachable machine.
\<close>

section \<open>The handles a thread has\<close>

fun holds :: "activity \<Rightarrow> nat \<Rightarrow> nat" where
  "holds (Serving e c) h = (if h = ch_handle c then 1 else 0)"
| "holds (Inserting e held) h = (if h = handle_of held then 1 else 0)"
| "holds (Clearing ids taken) h = count_list (map handle_of taken) h"
| "holds (Dropping c a) h = (if h = ch_handle c then 1 else 0) + holds a h"
| "holds _ h = 0"

definition readers :: "activity list \<Rightarrow> nat \<Rightarrow> nat" where
  "readers ts h = sum_list (map (\<lambda>a. holds a h) ts)"

lemma readers_split:
  "k < length ts \<Longrightarrow> readers (ts[k := a]) h = readers (take k ts @ drop (Suc k) ts) h + holds a h"
  by (simp add: readers_def upd_conv_take_nth_drop)

lemma readers_at: "k < length ts \<Longrightarrow> readers ts h = readers (take k ts @ drop (Suc k) ts) h + holds (ts ! k) h"
  using readers_split [of k ts "ts ! k" h] by simp

lemma holds_readers: "k < length ts \<Longrightarrow> holds (ts ! k) h \<le> readers ts h"
  by (simp add: readers_at)

lemma refs_cong: "refs_ok ids ext w \<Longrightarrow> (\<And>h. ext h = ext' h) \<Longrightarrow> refs_ok ids ext' w"
  by (metis ext)

lemma refs_filled:
  assumes "refs_ok ids ext w" and "wd_slots w i = None" and "i \<in> ids"
    and "\<not> in_slot w (handle_of held)" and "0 < ext (handle_of held)"
  shows "refs_ok ids ext (put_slot i (Some held) (clone_child (sc_child held) w))"
proof -
  let ?w = "clone_child (sc_child held) w"
  have slot: "in_slot (put_slot i (Some held) ?w) h \<longleftrightarrow> in_slot w h \<or> h = handle_of held" for h
    using in_slot_filled [of ?w i held h] assms(2) by (simp add: in_slot_def)
  have other: "wd_slots w j = Some a \<Longrightarrow> handle_of a \<noteq> handle_of held" for j a
    using assms(4) by (auto simp: in_slot_def)
  have strong: "wd_strong w h = ext h + (if in_slot w h then 1 else 0)" for h
    using refs_okD(3) [OF assms(1)] .
  have "handle_of held \<notin> set (wd_ended w)" using refs_ended [OF assms(1)] assms(5) by fastforce
  then show ?thesis
    using assms strong unfolding refs_ok_def slot by (auto split: if_splits dest: other)
qed

lemma refs_started:
  assumes "refs_ok ids ext w" and "fresh_handle h w"
  shows "refs_ok ids (ext(h := 1)) (w\<lparr>wd_strong := (wd_strong w)(h := 1), wd_process := p\<rparr>)"
proof -
  let ?w = "w\<lparr>wd_strong := (wd_strong w)(h := 1), wd_process := p\<rparr>"
  have slot: "in_slot ?w k = in_slot w k" for k by (simp add: in_slot_def)
  have "ext h = 0 \<and> \<not> in_slot w h"
    using refs_okD(3) [OF assms(1), of h] assms(2) by (auto simp: fresh_handle_def split: if_splits)
  then show ?thesis
    using assms unfolding refs_ok_def slot by (auto simp: fresh_handle_def)
qed

lemma refs_exited: "refs_ok ids ext (w\<lparr>wd_process := p\<rparr>) = refs_ok ids ext w"
  by (simp add: refs_ok_def in_slot_def)

lemma touch_refs: "refs_ok ids ext w \<Longrightarrow> refs_ok ids ext (touch i now w)"
  by (auto simp: touch_def intro: refs_restamped split: option.split)

section \<open>What the slots still hold of what was read\<close>

definition hide :: "string set \<Rightarrow> (string \<Rightarrow> slot_child option) \<Rightarrow> string \<Rightarrow> slot_child option" where
  "hide gone slots i = (if i \<in> gone then None else slots i)"

text \<open>Steps that only remove or restamp: what is left was there, with what was measured of it.\<close>

definition shrunk :: "(string \<Rightarrow> slot_child option) \<Rightarrow> (string \<Rightarrow> slot_child option) \<Rightarrow> bool" where
  "shrunk slots slots' \<longleftrightarrow>
     (\<forall>i held'. slots' i = Some held' \<longrightarrow>
        (\<exists>held. slots i = Some held \<and> sc_child held' = sc_child held \<and> sc_measured held' = sc_measured held))"

lemma shrunk_refl [simp]: "shrunk slots slots"
  by (simp add: shrunk_def)

lemma shrunk_emptied [simp]: "shrunk slots (slots(i := None))"
  by (simp add: shrunk_def)

lemma shrunk_None: "shrunk slots slots' \<Longrightarrow> slots i = None \<Longrightarrow> slots' i = None"
  by (auto simp: shrunk_def) (metis option.exhaust option.simps(3))

lemma entry_cost_measured: "sc_measured a = sc_measured b \<Longrightarrow> entry_cost e a = entry_cost e b"
  by (simp add: entry_cost_def)

lemma ledger_shrunk:
  assumes "shrunk slots slots'"
  shows "ledger es (hide gone slots') \<le> ledger es (hide gone slots)"
  unfolding ledger_def
proof (rule sum_list_mono)
  fix e
  show "(case hide gone slots' (e_id e) of None \<Rightarrow> 0 | Some held \<Rightarrow> entry_cost e held)
      \<le> (case hide gone slots (e_id e) of None \<Rightarrow> 0 | Some held \<Rightarrow> entry_cost e held)"
  proof (cases "slots' (e_id e)")
    case (Some held')
    then obtain held where held: "slots (e_id e) = Some held" "sc_measured held' = sc_measured held"
      using assms by (auto simp: shrunk_def)
    then show ?thesis using Some entry_cost_measured [OF held(2), of e] by (simp add: hide_def)
  qed (simp add: hide_def)
qed

lemma hide_none [simp]: "hide {} slots = slots"
  by (simp add: hide_def fun_eq_iff)

lemma hide_empty_slot: "slots i = None \<Longrightarrow> hide (insert i gone) slots = hide gone slots"
  by (auto simp: hide_def fun_eq_iff)

lemma live_child_shrunk: "live_child i now w = (r, w') \<Longrightarrow> shrunk (wd_slots w) (wd_slots w')"
  by (auto simp: live_child_def shrunk_def split: option.splits if_splits)

lemma touch_shrunk: "shrunk (wd_slots w) (wd_slots (touch i now w))"
  by (auto simp: touch_def shrunk_def split: option.splits)

lemma take_if_idle_slots:
  "take_if_idle i also w = (r, w') \<Longrightarrow> shrunk (wd_slots w) (wd_slots w')"
  by (auto simp: take_if_idle_def split: option.splits if_splits)

section \<open>Each step keeps the counts\<close>

text \<open>Where the count needs it: the slot an admitting thread is to fill is empty, its child is nobody else's.\<close>

fun ready_to_insert :: "(string \<Rightarrow> slot_child option) \<Rightarrow> activity \<Rightarrow> bool" where
  "ready_to_insert slots (Inserting e held) \<longleftrightarrow>
     slots (e_id e) = None \<and> (\<forall>i x. slots i = Some x \<longrightarrow> handle_of x \<noteq> handle_of held)"
| "ready_to_insert slots a \<longleftrightarrow> True"

fun asked_for :: "activity \<Rightarrow> entry option" where
  "asked_for (Asking e) = Some e"
| "asked_for (Queueing e) = Some e"
| "asked_for (Rechecking e) = Some e"
| "asked_for (Locating e) = Some e"
| "asked_for (Reading e done todo acc) = Some e"
| "asked_for (Unloading e ids) = Some e"
| "asked_for (Pausing e) = Some e"
| "asked_for (Starting e) = Some e"
| "asked_for (Inserting e held) = Some e"
| "asked_for (Serving e c) = Some e"
| "asked_for (Dropping c a) = asked_for a"
| "asked_for _ = None"

lemma moves_asked:
  "moves b es window a w a' w' \<Longrightarrow> (\<forall>e. asked_for a = Some e \<longrightarrow> e \<in> set es) \<Longrightarrow>
     asked_for a' = Some e \<Longrightarrow> e \<in> set es"
  by (induction rule: moves.induct) auto

lemma take_idle_refs:
  assumes "refs_ok ids (\<lambda>h. rest h) w" and "take_if_idle i also w = (Taken held, w')"
  shows "refs_ok ids (\<lambda>h. rest h + (if h = handle_of held then 1 else 0)) w'"
proof -
  note t = take_if_idle_Taken [OF assms(2)]
  have "refs_ok ids (rest(handle_of held := Suc (rest (handle_of held)))) (put_slot i None w)"
    using assms(1) t by (intro refs_emptied) auto
  then have "refs_ok ids (\<lambda>h. rest h + (if h = handle_of held then 1 else 0)) (put_slot i None w)"
    by (rule refs_cong) simp
  then show ?thesis using t by simp
qed

lemma moves_refs:
  assumes "moves b es window a w a' w'"
    and "refs_ok (e_id ` set es) (\<lambda>h. rest h + holds a h) w"
    and "ready_to_insert (wd_slots w) a" and "\<forall>e. asked_for a = Some e \<longrightarrow> e \<in> set es"
  shows "refs_ok (e_id ` set es) (\<lambda>h. rest h + holds a' h) w'"
  using assms
proof (induction rule: moves.induct)
  case (fast_hit e now w c w')
  from live_child_refs [OF fast_hit(2,1)]
  have "refs_ok (e_id ` set es) ((\<lambda>h. rest h + holds (Asking e) h)(ch_handle c := Suc (rest (ch_handle c)))) w'"
    by simp
  then show ?case by (rule refs_cong) simp
next
  case (fast_miss e now w w')
  from live_child_refs [OF fast_miss(2,1)] show ?case by simp
next
  case (slow_hit e now w c w')
  from live_child_refs [OF slow_hit(2,1)]
  have "refs_ok (e_id ` set es) ((\<lambda>h. rest h + holds (Rechecking e) h)(ch_handle c := Suc (rest (ch_handle c)))) w'"
    by simp
  then show ?case by (rule refs_cong) simp
next
  case (slow_miss e now w w')
  from live_child_refs [OF slow_miss(2,1)] show ?case by simp
next
  case (take i w held w' e ids)
  from take_idle_refs [OF take(2,1)] show ?case by (rule refs_cong) simp
next
  case (take_empty i w w' e ids)
  then show ?case using take_if_idle_empty by fastforce
next
  case (take_busy i w w' e ids)
  then show ?case using take_if_idle_busy by fastforce
next
  case (start server measuring now e w held w')
  then obtain p where "w' = w\<lparr>wd_strong := (wd_strong w)(handle_of held := 1), wd_process := p\<rparr>"
    by (auto simp: start_child_def split: sum.splits)
  with refs_started [OF start(4) start(2)]
  have refs: "refs_ok (e_id ` set es) ((\<lambda>h. rest h + holds (Starting e) h)(handle_of held := 1)) w'" by simp
  have "rest (handle_of held) = 0"
    using refs_okD(3) [OF start(4), of "handle_of held"] start(2) by (auto simp: fresh_handle_def)
  then show ?case by (intro refs_cong [OF refs]) simp
next
  case (not_started server measuring now e w failure w')
  then show ?case by (auto simp: start_child_def split: sum.splits)
next
  case (insert e held w c w')
  then have empty: "wd_slots w (e_id e) = None" and other: "\<not> in_slot w (handle_of held)" and "e \<in> set es"
    by (auto simp: in_slot_def)
  then have "refs_ok (e_id ` set es) (\<lambda>h. rest h + holds (Inserting e held) h)
      (put_slot (e_id e) (Some held) (clone_child (sc_child held) w))"
    by (intro refs_filled insert(2)) auto
  moreover have "c = sc_child held" "w' = put_slot (e_id e) (Some held) (clone_child (sc_child held) w)"
    using insert(1) empty by (auto simp: insert_child_def Let_def)
  ultimately show ?case by simp
next
  case (served e c w now)
  then show ?case by (simp add: touch_refs)
next
  case (drop c a w)
  have "refs_ok (e_id ` set es)
      ((\<lambda>h. rest h + holds (Dropping c a) h)(ch_handle c := rest (ch_handle c) + holds (Dropping c a) (ch_handle c) - 1))
      (drop_child c w)"
    by (rule refs_dropped [OF drop(1)]) simp
  then show ?case by (rule refs_cong) simp
next
  case (reap i w held status w' ids)
  note t = reaping.took [OF reap(1)]
  have "refs_ok (e_id ` set es) (\<lambda>h. rest h + holds (Reaping (i # ids)) h) w" by (rule reap(2))
  then have "refs_ok (e_id ` set es) (rest(handle_of held := Suc (rest (handle_of held)))) (put_slot i None w)"
    using t by (intro refs_emptied) auto
  then have "refs_ok (e_id ` set es) (\<lambda>h. rest h + holds (Dropping (sc_child held) (Reaping ids)) h) (put_slot i None w)"
    by (rule refs_cong) simp
  then show ?case using t by simp
next
  case (reap_none i w w' ids)
  then show ?case using reaping.left by fastforce
next
  case (expire now d i w held u w' ids)
  then have t: "take_if_idle i (\<lambda>held. stale now (sc_last_used held) d) w = (Taken held, w')"
    by (simp add: take_stale_eq)
  from take_idle_refs [OF expire(2) t] show ?case by (rule refs_cong) simp
next
  case (expire_none now d i w w' ids)
  then show ?case using expiring.left by fastforce
next
  case (clear_one w i held ids taken)
  have "refs_ok (e_id ` set es) ((\<lambda>h. rest h + holds (Clearing (i # ids) taken) h)
      (handle_of held := Suc (rest (handle_of held) + holds (Clearing (i # ids) taken) (handle_of held)))) (put_slot i None w)"
    using clear_one(2,1) by (rule refs_emptied)
  then show ?case by (rule refs_cong) simp
qed (auto elim!: refs_cong)

section \<open>What an admitting thread may rely on\<close>

definition within_budget :: "budget \<Rightarrow> entry \<Rightarrow> nat \<Rightarrow> bool" where
  "within_budget b e held \<longleftrightarrow>
     (\<forall>limit. b_limit_mib b = Some limit \<longrightarrow> held + unat (e_memory_estimate_mib e) \<le> unat limit)"

text \<open>
  A snapshot taken slot by slot goes stale from its first read on. It errs one way: whatever
  is unloaded, what the read slots still hold costs no more than what the snapshot says is left.
\<close>

definition snapshot_bounds :: "entry list \<Rightarrow> (string \<Rightarrow> slot_child option) \<Rightarrow> loaded list \<Rightarrow> bool" where
  "snapshot_bounds done slots acc \<longleftrightarrow>
     (\<forall>gone. ledger done (hide gone slots) \<le> cost_sum (filter (\<lambda>l. l_id l \<notin> gone) acc))"

definition snapshot_ok :: "entry list \<Rightarrow> loaded list \<Rightarrow> bool" where
  "snapshot_ok done acc \<longleftrightarrow>
     distinct (map l_id acc) \<and> l_id ` set acc \<subseteq> e_id ` set done \<and> length acc \<le> length done \<and>
     (\<forall>l \<in> set acc. l_cost_mib l < 2 ^ 32 \<and> l_device_mib l < 2 ^ 32)"

fun sound :: "budget \<Rightarrow> entry list \<Rightarrow> (string \<Rightarrow> slot_child option) \<Rightarrow> activity \<Rightarrow> bool" where
  "sound b es slots (Locating e) \<longleftrightarrow> slots (e_id e) = None"
| "sound b es slots (Pausing e) \<longleftrightarrow> slots (e_id e) = None"
| "sound b es slots (Reading e done todo acc) \<longleftrightarrow>
     slots (e_id e) = None \<and> done @ todo = es \<and> e_id e \<notin> l_id ` set acc \<and>
     snapshot_bounds done slots acc \<and> snapshot_ok done acc"
| "sound b es slots (Unloading e ids) \<longleftrightarrow>
     slots (e_id e) = None \<and> within_budget b e (ledger es (hide (set ids) slots))"
| "sound b es slots (Starting e) \<longleftrightarrow> slots (e_id e) = None \<and> within_budget b e (ledger es slots)"
| "sound b es slots (Inserting e held) \<longleftrightarrow>
     slots (e_id e) = None \<and> within_budget b e (ledger es slots) \<and> measurement_ok (sc_measured held) \<and>
     (\<forall>i x. slots i = Some x \<longrightarrow> handle_of x \<noteq> handle_of held)"
| "sound b es slots (Dropping c a) \<longleftrightarrow> sound b es slots a"
| "sound b es slots _ \<longleftrightarrow> True"

lemma sound_ready: "sound b es slots a \<Longrightarrow> ready_to_insert slots a"
  by (cases a) auto

lemma sound_free: "\<not> admitting_now a \<Longrightarrow> sound b es slots a"
  by (induction a) auto

lemma within_budget_mono: "within_budget b e n \<Longrightarrow> m \<le> n \<Longrightarrow> within_budget b e m"
  by (auto simp: within_budget_def)

lemma snapshot_bounds_shrunk: "snapshot_bounds done slots acc \<Longrightarrow> shrunk slots slots' \<Longrightarrow> snapshot_bounds done slots' acc"
  unfolding snapshot_bounds_def using ledger_shrunk by (meson le_trans)

lemma sound_shrunk:
  assumes "sound b es slots a" and "shrunk slots slots'"
  shows "sound b es slots' a"
  using assms
proof (induction a)
  case (Reading e seen todo acc)
  then show ?case using snapshot_bounds_shrunk shrunk_None by auto
next
  case (Unloading e ids)
  then show ?case using within_budget_mono ledger_shrunk shrunk_None by auto
next
  case (Starting e)
  then show ?case using within_budget_mono ledger_shrunk [of slots slots' es "{}"] shrunk_None by auto
next
  case (Inserting e held)
  then show ?case using within_budget_mono ledger_shrunk [of slots slots' es "{}"] shrunk_None
    by (auto simp: shrunk_def) (metis option.exhaust)
qed (auto dest: shrunk_None)

definition slots_ok :: "(string \<Rightarrow> slot_child option) \<Rightarrow> bool" where
  "slots_ok slots \<longleftrightarrow> (\<forall>i held. slots i = Some held \<longrightarrow> measurement_ok (sc_measured held))"

lemma slots_ok_shrunk: "slots_ok slots \<Longrightarrow> shrunk slots slots' \<Longrightarrow> slots_ok slots'"
  by (fastforce simp: slots_ok_def shrunk_def)

lemma figure_less: "mib < 2 ^ 32 \<Longrightarrow> unat mib < 2 ^ 32" for mib :: u64
  by (simp add: word_less_nat_alt)

lemma ucast_figure: "(ucast (x :: u32) :: u64) < 2 ^ 32"
  by (simp add: word_less_nat_alt unat_ucast_up)

lemma held_as_figures:
  assumes "measurement_ok (sc_measured held)"
  shows "l_cost_mib (held_as w e held) < 2 ^ 32" "l_device_mib (held_as w e held) < 2 ^ 32"
  using assms ucast_figure [of "e_memory_estimate_mib e"]
  by (auto simp: held_as_def loaded_of_def Let_def measurement_ok_def figure_ok_def largest_mib_def device_need_mib_def
      max_def split: option.splits if_splits)

text \<open>Reading one more slot under its own lock, then judging what was read.\<close>

lemma read_slot_id: "l \<in> set (read_slot x w) \<Longrightarrow> l_id l = e_id x \<and> wd_slots w (e_id x) \<noteq> None"
  by (cases "wd_slots w (e_id x)") (auto simp: read_slot_def)

lemma ledger_append: "ledger (xs @ ys) slots = ledger xs slots + ledger ys slots"
  by (simp add: ledger_def)

lemma cost_sum_append: "cost_sum (xs @ ys) = cost_sum xs + cost_sum ys"
  by (simp add: cost_sum_def)

lemma read_slot_bounds:
  "snapshot_bounds seen (wd_slots w) acc \<Longrightarrow> snapshot_bounds (seen @ [x]) (wd_slots w) (acc @ read_slot x w)"
  unfolding snapshot_bounds_def
proof
  fix gone
  assume "\<forall>gone. ledger seen (hide gone (wd_slots w)) \<le> cost_sum (filter (\<lambda>l. l_id l \<notin> gone) acc)"
  moreover have "ledger [x] (hide gone (wd_slots w)) \<le> cost_sum (filter (\<lambda>l. l_id l \<notin> gone) (read_slot x w))"
    by (auto simp: ledger_def hide_def read_slot_def cost_sum_def cost_held_as split: option.split)
  ultimately show "ledger (seen @ [x]) (hide gone (wd_slots w)) \<le> cost_sum (filter (\<lambda>l. l_id l \<notin> gone) (acc @ read_slot x w))"
    by (simp add: ledger_append cost_sum_append add_mono)
qed

lemma read_slot_ok:
  assumes "snapshot_ok seen acc" and "e_id x \<notin> e_id ` set seen" and "slots_ok (wd_slots w)"
  shows "snapshot_ok (seen @ [x]) (acc @ read_slot x w)"
proof (cases "wd_slots w (e_id x)")
  case None
  then show ?thesis using assms(1) by (auto simp: snapshot_ok_def read_slot_def)
next
  case (Some held)
  then have "measurement_ok (sc_measured held)" using assms(3) by (auto simp: slots_ok_def)
  then show ?thesis
    using assms(1,2) Some held_as_figures [of held w x] by (auto simp: snapshot_ok_def read_slot_def)
qed

lemma figures_sum:
  "(\<forall>l \<in> set acc. f l < (2 :: nat) ^ 32) \<Longrightarrow> sum_list (map f acc) \<le> length acc * 2 ^ 32"
  by (induction acc) auto

lemma snapshot_no_wrap:
  assumes "snapshot_ok seen acc" and "length seen < 2 ^ 30" and "figure_ok free"
  shows "no_wrap acc (wanted_of e) free"
proof -
  have "length acc * 2 ^ 32 < 2 ^ 62" using assms(1,2) by (simp add: snapshot_ok_def)
  moreover have "cost_sum acc \<le> length acc * 2 ^ 32" "device_sum acc \<le> length acc * 2 ^ 32"
    using assms(1) figures_sum [of acc "\<lambda>l. unat (l_cost_mib l)"] figures_sum [of acc "\<lambda>l. unat (l_device_mib l)"]
    by (auto simp: snapshot_ok_def cost_sum_def device_sum_def word_less_nat_alt)
  moreover have "unat (wt_cost_mib (wanted_of e)) < 2 ^ 32" by (simp add: wanted_of_def)
  moreover have "unat (unwrap_or free 0) < 2 ^ 32"
    using assms(3) by (auto simp: figure_ok_def word_less_nat_alt split: option.splits)
  ultimately show ?thesis by (simp add: no_wrap_def)
qed

lemma judged:
  assumes read: "sound b es slots (Reading e es [] acc)" and "length es < 2 ^ 30" "figure_ok free"
  shows "admit b acc (wanted_of e) free = Fits \<Longrightarrow> within_budget b e (ledger es slots)"
    and "admit b acc (wanted_of e) free = Unload ids \<Longrightarrow> within_budget b e (ledger es (hide (set ids) slots))"
proof -
  have wrap: "no_wrap acc (wanted_of e) free" using read assms(2,3) by (intro snapshot_no_wrap) auto
  have bounds: "ledger es (hide gone slots) \<le> cost_sum (filter (\<lambda>l. l_id l \<notin> gone) acc)" for gone
    using read by (simp add: snapshot_bounds_def)
  have wants: "unat (wt_cost_mib (wanted_of e)) = unat (e_memory_estimate_mib e)" "wt_id (wanted_of e) = e_id e"
    by (simp_all add: wanted_of_def)
  {
    assume "admit b acc (wanted_of e) free = Fits"
    then have "fits_beside b acc (wanted_of e) free []" using read wants by (intro admit_fits wrap) auto
    then show "within_budget b e (ledger es slots)"
      using bounds [of "{}"] by (auto simp: fits_beside_def within_budget_def wants)
  next
    assume chosen: "admit b acc (wanted_of e) free = Unload ids"
    show "within_budget b e (ledger es (hide (set ids) slots))"
      using admit_unload_fits [OF wrap _ chosen] read bounds [of "set ids"]
      by (fastforce simp: within_budget_def wants snapshot_ok_def)
  }
qed

section \<open>Each step keeps what the others rely on\<close>

lemma moves_shrunk:
  assumes "moves b es window a w a' w'" and "\<forall>e held. a \<noteq> Inserting e held"
  shows "shrunk (wd_slots w) (wd_slots w')"
  using assms
proof (induction rule: moves.induct)
  case (reap i w held status w' ids)
  then show ?case using reaping.took by fastforce
next
  case (reap_none i w w' ids)
  then show ?case using reaping.left by fastforce
next
  case (expire now d i w held u w' ids)
  then show ?case using expiring.took by fastforce
next
  case (expire_none now d i w w' ids)
  then show ?case using expiring.left by fastforce
qed (auto dest: live_child_shrunk take_if_idle_slots simp: touch_shrunk start_child_def split: sum.splits)

lemma inserted_slots:
  assumes "insert_child i held w = (c, w')"
  shows "wd_slots w' = (wd_slots w)(i \<mapsto> held)" and "c = sc_child held"
  using assms by (auto simp: insert_child_def Let_def split: option.splits)

lemma moves_slots_ok:
  assumes "moves b es window a w a' w'" and "slots_ok (wd_slots w)" and "sound b es (wd_slots w) a"
  shows "slots_ok (wd_slots w')"
proof (cases "\<exists>e held. a = Inserting e held")
  case True
  then obtain e held where a: "a = Inserting e held" by blast
  with assms(1) have "wd_slots w' = (wd_slots w)(e_id e \<mapsto> held)"
    by (auto elim!: insert_moves dest: inserted_slots)
  then show ?thesis using assms(2,3) a by (auto simp: slots_ok_def)
next
  case False
  then show ?thesis using moves_shrunk [OF assms(1)] slots_ok_shrunk assms(2) by blast
qed

lemma live_child_gone: "live_child i now w = (None, w') \<Longrightarrow> wd_slots w' i = None"
  by (auto simp: live_child_def split: option.splits if_splits)

lemma moves_sound:
  assumes "moves b es window a w a' w'" and "sound b es (wd_slots w) a" and "slots_ok (wd_slots w)"
    and "\<And>h. fresh_handle h w \<Longrightarrow> \<not> in_slot w h"
    and "distinct (map e_id es)" and "length es < 2 ^ 30"
  shows "sound b es (wd_slots w') a'"
  using assms
proof (induction rule: moves.induct)
  case (located e w)
  then show ?case by (simp add: snapshot_bounds_def snapshot_ok_def ledger_def)
next
  case (again e w)
  then show ?case by (simp add: snapshot_bounds_def snapshot_ok_def ledger_def)
next
  case (read e seen x todo acc w)
  have es: "seen @ x # todo = es" using read(1) by simp
  then have "e_id x \<notin> e_id ` set seen" using read(4) by auto
  then have "snapshot_ok (seen @ [x]) (acc @ read_slot x w)"
    using read(1,2) by (intro read_slot_ok) auto
  moreover have "snapshot_bounds (seen @ [x]) (wd_slots w) (acc @ read_slot x w)"
    using read(1) by (intro read_slot_bounds) simp
  moreover have "e_id e \<notin> l_id ` set (acc @ read_slot x w)"
    using read(1) read_slot_id [of _ x w] by fastforce
  ultimately show ?case using read(1) es by simp
next
  case (fits free acc e seen w)
  then show ?case using judged(1) [of b es "wd_slots w" e acc free] by auto
next
  case (chosen free acc e ids seen w)
  then show ?case using judged(2) [of b es "wd_slots w" e acc free ids] by auto
next
  case (take i w held w' e ids)
  then have w': "wd_slots w' = (wd_slots w)(i := None)" by (auto dest: take_if_idle_Taken)
  then have "hide (set ids) (wd_slots w') = hide (set (i # ids)) (wd_slots w)" by (auto simp: hide_def fun_eq_iff)
  moreover have "wd_slots w' (e_id e) = None" using take(2) w' by simp
  ultimately show ?case using take(2) by simp
next
  case (take_empty i w w' e ids)
  then have "w' = w" "wd_slots w i = None" by (auto dest: take_if_idle_empty)
  then show ?case using take_empty(2) by (simp add: hide_empty_slot)
next
  case (take_busy i w w' e ids)
  then show ?case by (auto dest: take_if_idle_busy)
next
  case (start server measuring now e w held w')
  then have "wd_slots w' = wd_slots w" by (auto simp: start_child_def split: sum.splits)
  moreover have "\<not> in_slot w (handle_of held)" using start(2,6) by blast
  ultimately show ?case using start(3,4) by (auto simp: in_slot_def)
qed (auto dest: live_child_gone)

section \<open>The invariant of the machine\<close>

definition lock_ok :: "machine_state \<Rightarrow> bool" where
  "lock_ok m \<longleftrightarrow>
     (\<forall>k. ms_admission m = Some k \<longleftrightarrow> k < length (ms_threads m) \<and> admitting_now (ms_threads m ! k))"

definition counted :: "entry list \<Rightarrow> machine_state \<Rightarrow> bool" where
  "counted es m \<longleftrightarrow>
     refs_ok (e_id ` set es) (readers (ms_threads m)) (ms_world m) \<and>
     (\<forall>a \<in> set (ms_threads m). \<forall>e. asked_for a = Some e \<longrightarrow> e \<in> set es)"

definition relied_on :: "budget \<Rightarrow> entry list \<Rightarrow> machine_state \<Rightarrow> bool" where
  "relied_on b es m \<longleftrightarrow>
     slots_ok (wd_slots (ms_world m)) \<and> (\<forall>a \<in> set (ms_threads m). sound b es (wd_slots (ms_world m)) a)"

text \<open>Every child ever started is held by somebody or was ended, once.\<close>

definition accounted :: "machine_state \<Rightarrow> bool" where
  "accounted m \<longleftrightarrow>
     distinct (wd_ended (ms_world m)) \<and>
     (\<forall>h. h \<in> set (ms_launched m) \<longleftrightarrow> 0 < wd_strong (ms_world m) h \<or> h \<in> set (wd_ended (ms_world m)))"

definition machine_ok :: "budget \<Rightarrow> entry list \<Rightarrow> machine_state \<Rightarrow> bool" where
  "machine_ok b es m \<longleftrightarrow> lock_ok m \<and> counted es m \<and> relied_on b es m \<and> accounted m"

lemma lock_holder:
  "lock_ok m \<Longrightarrow> k < length (ms_threads m) \<Longrightarrow> admitting_now (ms_threads m ! k) \<Longrightarrow> ms_admission m = Some k"
  unfolding lock_ok_def by blast

lemma lock_only:
  "lock_ok m \<Longrightarrow> j < length (ms_threads m) \<Longrightarrow> k < length (ms_threads m) \<Longrightarrow>
     admitting_now (ms_threads m ! j) \<Longrightarrow> admitting_now (ms_threads m ! k) \<Longrightarrow> j = k"
  using lock_holder by (metis option.inject)

lemma moves_over: "moves b es window a w a' w' \<Longrightarrow> admitting_now a \<Longrightarrow> admitting_now a' \<or> admission_over a'"
  by (induction rule: moves.induct) auto

lemma lock_step:
  assumes "lock_ok m" and "k < length (ms_threads m)"
    and "admitting_now a \<and> \<not> admitting_now (ms_threads m ! k) \<longrightarrow> ms_admission m = None"
    and "ms_threads m' = (ms_threads m)[k := a]"
    and "ms_admission m' = lock_after k (ms_threads m ! k) a (ms_admission m)"
    and over: "admitting_now (ms_threads m ! k) \<Longrightarrow> admitting_now a \<or> admission_over a"
  shows "lock_ok m'"
proof -
  have only: "j = k" if "j < length (ms_threads m)" "admitting_now (ms_threads m ! j)" "admitting_now (ms_threads m ! k)" for j
    using lock_only [OF assms(1) that(1) assms(2)] that by blast
  have idle: "\<not> admitting_now (ms_threads m ! j)" if "j < length (ms_threads m)" "ms_admission m = None" for j
    using assms(1) that unfolding lock_ok_def by auto
  show ?thesis
    unfolding lock_ok_def assms(4,5)
  proof
    fix j
    show "lock_after k (ms_threads m ! k) a (ms_admission m) = Some j \<longleftrightarrow>
        j < length ((ms_threads m)[k := a]) \<and> admitting_now ((ms_threads m)[k := a] ! j)"
    proof (cases "j = k")
      case True
      then show ?thesis using assms(1,2) over by (auto simp: lock_after_def lock_ok_def)
    next
      case False
      have free: "\<not> admitting_now (ms_threads m ! j)"
        if "j < length (ms_threads m)" "admitting_now a \<or> admitting_now (ms_threads m ! k)"
        using that only [of j] idle [of j] False assms(3) by (cases "admitting_now (ms_threads m ! k)") auto
      have "ms_admission m = Some j \<longleftrightarrow> j < length (ms_threads m) \<and> admitting_now (ms_threads m ! j)"
        using assms(1) by (simp add: lock_ok_def)
      then show ?thesis using False free over by (auto simp: lock_after_def)
    qed
  qed
qed

lemma counted_step:
  assumes "counted es m" and "k < length (ms_threads m)"
    and "moves b es window (ms_threads m ! k) (ms_world m) a w"
    and "ready_to_insert (wd_slots (ms_world m)) (ms_threads m ! k)"
    and "ms_threads m' = (ms_threads m)[k := a]" "ms_world m' = w"
  shows "counted es m'"
proof -
  let ?rest = "readers (take k (ms_threads m) @ drop (Suc k) (ms_threads m))"
  have member: "ms_threads m ! k \<in> set (ms_threads m)" using assms(2) by simp
  have "refs_ok (e_id ` set es) (\<lambda>h. ?rest h + holds (ms_threads m ! k) h) (ms_world m)"
    using assms(1) unfolding counted_def readers_at [OF assms(2)] by simp
  then have "refs_ok (e_id ` set es) (\<lambda>h. ?rest h + holds a h) w"
    by (rule moves_refs [OF assms(3) _ assms(4)]) (use assms(1) member in \<open>auto simp: counted_def\<close>)
  then have "refs_ok (e_id ` set es) (readers (ms_threads m')) (ms_world m')"
    unfolding assms(5,6) by (rule refs_cong) (simp add: readers_split [OF assms(2)])
  moreover have "\<forall>e. asked_for a = Some e \<longrightarrow> e \<in> set es"
    using moves_asked [OF assms(3)] member assms(1) unfolding counted_def by blast
  ultimately show ?thesis
    using assms(1) set_update_subset_insert [of "ms_threads m" k a] unfolding counted_def assms(5) by blast
qed

lemma relied_on_step:
  assumes "relied_on b es m" and "counted es m" and "lock_ok m" and "k < length (ms_threads m)"
    and "moves b es window (ms_threads m ! k) (ms_world m) a w"
    and "distinct (map e_id es)" and "length es < 2 ^ 30"
    and "ms_threads m' = (ms_threads m)[k := a]" "ms_world m' = w"
  shows "relied_on b es m'"
proof -
  let ?slots = "wd_slots (ms_world m)"
  have here: "sound b es ?slots (ms_threads m ! k)" and ok: "slots_ok ?slots"
    using assms(1,4) by (auto simp: relied_on_def)
  have fresh: "\<not> in_slot (ms_world m) h" if "fresh_handle h (ms_world m)" for h
  proof -
    have "refs_ok (e_id ` set es) (readers (ms_threads m)) (ms_world m)" using assms(2) by (simp add: counted_def)
    from refs_okD(3) [OF this, of h] show ?thesis using that by (auto simp: fresh_handle_def)
  qed
  have mine: "sound b es (wd_slots w) a"
    using moves_sound [OF assms(5) here ok fresh assms(6,7)] .
  have others: "sound b es (wd_slots w) (ms_threads m ! j)" if j: "j < length (ms_threads m)" "j \<noteq> k" for j
  proof (cases "\<exists>e held. ms_threads m ! k = Inserting e held")
    case True
    then have "admitting_now (ms_threads m ! k)" by auto
    then have "\<not> admitting_now (ms_threads m ! j)" using lock_only [OF assms(3) j(1) assms(4)] j(2) by blast
    then show ?thesis by (rule sound_free)
  next
    case False
    then have "shrunk ?slots (wd_slots w)" using moves_shrunk [OF assms(5)] by blast
    moreover have "sound b es ?slots (ms_threads m ! j)" using assms(1) j(1) by (simp add: relied_on_def)
    ultimately show ?thesis by (rule sound_shrunk [rotated])
  qed
  have "sound b es (wd_slots w) x" if x: "x \<in> set ((ms_threads m)[k := a])" for x
  proof -
    obtain j where "j < length (ms_threads m)" "x = (ms_threads m)[k := a] ! j"
      using x by (auto simp: in_set_conv_nth)
    then show ?thesis using mine others [of j] by (cases "j = k") simp_all
  qed
  then show ?thesis
    using moves_slots_ok [OF assms(5) ok here] unfolding relied_on_def assms(8,9) by blast
qed

section \<open>Every child is accounted for\<close>

definition known :: "world \<Rightarrow> nat \<Rightarrow> bool" where
  "known w h \<longleftrightarrow> 0 < wd_strong w h \<or> h \<in> set (wd_ended w)"

definition ended_once :: "world \<Rightarrow> bool" where
  "ended_once w \<longleftrightarrow> distinct (wd_ended w) \<and> (\<forall>h \<in> set (wd_ended w). wd_strong w h = 0)"

lemma ended_once_refs: "refs_ok ids ext w \<Longrightarrow> distinct (wd_ended w) \<Longrightarrow> ended_once w"
  using refs_okD(4) by (auto simp: ended_once_def)

lemma clone_known:
  "0 < wd_strong w (ch_handle c) \<Longrightarrow> known (clone_child c w) h = known w h"
  "wd_ended (clone_child c w) = wd_ended w"
  by (auto simp: known_def)

lemma drop_known:
  assumes "0 < wd_strong w (ch_handle c)"
  shows "known (drop_child c w) h = known w h" and "ended_once w \<Longrightarrow> distinct (wd_ended (drop_child c w))"
  using assms by (auto simp: known_def ended_once_def)

lemma put_known [simp]: "known (put_slot i x w) = known w" "ended_once (put_slot i x w) = ended_once w"
  by (auto simp: known_def ended_once_def)

lemma moves_known:
  assumes "moves b es window a w a' w'"
    and refs: "refs_ok ids (\<lambda>h. rest h + holds a h) w" and once: "ended_once w"
    and "ready_to_insert (wd_slots w) a"
  shows "(\<forall>h. known w' h \<longleftrightarrow> h \<in> set (launched_by a a') \<or> known w h) \<and> distinct (wd_ended w')"
proof -
  have live: "(\<forall>h. known w1 h \<longleftrightarrow> known w h) \<and> distinct (wd_ended w1)" if r: "live_child i now w = (r, w1)" for i now r w1
  proof (cases "wd_slots w i")
    case None
    then show ?thesis using r once by (auto simp: live_child_def ended_once_def)
  next
    case (Some held)
    then have "in_slot w (handle_of held)" by (auto simp: in_slot_def)
    then have "0 < wd_strong w (handle_of held)" using refs_okD(3) [OF refs] by simp
    with r Some once show ?thesis
      by (auto simp: live_child_def clone_known drop_known ended_once_def split: if_splits)
  qed
  have mine: "0 < wd_strong w (ch_handle c)" if "0 < holds a (ch_handle c)" for c
    using refs_okD(3) [OF refs, of "ch_handle c"] that by simp
  have still: "distinct (wd_ended w)" using once by (simp add: ended_once_def)
  show ?thesis
    using assms(1)
  proof cases
    case (drop c)
    then show ?thesis using drop_known [of w c] mine [of c] once by simp
  next
    case (insert e held c)
    then have "w' = put_slot (e_id e) (Some held) (clone_child (sc_child held) w)"
      using assms(4) by (auto simp: insert_child_def Let_def)
    then show ?thesis using insert clone_known(1) [of w "sc_child held"] mine [of "sc_child held"] still by simp
  next
    case (start server measuring now e held)
    then show ?thesis using still by (auto simp: start_child_def known_def split: sum.splits)
  next
    case (served e c now)
    then show ?thesis using still by (simp add: touch_def split: option.split)
  next
    case (take i held e ids)
    then show ?thesis using still take_if_idle_Taken [OF take(3)] by auto
  next
    case (take_empty i e ids)
    then show ?thesis using still take_if_idle_empty by fastforce
  next
    case (take_busy i e ids)
    then show ?thesis using still take_if_idle_busy by fastforce
  next
    case (reap i held status ids)
    then show ?thesis using still reaping.took by fastforce
  next
    case (reap_none i ids)
    then show ?thesis using still reaping.left by fastforce
  next
    case (expire now d i held u ids)
    then show ?thesis using still expiring.took by fastforce
  next
    case (expire_none now d i ids)
    then show ?thesis using still expiring.left by fastforce
  qed (use live still in \<open>auto simp: start_child_def split: sum.splits\<close>)
qed

lemma accounted_step:
  assumes "accounted m" and "counted es m" and "k < length (ms_threads m)"
    and "moves b es window (ms_threads m ! k) (ms_world m) a w"
    and "ready_to_insert (wd_slots (ms_world m)) (ms_threads m ! k)"
    and "ms_world m' = w" "ms_launched m' = launched_by (ms_threads m ! k) a @ ms_launched m"
  shows "accounted m'"
proof -
  let ?rest = "readers (take k (ms_threads m) @ drop (Suc k) (ms_threads m))"
  have refs: "refs_ok (e_id ` set es) (\<lambda>h. ?rest h + holds (ms_threads m ! k) h) (ms_world m)"
    using assms(2) unfolding counted_def readers_at [OF assms(3)] by simp
  have "ended_once (ms_world m)" using ended_once_refs [OF refs] assms(1) by (simp add: accounted_def)
  from moves_known [OF assms(4) refs this assms(5)] assms(1)
  show ?thesis unfolding accounted_def assms(6,7) known_def by auto
qed

lemma begins_ok: "machine_ok b es (at_rest n)"
  by (auto simp: machine_ok_def at_rest_def lock_ok_def counted_def relied_on_def accounted_def slots_ok_def
      refs_ok_def in_slot_def readers_def sum_list_replicate)

lemma step_ok:
  assumes "step b es window m m'" and "machine_ok b es m"
    and es: "distinct (map e_id es)" "length es < 2 ^ 30"
  shows "machine_ok b es m'"
  using assms(1)
proof cases
  case (thread k a w)
  have ok: "lock_ok m" "counted es m" "relied_on b es m" "accounted m" using assms(2) by (simp_all add: machine_ok_def)
  then have "sound b es (wd_slots (ms_world m)) (ms_threads m ! k)" using thread(2) by (simp add: relied_on_def)
  then have ready: "ready_to_insert (wd_slots (ms_world m)) (ms_threads m ! k)" by (rule sound_ready)
  have new: "ms_threads m' = (ms_threads m)[k := a]" "ms_world m' = w"
    "ms_admission m' = lock_after k (ms_threads m ! k) a (ms_admission m)"
    "ms_launched m' = launched_by (ms_threads m ! k) a @ ms_launched m"
    using thread(1) by simp_all
  show ?thesis
    unfolding machine_ok_def
    using lock_step [OF ok(1) thread(2,4) new(1,3) moves_over [OF thread(3)]] counted_step [OF ok(2) thread(2,3) ready new(1,2)]
      relied_on_step [OF ok(3,2,1) thread(2,3) es new(1,2)] accounted_step [OF ok(4,2) thread(2,3) ready new(2,4)]
    by blast
next
  case (exits h status)
  then show ?thesis using assms(2)
    by (simp add: machine_ok_def lock_ok_def counted_def relied_on_def accounted_def refs_exited)
qed

lemma reachable_ok:
  assumes "reachable b es window n m" and "distinct (map e_id es)" "length es < 2 ^ 30"
  shows "machine_ok b es m"
  using assms(1) by induction (use begins_ok step_ok [OF _ _ assms(2,3)] in blast)+

end
