(* ===== verification/Slots_Safety.thy ===== *)
theory Slots_Safety
  imports Slots_Machine_Laws
begin

text \<open>
  What the interleaved slots promise their callers: a request is never cut off by an unload, one
  admission at a time, the room found for a model is there when it starts, a resident leaves its slot
  only when its process is gone or the router stops, and no child is forgotten. That no thread waits for
  good is shown in \<open>Slots_Locks\<close>, from the measure of a thread's work given here. The invariants of \<open>Slots_Machine_Laws\<close> carry the first of these; two
  more are added here, for readers and for residents.
\<close>

section \<open>A reader keeps its slot\<close>

fun clearing_now :: "activity \<Rightarrow> bool" where
  "clearing_now (Clearing ids taken) = True"
| "clearing_now (Dropping c a) = clearing_now a"
| "clearing_now _ = False"

lemma moves_clearing: "moves b es window a w a' w' \<Longrightarrow> clearing_now a' \<Longrightarrow> clearing_now a \<or> is_Clearing a'"
  by (induction rule: moves.induct) auto

lemma live_child_held:
  assumes "live_child i now w = (r, w')" and "wd_slots w j = Some held" and "1 < wd_strong w (handle_of held)"
  shows "\<exists>held'. wd_slots w' j = Some held' \<and> sc_child held' = sc_child held"
  using assms by (cases "i = j") (auto simp: live_child_def exited_def split: option.splits if_splits)

lemma take_idle_held:
  assumes "take_if_idle i also w = (r, w')" and "wd_slots w j = Some held" and "1 < wd_strong w (handle_of held)"
  shows "wd_slots w' j = Some held"
  using assms by (cases "i = j") (auto simp: take_if_idle_def busy_def split: option.splits if_splits)

lemma moves_held:
  assumes "moves b es window a w a' w'" and "ready_to_insert (wd_slots w) a" and "\<not> clearing_now a"
    and slot: "wd_slots w j = Some held" and many: "1 < wd_strong w (handle_of held)"
  shows "\<exists>held'. wd_slots w' j = Some held' \<and> sc_child held' = sc_child held"
  using assms(1)
proof cases
  case (insert e x c)
  then have "e_id e \<noteq> j" using assms(2) slot by auto
  moreover have "wd_slots w' = (wd_slots w)(e_id e \<mapsto> x)" using insert(3) by (auto dest: inserted_slots)
  ultimately show ?thesis using slot by simp
next
  case (reap i x status ids)
  then have "i \<noteq> j" using reaping.took [OF reap(3)] slot many by auto
  then show ?thesis using reaping.took [OF reap(3)] slot by simp
next
  case (reap_none i ids)
  then show ?thesis using reaping.left slot by fastforce
next
  case (expire now d i x u ids)
  then have "i \<noteq> j" using expiring.took [OF expire(3)] slot many by auto
  then show ?thesis using expiring.took [OF expire(3)] slot by simp
next
  case (expire_none now d i ids)
  then show ?thesis using expiring.left slot by fastforce
next
  case (served e c now)
  then show ?thesis using slot by (cases "e_id e = j") (auto simp: touch_def split: option.splits)
next
  case (clear_one i x ids taken)
  then show ?thesis using assms(3) by simp
qed (use slot many live_child_held [OF _ slot many] take_idle_held [OF _ slot many] in
      \<open>auto simp: start_child_def split: sum.splits\<close>)

text \<open>A handle is let go of on the way to a few places only, and the relay is not one of them.\<close>

fun after_drop :: "activity \<Rightarrow> bool" where
  "after_drop Resting = True"
| "after_drop (Unloading e ids) = True"
| "after_drop (Reaping ids) = True"
| "after_drop (Expiring now d ids) = True"
| "after_drop (Clearing ids taken) = True"
| "after_drop _ = False"

fun drops_ok :: "activity \<Rightarrow> bool" where
  "drops_ok (Dropping c a) = after_drop a"
| "drops_ok _ = True"

lemma after_drop_ok: "after_drop a \<Longrightarrow> drops_ok a"
  by (cases a) auto

lemma moves_drops: "moves b es window a w a' w' \<Longrightarrow> drops_ok a \<Longrightarrow> drops_ok a'"
  by (induction rule: moves.induct) (auto simp: after_drop_ok)

definition served_ok :: "machine_state \<Rightarrow> bool" where
  "served_ok m \<longleftrightarrow>
     (\<forall>a \<in> set (ms_threads m). drops_ok a \<and> (clearing_now a \<longrightarrow> ms_stopping m)) \<and>
     (\<not> ms_stopping m \<longrightarrow> (\<forall>e c. Serving e c \<in> set (ms_threads m) \<longrightarrow>
        (\<exists>held. wd_slots (ms_world m) (e_id e) = Some held \<and> sc_child held = c)))"

lemma moves_serving:
  assumes "moves b es window a w (Serving e c) w'" and "ready_to_insert (wd_slots w) a" and "drops_ok a"
  shows "\<exists>held. wd_slots w' (e_id e) = Some held \<and> sc_child held = c"
  using assms
  by (cases rule: moves.cases)
    (auto simp: live_child_def insert_child_def Let_def split: option.splits if_splits)

lemma served_strong:
  assumes "counted es m" and "Serving e c \<in> set (ms_threads m)"
    and "wd_slots (ms_world m) i = Some held" and "sc_child held = c"
  shows "1 < wd_strong (ms_world m) (handle_of held)"
proof -
  obtain k where k: "k < length (ms_threads m)" "ms_threads m ! k = Serving e c"
    using assms(2) by (auto simp: in_set_conv_nth)
  have "refs_ok (e_id ` set es) (readers (ms_threads m)) (ms_world m)" using assms(1) by (simp add: counted_def)
  from refs_okD(3) [OF this, of "handle_of held"]
  have "wd_strong (ms_world m) (handle_of held) = Suc (readers (ms_threads m) (handle_of held))"
    using assms(3) by (auto simp: in_slot_def)
  then show ?thesis using holds_readers [OF k(1), of "handle_of held"] k(2) assms(4) by simp
qed

lemma served_step:
  assumes "step b es window m m'" and "machine_ok b es m" and "served_ok m"
  shows "served_ok m'"
  using assms(1)
proof cases
  case (thread k a w)
  have k: "ms_threads m ! k \<in> set (ms_threads m)" using thread(2) by simp
  have sound: "sound b es (wd_slots (ms_world m)) (ms_threads m ! k)" and counted: "counted es m"
    using assms(2) k by (auto simp: machine_ok_def relied_on_def)
  note ready = sound_ready [OF sound]
  have shape: "drops_ok (ms_threads m ! k)" using assms(3) k by (simp add: served_ok_def)
  have subset: "set ((ms_threads m)[k := a]) \<subseteq> insert a (set (ms_threads m))" by (rule set_update_subset_insert)
  have new: "clearing_now a \<Longrightarrow> ms_stopping m \<or> is_Clearing a"
    using moves_clearing [OF thread(3)] assms(3) k by (auto simp: served_ok_def)
  have "drops_ok x \<and> (clearing_now x \<longrightarrow> ms_stopping m')" if "x \<in> set (ms_threads m')" for x
    using that subset new moves_drops [OF thread(3) shape] assms(3) thread(1) by (auto simp: served_ok_def)
  moreover have "\<exists>held. wd_slots (ms_world m') (e_id e) = Some held \<and> sc_child held = c"
    if going: "\<not> ms_stopping m'" and x: "Serving e c \<in> set (ms_threads m')" for e c
  proof (cases "a = Serving e c")
    case True
    then show ?thesis using moves_serving [of b es window _ _ e c w] thread(1,3) ready shape by simp
  next
    case False
    then have old: "Serving e c \<in> set (ms_threads m)" using x subset thread(1) by auto
    moreover have "\<not> ms_stopping m" using going thread(1) by simp
    ultimately obtain held where held: "wd_slots (ms_world m) (e_id e) = Some held" "sc_child held = c"
      using assms(3) unfolding served_ok_def by blast
    have "\<not> clearing_now (ms_threads m ! k)" using assms(3) k going thread(1) by (auto simp: served_ok_def)
    from moves_held [OF thread(3) ready this held(1) served_strong [OF counted old held]]
    show ?thesis using held(2) thread(1) by auto
  qed
  ultimately show ?thesis unfolding served_ok_def by blast
next
  case (exits h status)
  then show ?thesis using assms(3) by (simp add: served_ok_def)
qed

section \<open>A resident stays\<close>

definition on_demand :: "entry list \<Rightarrow> string \<Rightarrow> bool" where
  "on_demand es i \<longleftrightarrow> (\<exists>e \<in> set es. e_id e = i \<and> e_residency e = OnDemand)"

definition from_entry :: "entry list \<Rightarrow> loaded \<Rightarrow> bool" where
  "from_entry es l \<longleftrightarrow> (\<exists>e \<in> set es. e_id e = l_id l \<and> e_residency e = l_residency l)"

fun spares :: "entry list \<Rightarrow> activity \<Rightarrow> bool" where
  "spares es (Reading e seen todo acc) \<longleftrightarrow> set todo \<subseteq> set es \<and> (\<forall>l \<in> set acc. from_entry es l)"
| "spares es (Weighing d todo acc) \<longleftrightarrow> set todo \<subseteq> set es \<and> (\<forall>l \<in> set acc. from_entry es l)"
| "spares es (Unloading e ids) \<longleftrightarrow> (\<forall>i \<in> set ids. on_demand es i)"
| "spares es (Expiring now d ids) \<longleftrightarrow> (\<forall>i \<in> set ids. on_demand es i)"
| "spares es (Dropping c a) \<longleftrightarrow> spares es a"
| "spares es _ \<longleftrightarrow> True"

lemma read_slot_from: "x \<in> set es \<Longrightarrow> l \<in> set (read_slot x w) \<Longrightarrow> from_entry es l"
  by (auto simp: read_slot_def from_entry_def held_as_def loaded_of_def Let_def split: option.splits)

lemma choose_unloads_ids:
  "choose_unloads r w cs f un = (f', ids) \<Longrightarrow> set ids \<subseteq> set un \<union> l_id ` set cs \<and> length ids \<le> length un + length cs"
  by (induction r w cs f un rule: choose_unloads.induct) (fastforce split: if_splits)+

lemma admit_unload_ids:
  assumes "admit b acc w free = Unload ids"
  shows "length ids \<le> length acc" and "i \<in> set ids \<Longrightarrow> \<exists>l \<in> set acc. l_id l = i \<and> l_residency l = OnDemand"
proof -
  have "decide b acc w free = Unload ids" using assms by (auto simp: admit_decide split: if_splits)
  then obtain f where chosen: "choose_unloads (room_for b acc free) w (admit_candidates w acc) nothing_freed [] = (f, ids)"
    by (auto simp: decide_def Let_def split: if_splits option.splits prod.splits)
  have "length (admit_candidates w acc) \<le> length acc" by (simp add: admit_candidates_def)
  then show "length ids \<le> length acc" using choose_unloads_ids [OF chosen] by simp
  show "\<exists>l \<in> set acc. l_id l = i \<and> l_residency l = OnDemand" if "i \<in> set ids"
    using choose_unloads_ids [OF chosen] that by (fastforce simp: admit_candidates_def candidate_def)
qed

lemma expired_ids:
  shows "length (expired window acc now) \<le> length acc"
    and "i \<in> set (expired window acc now) \<Longrightarrow> \<exists>l \<in> set acc. l_id l = i \<and> l_residency l = OnDemand"
  by (auto simp: expired_def idle_candidates_def outlived_def split: option.splits)

lemma moves_spares: "moves b es window a w a' w' \<Longrightarrow> spares es a \<Longrightarrow> spares es a'"
proof (induction rule: moves.induct)
  case (chosen free acc e ids seen w)
  then show ?case using admit_unload_ids(2) [OF chosen(2)] by (fastforce simp: from_entry_def on_demand_def)
next
  case (weighed d acc w now)
  then show ?case using expired_ids(2) [of _ window acc now] by (fastforce simp: from_entry_def on_demand_def)
qed (auto dest: read_slot_from)

lemma on_demand_not_resident:
  assumes "on_demand es i" and "distinct (map e_id es)" and "e \<in> set es" and "e_residency e = Resident"
  shows "i \<noteq> e_id e"
  using assms by (fastforce simp: on_demand_def distinct_map inj_on_def)

lemma live_child_exited:
  assumes "live_child i now w = (r, w')" and "wd_slots w j = Some held"
  shows "(\<exists>held'. wd_slots w' j = Some held' \<and> sc_child held' = sc_child held) \<or>
    (\<exists>status. wd_process w (handle_of held) = Exited status)"
  using assms by (cases "i = j")
    (auto simp: live_child_def exited_def split: option.splits if_splits liveness.splits)

lemma take_idle_other:
  "take_if_idle i also w = (r, w') \<Longrightarrow> i \<noteq> j \<Longrightarrow> wd_slots w' j = wd_slots w j"
  by (auto simp: take_if_idle_def split: option.splits if_splits)

lemma moves_resident:
  assumes "moves b es window a w a' w'" and "ready_to_insert (wd_slots w) a" and "\<not> clearing_now a"
    and "spares es a" and "distinct (map e_id es)" and resident: "e \<in> set es" "e_residency e = Resident"
    and slot: "wd_slots w (e_id e) = Some held"
  shows "(\<exists>held'. wd_slots w' (e_id e) = Some held' \<and> sc_child held' = sc_child held) \<or>
    (\<exists>status. wd_process w (handle_of held) = Exited status)"
  using assms(1)
proof cases
  case (insert x h c)
  then have "e_id x \<noteq> e_id e" using assms(2) slot by auto
  moreover have "wd_slots w' = (wd_slots w)(e_id x \<mapsto> h)" using insert(3) by (auto dest: inserted_slots)
  ultimately show ?thesis using slot by simp
next
  case (take i x f ids)
  then have "i \<noteq> e_id e" using assms(4) on_demand_not_resident [OF _ assms(5) resident] by auto
  then show ?thesis using take_idle_other [OF take(3)] slot by simp
next
  case (expire now d i x u ids)
  then have "i \<noteq> e_id e" using assms(4) on_demand_not_resident [OF _ assms(5) resident] by auto
  then show ?thesis using expiring.took [OF expire(3)] slot by simp
next
  case (reap i x status ids)
  show ?thesis
  proof (cases "i = e_id e")
    case True
    then show ?thesis using reap(3) slot
      by (auto simp: take_if_exited_def exited_def split: option.splits if_splits liveness.splits)
  next
    case False
    then show ?thesis using reaping.took [OF reap(3)] slot by simp
  qed
next
  case (served x c now)
  then show ?thesis using slot by (cases "e_id x = e_id e") (auto simp: touch_def split: option.splits)
next
  case (clear_one i x ids taken)
  then show ?thesis using assms(3) by simp
next
  case (take_empty i x ids)
  then show ?thesis using slot take_if_idle_empty by fastforce
next
  case (take_busy i x ids)
  then show ?thesis using slot take_if_idle_busy by fastforce
next
  case (reap_none i ids)
  then show ?thesis using slot reaping.left by fastforce
next
  case (expire_none now d i ids)
  then show ?thesis using slot expiring.left by fastforce
qed (use slot live_child_exited [OF _ slot] in \<open>auto simp: start_child_def split: sum.splits\<close>)

definition safe :: "budget \<Rightarrow> entry list \<Rightarrow> machine_state \<Rightarrow> bool" where
  "safe b es m \<longleftrightarrow> machine_ok b es m \<and> served_ok m \<and> (\<forall>a \<in> set (ms_threads m). spares es a)"

lemma step_safe:
  assumes "step b es window m m'" and "safe b es m" and "distinct (map e_id es)" "length es < 2 ^ 30"
  shows "safe b es m'"
proof -
  have "spares es x" if "x \<in> set (ms_threads m')" for x
    using assms(1)
  proof cases
    case (thread k a w)
    then have "spares es a" using moves_spares assms(2) by (auto simp: safe_def)
    then show ?thesis
      using that thread(1) assms(2) set_update_subset_insert [of "ms_threads m" k a] by (auto simp: safe_def)
  next
    case (exits h status)
    then show ?thesis using that assms(2) by (simp add: safe_def)
  qed
  then show ?thesis
    using assms step_ok [OF assms(1)] served_step [OF assms(1)] by (auto simp: safe_def)
qed

lemma reachable_safe:
  assumes "reachable b es window n m" and "distinct (map e_id es)" "length es < 2 ^ 30"
  shows "safe b es m"
  using assms(1)
proof induction
  case begins
  then show ?case using begins_ok by (auto simp: safe_def served_ok_def at_rest_def)
next
  case (goes_on m m')
  then show ?case using step_safe [OF _ _ assms(2,3)] by blast
qed

section \<open>Every thread works towards its rest\<close>

text \<open>
  What is left of a thread's program, as a number every step of its own makes smaller. A pause that goes
  back to read the slots again starts the reading over; how often it may is what the
  deadline of the wait bounds.
\<close>

fun work :: "entry list \<Rightarrow> activity \<Rightarrow> nat" where
  "work es Resting = 0"
| "work es (Asking e) = 3 * length es + 10"
| "work es (Queueing e) = 3 * length es + 9"
| "work es (Rechecking e) = 3 * length es + 8"
| "work es (Locating e) = 3 * length es + 7"
| "work es (Reading e seen todo acc) = 3 * length todo + 2 * length acc + 6"
| "work es (Unloading e ids) = 2 * length ids + 5"
| "work es (Pausing e) = 1"
| "work es (Starting e) = 4"
| "work es (Inserting e held) = 3"
| "work es (Serving e c) = 2"
| "work es (Reaping ids) = 2 * length ids + 3 * length es + 3"
| "work es (Weighing d todo acc) = 3 * length todo + 2 * length acc + 2"
| "work es (Expiring now d ids) = 2 * length ids + 1"
| "work es (Clearing ids taken) = 3 * length ids + 2 * length taken + 1"
| "work es (Dropping c a) = Suc (work es a)"

lemma length_read_slot: "length (read_slot x w) \<le> 1"
  by (simp add: read_slot_def split: option.split)

lemma moves_work:
  "moves b es window a w a' w' \<Longrightarrow> a \<noteq> Resting \<Longrightarrow> work es a' < work es a \<or> (\<exists>e. a = Pausing e \<and> a' = Reading e [] es [])"
proof (induction rule: moves.induct)
  case (chosen free acc e ids seen w)
  then show ?case using admit_unload_ids(1) [OF chosen(2)] by simp
next
  case (weighed d acc w now)
  then show ?case using expired_ids(1) [of window acc now] by simp
next
  case (read e seen x todo acc w)
  then show ?case using length_read_slot [of x w] by simp
next
  case (weigh_one d x todo acc w)
  then show ?case using length_read_slot [of x w] by simp
qed simp_all

text \<open>A thread can go on from where it is, without taking a lock it did not have, and a pause is given up for good.\<close>

definition can_move :: "budget \<Rightarrow> entry list \<Rightarrow> idle_window \<Rightarrow> activity \<Rightarrow> world \<Rightarrow> bool" where
  "can_move b es window a w \<longleftrightarrow>
     (\<exists>a' w'. moves b es window a w a' w' \<and> (a' \<noteq> Resting \<longrightarrow> \<not> (\<exists>e. a = Pausing e)) \<and>
        (admitting_now a' \<longrightarrow> admitting_now a))"

lemma can_moveI:
  "moves b es window a w a' w' \<Longrightarrow> (\<And>e. a = Pausing e \<Longrightarrow> a' = Resting) \<Longrightarrow> (admitting_now a' \<Longrightarrow> admitting_now a) \<Longrightarrow>
     can_move b es window a w"
  by (auto simp: can_move_def)

lemma asking_goes_on: "can_move b es window (Asking e) w" "can_move b es window (Rechecking e) w"
proof -
  obtain r w' where r: "live_child (e_id e) (Instant 0) w = (r, w')" by fastforce
  show "can_move b es window (Asking e) w" "can_move b es window (Rechecking e) w"
    using r by (cases r; auto intro: can_moveI fast_hit fast_miss slow_hit slow_miss)+
qed

lemma reading_goes_on: "can_move b es window (Reading e seen todo acc) w"
proof -
  have "figure_ok None" by (simp add: figure_ok_def)
  then show ?thesis
    using read fits chosen moves.blocked moves.refused
    by (cases todo; cases "admit b acc (wanted_of e) None") (fastforce intro: can_moveI)+
qed

lemma unloading_goes_on: "can_move b es window (Unloading e ids) w"
proof (cases ids)
  case Nil
  then show ?thesis using unloaded by (fastforce intro: can_moveI)
next
  case (Cons i js)
  obtain r w' where r: "take_if_idle i (\<lambda>_. True) w = (r, w')" by fastforce
  then show ?thesis using Cons take take_empty take_busy by (cases r) (fastforce intro: can_moveI)+
qed

lemma starting_goes_on: "can_move b es window (Starting e) w" "can_move b es window (Inserting e held) w"
proof -
  have "start_child (\<lambda>_. Inl (Unavailable [])) (\<lambda>_. unknown_measurement) (Instant 0) e w = (Inl (Unavailable []), w)"
    by (simp add: start_child_def)
  then show "can_move b es window (Starting e) w" using not_started by (fastforce intro: can_moveI)
  obtain c w' where "insert_child (e_id e) held w = (c, w')" by fastforce
  then show "can_move b es window (Inserting e held) w" using insert by (fastforce intro: can_moveI)
qed

lemma ticking_goes_on:
  "can_move b es window (Reaping ids) w" "can_move b es window (Weighing d todo acc) w" "can_move b es window (Expiring now d ids) w"
proof -
  show "can_move b es window (Reaping ids) w"
  proof (cases ids)
    case Nil
    then show ?thesis using weigh no_window by (cases "window_duration window") (fastforce intro: can_moveI)+
  next
    case (Cons i js)
    obtain r w' where "take_if_exited i w = (r, w')" by fastforce
    then show ?thesis using Cons reap reap_none by (cases r) (fastforce intro: can_moveI)+
  qed
  show "can_move b es window (Weighing d todo acc) w"
    using weigh_one weighed by (cases todo) (fastforce intro: can_moveI)+
  show "can_move b es window (Expiring now d ids) w"
  proof (cases ids)
    case Nil
    then show ?thesis using tick_over by (fastforce intro: can_moveI)
  next
    case (Cons i js)
    obtain r w' where "take_stale now d i w = (r, w')" by fastforce
    then show ?thesis using Cons expire expire_none by (cases r) (fastforce intro: can_moveI)+
  qed
qed

lemma clearing_goes_on: "can_move b es window (Clearing ids taken) w"
proof (cases ids)
  case Nil
  then show ?thesis using clear_drop cleared by (cases taken) (fastforce intro: can_moveI)+
next
  case (Cons i js)
  then show ?thesis using clear_one clear_none by (cases "wd_slots w i") (fastforce intro: can_moveI)+
qed

lemma anyone_goes_on:
  assumes "a \<noteq> Resting" and "\<forall>e. a \<noteq> Queueing e"
  shows "can_move b es window a w"
proof (cases a)
  case (Locating e)
  then show ?thesis using located by (fastforce intro: can_moveI)
next
  case (Pausing e)
  then show ?thesis using give_up by (fastforce intro: can_moveI)
next
  case (Serving e c)
  then show ?thesis using served by (fastforce intro: can_moveI)
next
  case (Dropping c a)
  then show ?thesis using drop by (fastforce intro: can_moveI)
qed (use assms asking_goes_on reading_goes_on unloading_goes_on starting_goes_on ticking_goes_on clearing_goes_on in simp_all)

text \<open>A thread that is neither resting nor waiting for the lock can always go on, and towards rest.\<close>

lemma resting_moves:
  assumes "a \<noteq> Resting" and "\<forall>e. a \<noteq> Queueing e"
  shows "\<exists>a' w'. moves b es window a w a' w' \<and> work es a' < work es a \<and> (admitting_now a' \<longrightarrow> admitting_now a)"
proof -
  obtain a' w' where go: "moves b es window a w a' w'" "a' \<noteq> Resting \<longrightarrow> \<not> (\<exists>e. a = Pausing e)"
      "admitting_now a' \<longrightarrow> admitting_now a"
    using anyone_goes_on [OF assms, of b es window w] unfolding can_move_def by blast
  from moves_work [OF go(1) assms(1)] go(2) have "work es a' < work es a" by auto
  with go show ?thesis by blast
qed

section \<open>The promises\<close>

text \<open>
  C2: No reader is cut off. In every interleaving, a child some thread has a handle of has not
  been ended, no child is ended twice, and until the router stops a request that is being
  relayed finds its own child still in the slot of its entry.
\<close>

theorem no_reader_cut_off:
  assumes "reachable b es window n m" and "distinct (map e_id es)" and "length es < 2 ^ 30"
    and "a \<in> set (ms_threads m)"
  shows "(0 < holds a h \<longrightarrow> 0 < wd_strong (ms_world m) h \<and> h \<notin> set (wd_ended (ms_world m))) \<and>
    distinct (wd_ended (ms_world m)) \<and>
    (a = Serving e c \<and> \<not> ms_stopping m \<longrightarrow>
       (\<exists>held. wd_slots (ms_world m) (e_id e) = Some held \<and> sc_child held = c \<and> busy (ms_world m) c))"
proof (intro conjI impI)
  have ok: "counted es m" "accounted m" "served_ok m"
    using reachable_safe [OF assms(1-3)] by (simp_all add: safe_def machine_ok_def)
  have refs: "refs_ok (e_id ` set es) (readers (ms_threads m)) (ms_world m)" using ok(1) by (simp add: counted_def)
  obtain k where k: "k < length (ms_threads m)" "ms_threads m ! k = a" using assms(4) by (auto simp: in_set_conv_nth)
  {
    assume "0 < holds a h"
    then have "0 < readers (ms_threads m) h" using holds_readers [OF k(1), of h] k(2) by simp
    then show "0 < wd_strong (ms_world m) h" "h \<notin> set (wd_ended (ms_world m))"
      using refs_okD(3) [OF refs, of h] refs_ended [OF refs, of h] by auto
  next
    show "distinct (wd_ended (ms_world m))" using ok(2) by (simp add: accounted_def)
  next
    assume "a = Serving e c \<and> \<not> ms_stopping m"
    then have s: "Serving e c \<in> set (ms_threads m)" and going: "\<not> ms_stopping m" using assms(4) by auto
    then obtain held where held: "wd_slots (ms_world m) (e_id e) = Some held" "sc_child held = c"
      using ok(3) unfolding served_ok_def by blast
    with served_strong [OF ok(1) s held]
    show "\<exists>held. wd_slots (ms_world m) (e_id e) = Some held \<and> sc_child held = c \<and> busy (ms_world m) c"
      by (auto simp: busy_def)
  }
qed

text \<open>
  C1: Room that was found is there when it is used. A thread that is about to start a child, or has
  started one and not yet put it in its slot, finds that slot empty and everything loaded, as
  measured, within the budget together with the estimate of what it loads; no other thread is
  past the admission lock. The snapshot it decided from was read one slot at a time while the
  others went on.
\<close>

theorem room_still_there:
  assumes "reachable b es window n m" and "distinct (map e_id es)" and "length es < 2 ^ 30"
    and "k < length (ms_threads m)" and "ms_threads m ! k = Starting e \<or> ms_threads m ! k = Inserting e held"
  shows "wd_slots (ms_world m) (e_id e) = None \<and>
    (\<forall>limit. b_limit_mib b = Some limit \<longrightarrow>
       ledger es (wd_slots (ms_world m)) + unat (e_memory_estimate_mib e) \<le> unat limit) \<and>
    (\<forall>j < length (ms_threads m). admitting_now (ms_threads m ! j) \<longrightarrow> j = k)"
proof (intro conjI)
  have ok: "lock_ok m" "relied_on b es m"
    using reachable_safe [OF assms(1-3)] by (simp_all add: safe_def machine_ok_def)
  have sound: "sound b es (wd_slots (ms_world m)) (ms_threads m ! k)" using ok(2) assms(4) by (simp add: relied_on_def)
  then show "wd_slots (ms_world m) (e_id e) = None" using assms(5) by auto
  show "\<forall>limit. b_limit_mib b = Some limit \<longrightarrow>
       ledger es (wd_slots (ms_world m)) + unat (e_memory_estimate_mib e) \<le> unat limit"
    using sound assms(5) by (auto simp: within_budget_def)
  have "admitting_now (ms_threads m ! k)" using assms(5) by auto
  then show "\<forall>j < length (ms_threads m). admitting_now (ms_threads m ! j) \<longrightarrow> j = k"
    using lock_only [OF ok(1) _ assms(4)] by blast
qed

text \<open>
  C15: A resident stays. In no step of any thread does the child of a resident entry leave its
  slot, unless its process has exited on its own or the router is stopping: neither room
  for another model nor the idle window ever unloads it.
\<close>

theorem resident_keeps_slot:
  assumes "reachable b es window n m" and "distinct (map e_id es)" and "length es < 2 ^ 30"
    and "step b es window m m'" and "e \<in> set es" and "e_residency e = Resident"
    and "wd_slots (ms_world m) (e_id e) = Some held" and "\<not> ms_stopping m"
  shows "(\<exists>held'. wd_slots (ms_world m') (e_id e) = Some held' \<and> sc_child held' = sc_child held) \<or>
    (\<exists>status. wd_process (ms_world m) (handle_of held) = Exited status)"
  using assms(4)
proof cases
  case (thread k a w)
  have safe: "safe b es m" by (rule reachable_safe [OF assms(1-3)])
  have k: "ms_threads m ! k \<in> set (ms_threads m)" using thread(2) by simp
  have "sound b es (wd_slots (ms_world m)) (ms_threads m ! k)" "spares es (ms_threads m ! k)"
      "\<not> clearing_now (ms_threads m ! k)"
    using safe k assms(8) by (auto simp: safe_def machine_ok_def relied_on_def served_ok_def)
  from moves_resident [OF thread(3) sound_ready [OF this(1)] this(3,2) assms(2,5,6,7)]
  show ?thesis using thread(1) by simp
qed (use assms(7) in simp)

text \<open>
  C17: No child is forgotten. When every thread is at rest and every slot of the catalog is empty,
  as after a stop, each child that was ever started has been ended, exactly once.
\<close>

theorem nothing_leaks:
  assumes "reachable b es window n m" and "distinct (map e_id es)" and "length es < 2 ^ 30"
    and "\<forall>a \<in> set (ms_threads m). a = Resting" and "\<forall>e \<in> set es. wd_slots (ms_world m) (e_id e) = None"
  shows "set (ms_launched m) = set (wd_ended (ms_world m)) \<and> distinct (wd_ended (ms_world m))"
proof -
  have ok: "counted es m" "accounted m"
    using reachable_safe [OF assms(1-3)] by (simp_all add: safe_def machine_ok_def)
  have refs: "refs_ok (e_id ` set es) (readers (ms_threads m)) (ms_world m)" using ok(1) by (simp add: counted_def)
  have "holds a h = 0" if "a \<in> set (ms_threads m)" for a h
    using bspec [OF assms(4) that] by simp
  then have "readers (ms_threads m) h = 0" for h
    by (simp add: readers_def sum_list_eq_0_iff)
  moreover have "\<not> in_slot (ms_world m) h" for h
    using assms(5) refs_okD(1) [OF refs] by (fastforce simp: in_slot_def)
  ultimately have "wd_strong (ms_world m) h = 0" for h using refs_okD(3) [OF refs, of h] by simp
  then show ?thesis using ok(2) by (auto simp: accounted_def)
qed

section \<open>Applied\<close>

definition lone :: "activity \<Rightarrow> nat option \<Rightarrow> world \<Rightarrow> nat list \<Rightarrow> machine_state" where
  "lone a lock w l =
     \<lparr>ms_threads = [a], ms_admission = lock, ms_world = w, ms_launched = l, ms_stopping = False\<rparr>"

lemma lone_goes_on:
  assumes "reachable b es window 1 (lone a lock w l)" and "moves b es window a w a' w'"
    and "admitting_now a' \<and> \<not> admitting_now a \<longrightarrow> lock = None" and "\<not> is_Clearing a'"
  shows "reachable b es window 1 (lone a' (lock_after 0 a a' lock) w' (launched_by a a' @ l))"
proof -
  have "step b es window (lone a lock w l) (lone a' (lock_after 0 a a' lock) w' (launched_by a a' @ l))"
    using thread [of 0 "lone a lock w l" b es window a' w'] assms(2-4) by (simp add: lone_def)
  with assms(1) show ?thesis by (rule goes_on)
qed

definition empty_world :: world where
  "empty_world = \<lparr>wd_slots = Map.empty, wd_strong = (\<lambda>_. 0), wd_process = (\<lambda>_. Running), wd_ended = []\<rparr>"

definition sample_budget :: budget where "sample_budget = budget_new (Some 1000)"
definition sample_entry :: entry where "sample_entry = (small_entry ''n'' 600)\<lparr>e_residency := Resident\<rparr>"
definition sample_held :: slot_child where
  "sample_held = \<lparr>sc_child = sample_child 7, sc_last_used = Instant 1, sc_measured = \<lparr>resident_mib = Some 500, device_mib = None\<rparr>\<rparr>"
definition sample_window :: idle_window where "sample_window = IdleWindow (Some 3)"

definition started_world :: world where
  "started_world = empty_world\<lparr>wd_strong := (\<lambda>_. 0)(7 := 1), wd_process := (\<lambda>_. Running)(7 := Running)\<rparr>"

definition served_world :: world where
  "served_world = put_slot ''n'' (Some sample_held) (clone_child (sample_child 7) started_world)"

lemma sample_nothing: "live_child (e_id sample_entry) (Instant 1) empty_world = (None, empty_world)"
  by (simp add: live_child_def empty_world_def)

lemma reaches_starting:
  "reachable sample_budget [sample_entry] sample_window 1 (lone (Starting sample_entry) (Some 0) empty_world [])"
proof -
  let ?r = "reachable sample_budget [sample_entry] sample_window 1"
  have at_rest: "at_rest 1 = lone Resting None empty_world []" by (simp add: at_rest_def lone_def empty_world_def)
  have "?r (lone Resting None empty_world [])" unfolding at_rest [symmetric] by (rule begins)
  from lone_goes_on [OF this request [of sample_entry]]
  have "?r (lone (Asking sample_entry) None empty_world [])" by (simp add: lock_after_def)
  from lone_goes_on [OF this fast_miss [OF sample_nothing]]
  have "?r (lone (Queueing sample_entry) None empty_world [])" by (simp add: lock_after_def)
  from lone_goes_on [OF this enter]
  have "?r (lone (Rechecking sample_entry) (Some 0) empty_world [])" by (simp add: lock_after_def)
  from lone_goes_on [OF this slow_miss [OF sample_nothing]]
  have "?r (lone (Locating sample_entry) (Some 0) empty_world [])" by (simp add: lock_after_def)
  from lone_goes_on [OF this located]
  have "?r (lone (Reading sample_entry [] [sample_entry] []) (Some 0) empty_world [])" by (simp add: lock_after_def)
  from lone_goes_on [OF this read]
  have "?r (lone (Reading sample_entry [sample_entry] [] []) (Some 0) empty_world [])"
    by (simp add: lock_after_def read_slot_def empty_world_def)
  moreover have "admit sample_budget [] (wanted_of sample_entry) None = Fits" by code_simp
  ultimately show ?thesis
    using lone_goes_on [OF _ fits [of None sample_budget "[]" sample_entry]] by (simp add: lock_after_def figure_ok_def)
qed

lemma sample_start:
  "start_child (\<lambda>_. Inr (sample_child 7)) (\<lambda>_. sc_measured sample_held) (Instant 1) sample_entry empty_world =
     (Inr sample_held, started_world)"
  "fresh_handle (handle_of sample_held) empty_world" "measurement_ok (sc_measured sample_held)"
  by (simp_all add: start_child_def sample_held_def started_world_def empty_world_def sample_child_def
      fresh_handle_def measurement_ok_def figure_ok_def)

lemma reaches_serving:
  "reachable sample_budget [sample_entry] sample_window 1
     (lone (Serving sample_entry (sample_child 7)) None served_world [7])"
proof -
  let ?r = "reachable sample_budget [sample_entry] sample_window 1"
  have "?r (lone (Inserting sample_entry sample_held) (Some 0) started_world [7])"
    using lone_goes_on [OF reaches_starting start [OF sample_start]]
    by (simp add: lock_after_def sample_held_def sample_child_def)
  moreover have "insert_child (e_id sample_entry) sample_held started_world = (sample_child 7, served_world)"
    by (simp add: insert_child_def Let_def served_world_def started_world_def empty_world_def sample_held_def
        sample_entry_def small_entry_def)
  ultimately show ?thesis
    using lone_goes_on [OF _ insert, of sample_budget "[sample_entry]" sample_window sample_entry sample_held "Some 0" started_world]
    by (simp add: lock_after_def)
qed

lemma sample_entries: "distinct (map e_id [sample_entry])" "length [sample_entry] < 2 ^ 30" "e_residency sample_entry = Resident"
  by (simp_all add: sample_entry_def)

lemma sample_slot: "wd_slots served_world (e_id sample_entry) = Some sample_held"
  by (simp add: served_world_def sample_entry_def small_entry_def)

theorem no_reader_cut_off_witness:
  "0 < wd_strong served_world 7 \<and> busy served_world (sample_child 7)"
  using no_reader_cut_off [OF reaches_serving sample_entries(1,2),
      of "Serving sample_entry (sample_child 7)" 7 sample_entry "sample_child 7"]
  by (auto simp: lone_def sample_child_def)

theorem room_still_there_witness:
  "ledger [sample_entry] (wd_slots empty_world) + 600 \<le> 1000"
proof -
  have "b_limit_mib sample_budget = Some 1000" "unat (e_memory_estimate_mib sample_entry) = 600" by code_simp+
  with room_still_there [OF reaches_starting sample_entries(1,2), of 0 sample_entry] show ?thesis
    by (simp add: lone_def)
qed

theorem resident_keeps_slot_witness:
  "\<exists>m'. step sample_budget [sample_entry] sample_window
      (lone (Serving sample_entry (sample_child 7)) None served_world [7]) m' \<and>
    (\<exists>held'. wd_slots (ms_world m') ''n'' = Some held' \<and> sc_child held' = sample_child 7)"
proof -
  let ?m = "lone (Serving sample_entry (sample_child 7)) None served_world [7]"
  obtain m' where s: "step sample_budget [sample_entry] sample_window ?m m'"
    using thread [of 0 ?m] served by (fastforce simp: lone_def)
  have "(\<exists>held'. wd_slots (ms_world m') (e_id sample_entry) = Some held' \<and> sc_child held' = sc_child sample_held) \<or>
      (\<exists>status. wd_process (ms_world ?m) (handle_of sample_held) = Exited status)"
    by (rule resident_keeps_slot [OF reaches_serving sample_entries(1,2) s _ sample_entries(3)])
      (simp_all add: lone_def sample_slot)
  moreover have "wd_process (ms_world ?m) (handle_of sample_held) = Running" "e_id sample_entry = ''n''"
      "sc_child sample_held = sample_child 7"
    by (simp_all add: lone_def served_world_def started_world_def sample_held_def sample_entry_def small_entry_def sample_child_def empty_world_def)
  ultimately show ?thesis using s by auto
qed

text \<open>The same thread stops the router: the relay ends, the slot is cleared, the child goes.\<close>

definition stopping :: "activity \<Rightarrow> world \<Rightarrow> machine_state" where
  "stopping a w = (lone a None w [7])\<lparr>ms_stopping := True\<rparr>"

lemma stopping_goes_on:
  assumes "reachable b es window 1 (stopping a w)" and "moves b es window a w a' w'"
    and "\<not> admitting_now a" "\<not> admitting_now a'" "launched_by a a' = []"
  shows "reachable b es window 1 (stopping a' w')"
proof -
  have "step b es window (stopping a w) (stopping a' w')"
    using thread [of 0 "stopping a w" b es window a' w'] assms(2-5)
    by (simp add: lone_def stopping_def lock_after_def)
  with assms(1) show ?thesis by (rule goes_on)
qed

lemma reaches_stopping:
  "reachable sample_budget [sample_entry] sample_window 1 (stopping (Clearing [''n''] []) (drop_child (sample_child 7) served_world))"
proof -
  let ?r = "reachable sample_budget [sample_entry] sample_window 1"
  have touched: "touch (e_id sample_entry) (Instant 1) served_world = served_world"
    by (simp add: touch_def sample_slot)
      (simp add: served_world_def put_slot_def sample_entry_def small_entry_def sample_held_def)
  from lone_goes_on [OF reaches_serving served [where now = "Instant 1"]]
  have "?r (lone (Dropping (sample_child 7) Resting) None served_world [7])"
    unfolding touched by (simp add: lock_after_def)
  from lone_goes_on [OF this drop]
  have rest: "?r (lone Resting None (drop_child (sample_child 7) served_world) [7])" by (simp add: lock_after_def)
  have "step sample_budget [sample_entry] sample_window (lone Resting None (drop_child (sample_child 7) served_world) [7])
      (stopping (Clearing (map e_id [sample_entry]) []) (drop_child (sample_child 7) served_world))"
    using thread [of 0 "lone Resting None (drop_child (sample_child 7) served_world) [7]" sample_budget "[sample_entry]"
        sample_window "Clearing (map e_id [sample_entry]) []" "drop_child (sample_child 7) served_world"]
      stop [of "[sample_entry]" "map e_id [sample_entry]" sample_budget sample_window "drop_child (sample_child 7) served_world"]
    by (simp add: slot_order_def lone_def stopping_def lock_after_def)
  from goes_on [OF rest this] show ?thesis by (simp add: sample_entry_def small_entry_def)
qed

theorem nothing_leaks_witness:
  "\<exists>w. reachable sample_budget [sample_entry] sample_window 1 (stopping Resting w) \<and> set (wd_ended w) = {7}"
proof -
  let ?r = "reachable sample_budget [sample_entry] sample_window 1"
  let ?w = "drop_child (sample_child 7) served_world"
  let ?gone = "drop_child (sample_child 7) (put_slot ''n'' None ?w)"
  have held: "wd_slots ?w ''n'' = Some sample_held" "sc_child sample_held = sample_child 7"
    by (simp_all add: served_world_def sample_held_def)
  from stopping_goes_on [OF reaches_stopping clear_one [OF held(1)]]
  have "?r (stopping (Clearing [] [sample_held]) (put_slot ''n'' None ?w))" by simp
  from stopping_goes_on [OF this clear_drop]
  have "?r (stopping (Dropping (sample_child 7) (Clearing [] [])) (put_slot ''n'' None ?w))" by (simp add: held(2))
  from stopping_goes_on [OF this drop]
  have "?r (stopping (Clearing [] []) ?gone)" by simp
  from stopping_goes_on [OF this cleared]
  have over: "?r (stopping Resting ?gone)" by simp
  have "wd_slots ?gone (e_id sample_entry) = None" by (simp add: sample_entry_def small_entry_def)
  with nothing_leaks [OF over sample_entries(1,2)] over show ?thesis
    by (auto simp: stopping_def lone_def intro!: exI [of _ ?gone])
qed

end
