(* ===== verification/Slots_Locks.thy ===== *)
theory Slots_Locks
  imports Slots_Safety
begin

text \<open>
  The same threads with every lock in sight (\<open>proxy/loaded.rs\<close>, \<open>proxy/slots/*.rs\<close>): the
  admission mutex and the mutex of each slot have an owner, are taken and let go of in steps of their
  own, and a thread that wants one somebody has, itself included, waits. What is done
  under a guard is a step of \<open>Slots_Machine\<close>. Every run of this machine is one of that one, and in
  this one nothing ever waits for good. Reading the slots for a listing changes nothing and takes one slot's lock at
  a time, with nothing else in hand; it is not a thread of its own.
\<close>

section \<open>Taking and letting go\<close>

datatype lock = Admission_lock | Slot_lock string

definition on_slot :: "lock \<Rightarrow> bool" where
  "on_slot l \<longleftrightarrow> l \<noteq> Admission_lock"

text \<open>What a thread locks for its next step: each function of \<open>loaded.rs\<close> opens with the slot's \<open>lock()\<close>.\<close>

fun locks_first :: "activity \<Rightarrow> lock list" where
  "locks_first (Asking e) = [Slot_lock (e_id e)]"
| "locks_first (Queueing e) = [Admission_lock]"
| "locks_first (Rechecking e) = [Slot_lock (e_id e)]"
| "locks_first (Reading e seen (x # todo) acc) = [Slot_lock (e_id x)]"
| "locks_first (Unloading e (i # ids)) = [Slot_lock i]"
| "locks_first (Inserting e held) = [Slot_lock (e_id e)]"
| "locks_first (Serving e c) = [Slot_lock (e_id e)]" \<comment> \<open>\<open>touch\<close>, the relay over\<close>
| "locks_first (Reaping (i # ids)) = [Slot_lock i]"
| "locks_first (Weighing d (x # todo) acc) = [Slot_lock (e_id x)]"
| "locks_first (Expiring now d (i # ids)) = [Slot_lock i]"
| "locks_first (Clearing (i # ids) taken) = [Slot_lock i]"
| "locks_first _ = []"

text \<open>
  The guards a step ends with dropping, in order: the slot's with the function that took it, and then
  \<open>_admitting\<close>, when that function was the last of \<open>Slots::admit\<close>.
\<close>

definition drops_guards :: "activity \<Rightarrow> activity \<Rightarrow> lock list" where
  "drops_guards a a' =
     filter on_slot (locks_first a) @ (if admitting_now a \<and> admission_over a' then [Admission_lock] else [])"

record locked_state =
  lk_threads :: "activity list"
  lk_leaving :: "nat \<Rightarrow> lock list" \<comment> \<open>guards a thread is dropping\<close>
  lk_wanting :: "nat \<Rightarrow> lock list" \<comment> \<open>locks it takes before it goes on\<close>
  lk_owner :: "lock \<Rightarrow> nat option"
  lk_world :: world
  lk_launched :: "nat list"
  lk_stopping :: bool

definition acted :: "nat \<Rightarrow> activity \<Rightarrow> world \<Rightarrow> locked_state \<Rightarrow> locked_state" where
  "acted k a w s = s\<lparr>lk_threads := (lk_threads s)[k := a],
     lk_leaving := (lk_leaving s)(k := drops_guards (lk_threads s ! k) a),
     lk_wanting := (lk_wanting s)(k := locks_first a),
     lk_world := w, lk_launched := launched_by (lk_threads s ! k) a @ lk_launched s,
     lk_stopping := (lk_stopping s \<or> is_Clearing a)\<rparr>"

inductive locked_step ::
    "budget \<Rightarrow> entry list \<Rightarrow> idle_window \<Rightarrow> nat \<Rightarrow> locked_state \<Rightarrow> locked_state \<Rightarrow> bool"
  for b es window k where
  lets_go: "k < length (lk_threads s) \<Longrightarrow> lk_leaving s k = l # ls \<Longrightarrow>
     locked_step b es window k s
       (s\<lparr>lk_leaving := (lk_leaving s)(k := ls), lk_owner := (lk_owner s)(l := None)\<rparr>)"
| takes_lock: "k < length (lk_threads s) \<Longrightarrow> lk_leaving s k = [] \<Longrightarrow> lk_wanting s k = l # ls \<Longrightarrow>
     lk_owner s l = None \<Longrightarrow>
     locked_step b es window k s
       (s\<lparr>lk_wanting := (lk_wanting s)(k := ls), lk_owner := (lk_owner s)(l := Some k)\<rparr>)"
| acts: "k < length (lk_threads s) \<Longrightarrow> lk_leaving s k = [] \<Longrightarrow> lk_wanting s k = [] \<Longrightarrow>
     moves b es window (lk_threads s ! k) (lk_world s) a w \<Longrightarrow>
     locked_step b es window k s (acted k a w s)"

definition process_dies :: "nat \<Rightarrow> string \<Rightarrow> locked_state \<Rightarrow> locked_state" where
  "process_dies h status s =
     s\<lparr>lk_world := (lk_world s)\<lparr>wd_process := (wd_process (lk_world s))(h := Exited status)\<rparr>\<rparr>"

definition locked_rest :: "nat \<Rightarrow> locked_state" where
  "locked_rest n =
     \<lparr>lk_threads = replicate n Resting, lk_leaving = (\<lambda>_. []), lk_wanting = (\<lambda>_. []), lk_owner = (\<lambda>_. None),
      lk_world = \<lparr>wd_slots = Map.empty, wd_strong = (\<lambda>_. 0), wd_process = (\<lambda>_. Running), wd_ended = []\<rparr>,
      lk_launched = [], lk_stopping = False\<rparr>"

inductive locked_reachable :: "budget \<Rightarrow> entry list \<Rightarrow> idle_window \<Rightarrow> nat \<Rightarrow> locked_state \<Rightarrow> bool"
  for b es window n where
  opens: "locked_reachable b es window n (locked_rest n)"
| steps: "locked_reachable b es window n s \<Longrightarrow> locked_step b es window k s s' \<Longrightarrow>
     locked_reachable b es window n s'"
| dies: "locked_reachable b es window n s \<Longrightarrow> locked_reachable b es window n (process_dies h status s)"

section \<open>Who has what\<close>

definition has_lock :: "locked_state \<Rightarrow> nat \<Rightarrow> lock \<Rightarrow> bool" where
  "has_lock s k l \<longleftrightarrow>
     l \<in> set (lk_leaving s k) \<or> (l = Admission_lock \<and> admitting_now (lk_threads s ! k)) \<or>
     (l \<in> set (locks_first (lk_threads s ! k)) \<and> lk_wanting s k = [])"

definition locks_ok :: "locked_state \<Rightarrow> bool" where
  "locks_ok s \<longleftrightarrow>
     (\<forall>k < length (lk_threads s). distinct (lk_leaving s k) \<and>
        (lk_wanting s k = locks_first (lk_threads s ! k) \<or> lk_wanting s k = [] \<and> lk_leaving s k = []) \<and>
        (Admission_lock \<in> set (lk_leaving s k) \<longrightarrow> \<not> admitting_now (lk_threads s ! k))) \<and>
     (\<forall>l k. lk_owner s l = Some k \<longleftrightarrow> k < length (lk_threads s) \<and> has_lock s k l)"

lemma locks_first_one: "locks_first a = [] \<or> (\<exists>l. locks_first a = [l])"
  by (cases a rule: locks_first.cases) auto

lemma locks_admission: "Admission_lock \<in> set (locks_first a) \<longleftrightarrow> (\<exists>e. a = Queueing e)"
  by (cases a rule: locks_first.cases) auto

lemma drops_admission: "Admission_lock \<in> set (drops_guards a a') \<longleftrightarrow> admitting_now a \<and> admission_over a'"
  by (simp add: drops_guards_def on_slot_def)

lemma over_not_admitting: "admission_over a \<Longrightarrow> \<not> admitting_now a"
  by (cases a) auto

lemma drops_distinct: "distinct (drops_guards a a')"
  using locks_first_one [of a] by (auto simp: drops_guards_def on_slot_def)

text \<open>No guard appears or vanishes in a step: what a thread had it is dropping or goes on with.\<close>

lemma moves_guards:
  assumes "moves b es window a w a' w'"
  shows "l \<in> set (drops_guards a a') \<or> (l = Admission_lock \<and> admitting_now a') \<longleftrightarrow>
    l \<in> set (locks_first a) \<or> (l = Admission_lock \<and> admitting_now a)"
proof (cases "l = Admission_lock")
  case True
  have "admitting_now a' \<Longrightarrow> admitting_now a \<or> (\<exists>e. a = Queueing e)" and "(\<exists>e. a = Queueing e) \<Longrightarrow> admitting_now a'"
    using assms by (auto elim: moves.cases)
  then show ?thesis
    using True moves_over [OF assms] over_not_admitting by (auto simp: drops_admission locks_admission)
qed (simp add: drops_guards_def on_slot_def)

lemma locked_step_ok:
  assumes "locked_step b es window k s s'" and "locks_ok s"
  shows "locks_ok s'"
  using assms(1)
proof cases
  case (lets_go l ls)
  have k: "distinct (l # ls)" "lk_wanting s k = locks_first (lk_threads s ! k)"
      "Admission_lock \<in> set (l # ls) \<longrightarrow> \<not> admitting_now (lk_threads s ! k)"
    using assms(2) lets_go(2,3) unfolding locks_ok_def by (metis list.distinct(1))+
  have "has_lock s k l" using lets_go(3) by (simp add: has_lock_def)
  then have owner: "lk_owner s l = Some k" using assms(2) lets_go(2) by (simp add: locks_ok_def)
  have had: "has_lock s' j x \<longleftrightarrow> has_lock s j x \<and> \<not> (j = k \<and> x = l)" for j x
    using k lets_go(1,3) locks_first_one [of "lk_threads s ! k"]
    by (cases "j = k") (auto simp: has_lock_def)
  have alone: "j = k" if "j < length (lk_threads s)" "has_lock s j l" for j
  proof -
    have "lk_owner s l = Some j" using assms(2) that unfolding locks_ok_def by blast
    with owner show ?thesis by simp
  qed
  have others: "lk_owner s x = Some j \<longleftrightarrow> j < length (lk_threads s) \<and> has_lock s j x" for j x
    using assms(2) by (simp add: locks_ok_def)
  have "lk_owner s' x = Some j \<longleftrightarrow> j < length (lk_threads s') \<and> has_lock s' j x" for j x
    unfolding had using others [of x j] alone [of j] lets_go(1) by (cases "x = l") auto
  then show ?thesis
    using assms(2) lets_go(1,3) k unfolding locks_ok_def by auto
next
  case (takes_lock l ls)
  then have "lk_wanting s k = locks_first (lk_threads s ! k)" using assms(2) unfolding locks_ok_def by (metis list.distinct(1))
  then have wants: "locks_first (lk_threads s ! k) = [l]" "ls = []"
    using takes_lock(4) locks_first_one [of "lk_threads s ! k"] by auto
  have had: "has_lock s' j x \<longleftrightarrow> has_lock s j x \<or> (j = k \<and> x = l)" for j x
    using wants takes_lock(1,4) by (cases "j = k") (auto simp: has_lock_def)
  have nobody: "\<not> (j < length (lk_threads s) \<and> has_lock s j l)" for j
    using assms(2) takes_lock(5) unfolding locks_ok_def by (metis option.distinct(1))
  have "lk_owner s' x = Some j \<longleftrightarrow> j < length (lk_threads s') \<and> has_lock s' j x" for j x
    using assms(2) had nobody takes_lock(1,2) unfolding locks_ok_def by (cases "x = l") auto
  then show ?thesis
    using assms(2) takes_lock(1,3) wants unfolding locks_ok_def by auto
next
  case (acts a w)
  have had: "j < length (lk_threads s) \<Longrightarrow> has_lock s' j x \<longleftrightarrow> has_lock s j x" for j x
  proof (cases "j = k")
    case True
    assume "j < length (lk_threads s)"
    then have "has_lock s' j x \<longleftrightarrow> x \<in> set (drops_guards (lk_threads s ! k) a) \<or> (x = Admission_lock \<and> admitting_now a)"
      using True acts(1) locks_first_one [of a] by (auto simp: has_lock_def acted_def)
    then show ?thesis
      using moves_guards [OF acts(5), of x] True acts(3,4) by (auto simp: has_lock_def)
  qed (simp add: has_lock_def acted_def acts(1))
  have "lk_owner s' x = Some j \<longleftrightarrow> j < length (lk_threads s') \<and> has_lock s' j x" for j x
    using assms(2) had unfolding locks_ok_def acts(1) by (auto simp: acted_def)
  moreover have "Admission_lock \<in> set (drops_guards (lk_threads s ! k) a) \<longrightarrow> \<not> admitting_now a"
    using over_not_admitting by (simp add: drops_admission)
  ultimately show ?thesis
    using assms(2) acts(1) drops_distinct unfolding locks_ok_def
    by (auto simp: acted_def nth_list_update)
qed

lemma locked_reachable_ok: "locked_reachable b es window n s \<Longrightarrow> locks_ok s"
proof (induction rule: locked_reachable.induct)
  case opens
  then show ?case by (simp add: locks_ok_def locked_rest_def has_lock_def)
next
  case (dies s h status)
  then show ?case by (simp add: locks_ok_def process_dies_def has_lock_def)
qed (blast intro: locked_step_ok)

section \<open>Every run is one of the machine\<close>

definition seen_as :: "locked_state \<Rightarrow> machine_state" where
  "seen_as s =
     \<lparr>ms_threads = lk_threads s,
      ms_admission = List.find (\<lambda>k. admitting_now (lk_threads s ! k)) [0..<length (lk_threads s)],
      ms_world = lk_world s, ms_launched = lk_launched s, ms_stopping = lk_stopping s\<rparr>"

lemma seen_lock:
  assumes "locks_ok s"
  shows "lock_ok (seen_as s)"
proof -
  have one: "j = k" if "j < length (lk_threads s)" "k < length (lk_threads s)"
      "admitting_now (lk_threads s ! j)" "admitting_now (lk_threads s ! k)" for j k
  proof -
    have "lk_owner s Admission_lock = Some j" "lk_owner s Admission_lock = Some k"
      using assms that unfolding locks_ok_def has_lock_def by blast+
    then show "j = k" by simp
  qed
  let ?held = "List.find (\<lambda>k. admitting_now (lk_threads s ! k)) [0..<length (lk_threads s)]"
  have "?held = Some k \<longleftrightarrow> k < length (lk_threads s) \<and> admitting_now (lk_threads s ! k)" for k
  proof
    assume "?held = Some k"
    then show "k < length (lk_threads s) \<and> admitting_now (lk_threads s ! k)" by (auto simp: find_Some_iff)
  next
    assume k: "k < length (lk_threads s) \<and> admitting_now (lk_threads s ! k)"
    then have "?held \<noteq> None" by (auto simp: find_None_iff)
    then obtain j where j: "?held = Some j" by blast
    then have "j < length (lk_threads s) \<and> admitting_now (lk_threads s ! j)" by (auto simp: find_Some_iff)
    with k one j show "?held = Some k" by blast
  qed
  then show ?thesis by (simp add: lock_ok_def seen_as_def)
qed

lemma lock_ok_same:
  assumes "lock_ok m" and "lock_ok m'" and "ms_threads m = ms_threads m'"
  shows "ms_admission m = ms_admission m'"
  using assms unfolding lock_ok_def by (metis option.exhaust)

text \<open>A thread that is let past the admission lock by these locks is let past it by the machine's.\<close>

lemma enters_free:
  assumes "locks_ok s" and "k < length (lk_threads s)" and "lk_wanting s k = []"
    and "moves b es window (lk_threads s ! k) w a w'" and "admitting_now a" and "\<not> admitting_now (lk_threads s ! k)"
  shows "ms_admission (seen_as s) = None"
proof -
  have "Admission_lock \<in> set (locks_first (lk_threads s ! k))"
    using moves_guards [OF assms(4), of Admission_lock] assms(5,6) by blast
  then have mine: "lk_owner s Admission_lock = Some k"
    using assms(1-3) unfolding locks_ok_def has_lock_def by blast
  have "\<not> admitting_now (lk_threads s ! j)" if "j < length (lk_threads s)" for j
  proof
    assume "admitting_now (lk_threads s ! j)"
    then have "lk_owner s Admission_lock = Some j"
      using assms(1) that unfolding locks_ok_def has_lock_def by blast
    then show False using mine \<open>admitting_now (lk_threads s ! j)\<close> assms(6) by simp
  qed
  then show ?thesis by (simp add: seen_as_def find_None_iff)
qed

lemma seen_step:
  assumes "locked_step b es window k s s'" and "locks_ok s"
  shows "seen_as s' = seen_as s \<or> step b es window (seen_as s) (seen_as s')"
  using assms(1)
proof cases
  case (acts a w)
  let ?m = "\<lparr>ms_threads = (ms_threads (seen_as s))[k := a],
        ms_admission = lock_after k (ms_threads (seen_as s) ! k) a (ms_admission (seen_as s)),
        ms_world = w, ms_launched = launched_by (ms_threads (seen_as s) ! k) a @ ms_launched (seen_as s),
        ms_stopping = (ms_stopping (seen_as s) \<or> is_Clearing a)\<rparr>"
  have free: "admitting_now a \<and> \<not> admitting_now (ms_threads (seen_as s) ! k) \<longrightarrow> ms_admission (seen_as s) = None"
    using enters_free [OF assms(2) acts(2,4,5)] by (simp add: seen_as_def)
  have move: "moves b es window (ms_threads (seen_as s) ! k) (ms_world (seen_as s)) a w"
    using acts(5) by (simp add: seen_as_def)
  have k: "k < length (ms_threads (seen_as s))" using acts(2) by (simp add: seen_as_def)
  have "lock_ok ?m"
    by (rule lock_step [OF seen_lock [OF assms(2)] k free]) (simp, simp, rule moves_over [OF move])
  moreover have "lock_ok (seen_as s')" using locked_step_ok [OF assms] by (rule seen_lock)
  moreover have "ms_threads (seen_as s') = ms_threads ?m" by (simp add: acts(1) seen_as_def acted_def)
  ultimately have "ms_admission (seen_as s') = ms_admission ?m" by (metis lock_ok_same)
  then have "seen_as s' = ?m" by (simp add: acts(1) seen_as_def acted_def)
  then show ?thesis using thread [OF k move free] by simp
qed (simp_all add: seen_as_def)

lemma seen_reachable: "locked_reachable b es window n s \<Longrightarrow> reachable b es window n (seen_as s)"
proof (induction rule: locked_reachable.induct)
  case opens
  have "seen_as (locked_rest n) = at_rest n"
    by (auto simp: seen_as_def locked_rest_def at_rest_def find_None_iff)
  then show ?case using begins by metis
next
  case (steps s k s')
  then show ?case using seen_step [OF steps(2) locked_reachable_ok [OF steps(1)]] by (auto intro: goes_on)
next
  case (dies s h status)
  have "step b es window (seen_as s) (seen_as (process_dies h status s))"
    using exits [of b es window "seen_as s" h status] by (simp add: seen_as_def process_dies_def)
  with dies.IH show ?case by (rule goes_on)
qed

section \<open>Nothing waits for good\<close>

text \<open>
  The machine winding down: a thread at rest begins nothing, and a thread that pauses for room gives up, as the deadline
  of its wait makes it.
\<close>

fun winding :: "activity \<Rightarrow> activity \<Rightarrow> bool" where
  "winding Resting a \<longleftrightarrow> a = Resting"
| "winding (Pausing e) a \<longleftrightarrow> a = Pausing e \<or> a = Resting"
| "winding _ a \<longleftrightarrow> True"

definition winds_down :: "budget \<Rightarrow> entry list \<Rightarrow> idle_window \<Rightarrow> locked_state \<Rightarrow> locked_state \<Rightarrow> bool" where
  "winds_down b es window s s' \<longleftrightarrow>
     (\<exists>k. locked_step b es window k s s' \<and> winding (lk_threads s ! k) (lk_threads s' ! k))"

definition quiet :: "locked_state \<Rightarrow> bool" where
  "quiet s \<longleftrightarrow> (\<forall>a \<in> set (lk_threads s). a = Resting) \<and> (\<forall>l. lk_owner s l = None)"

definition to_do :: "entry list \<Rightarrow> locked_state \<Rightarrow> nat \<Rightarrow> nat" where
  "to_do es s k = 4 * work es (lk_threads s ! k) + length (lk_leaving s k) + length (lk_wanting s k)"

definition all_to_do :: "entry list \<Rightarrow> locked_state \<Rightarrow> nat" where
  "all_to_do es s = (\<Sum>k < length (lk_threads s). to_do es s k)"

lemma locked_length: "locked_step b es window k s s' \<Longrightarrow> length (lk_threads s') = length (lk_threads s)"
  by (induction rule: locked_step.induct) (auto simp: acted_def)

lemma locked_others: "locked_step b es window k s s' \<Longrightarrow> j \<noteq> k \<Longrightarrow> to_do es s' j = to_do es s j"
  by (induction rule: locked_step.induct) (auto simp: acted_def to_do_def)

lemma drops_two: "length (drops_guards a a') \<le> 2"
  using locks_first_one [of a] by (auto simp: drops_guards_def on_slot_def)

lemma moves_winding:
  assumes "moves b es window a w a' w'" and "winding a a'"
  shows "work es a' < work es a"
proof -
  have "a \<noteq> Resting" using assms by (auto elim: moves.cases)
  moreover have "\<not> (\<exists>e. a = Pausing e \<and> a' = Reading e [] es [])" using assms(2) by auto
  ultimately show ?thesis using moves_work [OF assms(1)] by blast
qed

lemma winding_less:
  assumes "locked_step b es window k s s'" and "winding (lk_threads s ! k) (lk_threads s' ! k)"
  shows "to_do es s' k < to_do es s k"
  using assms(1)
proof cases
  case (acts a w)
  have "winding (lk_threads s ! k) a" using assms(2) acts(1,2) by (simp add: acted_def)
  from moves_winding [OF acts(5) this] have "work es a < work es (lk_threads s ! k)" .
  moreover have "length (locks_first a) \<le> 1" using locks_first_one [of a] by auto
  ultimately show ?thesis
    using drops_two [of "lk_threads s ! k" a] acts(1-4) by (simp add: to_do_def acted_def)
qed (simp_all add: to_do_def)

lemma winds_down_less:
  assumes "winds_down b es window s s'"
  shows "all_to_do es s' < all_to_do es s"
proof -
  obtain k where k: "locked_step b es window k s s'" "winding (lk_threads s ! k) (lk_threads s' ! k)"
    using assms unfolding winds_down_def by blast
  have "k < length (lk_threads s)" using k(1) by cases auto
  moreover have "to_do es s' j \<le> to_do es s j" for j
    using locked_others [OF k(1), of j] winding_less [OF k] by (cases "j = k") auto
  ultimately show ?thesis
    using winding_less [OF k] unfolding all_to_do_def locked_length [OF k(1)]
    by (intro sum_strict_mono_ex1) auto
qed

lemma lets_go_winds: "k < length (lk_threads s) \<Longrightarrow> lk_leaving s k \<noteq> [] \<Longrightarrow> \<exists>s'. winds_down b es window s s'"
proof -
  assume k: "k < length (lk_threads s)" "lk_leaving s k \<noteq> []"
  then obtain l ls where l: "lk_leaving s k = l # ls" by (cases "lk_leaving s k") auto
  have "winding a a" for a by (cases a) auto
  with lets_go [OF k(1) l, of b es window] show ?thesis unfolding winds_down_def by fastforce
qed

lemma takes_winds:
  assumes "k < length (lk_threads s)" and "lk_leaving s k = []" and "lk_wanting s k = l # ls" and "lk_owner s l = None"
  shows "\<exists>s'. winds_down b es window s s'"
proof -
  have "winding a a" for a by (cases a) auto
  with takes_lock [OF assms, of b es window] show ?thesis unfolding winds_down_def by fastforce
qed

lemma acts_winds:
  assumes "k < length (lk_threads s)" and "lk_leaving s k = []" and "lk_wanting s k = []" and "lk_threads s ! k \<noteq> Resting"
  shows "\<exists>s'. winds_down b es window s s'"
proof -
  let ?a = "lk_threads s ! k"
  have "\<exists>a' w'. moves b es window ?a (lk_world s) a' w' \<and> winding ?a a'"
  proof (cases "\<exists>e. ?a = Queueing e")
    case True
    then show ?thesis using enter by fastforce
  next
    case False
    with anyone_goes_on [OF assms(4), of b es window "lk_world s"] obtain a' w'
      where "moves b es window ?a (lk_world s) a' w'" "a' \<noteq> Resting \<longrightarrow> \<not> (\<exists>e. ?a = Pausing e)"
      unfolding can_move_def by blast
    moreover from this assms(4) have "winding ?a a'" by (cases ?a) auto
    ultimately show ?thesis by blast
  qed
  then obtain a' w' where m: "moves b es window ?a (lk_world s) a' w'" "winding ?a a'" by blast
  from acts [OF assms(1-3) m(1)] m(2) assms(1) show ?thesis
    unfolding winds_down_def by (intro exI [of _ "acted k a' w' s"] exI [of _ k]) (simp add: acted_def)
qed

text \<open>If no thread is dropping a guard or about to act, every lock a thread waits for is free or belongs to nobody here.\<close>

lemma waited_for_free:
  assumes "locks_ok s" and settled: "\<forall>j < length (lk_threads s). lk_leaving s j = [] \<and> (lk_wanting s j = [] \<longrightarrow> lk_threads s ! j = Resting)"
    and "\<forall>j < length (lk_threads s). \<not> admitting_now (lk_threads s ! j) \<or> on_slot l"
  shows "lk_owner s l = None"
proof (rule ccontr)
  assume "lk_owner s l \<noteq> None"
  then obtain j where j: "lk_owner s l = Some j" by blast
  then have "j < length (lk_threads s)" "has_lock s j l" using assms(1) by (simp_all add: locks_ok_def)
  then show False using settled assms(3) unfolding has_lock_def on_slot_def by fastforce
qed

lemma quiet_or_winds:
  assumes ok: "locks_ok s" and stuck: "\<nexists>s'. winds_down b es window s s'"
  shows "quiet s"
proof -
  have settled: "\<forall>j < length (lk_threads s). lk_leaving s j = [] \<and> (lk_wanting s j = [] \<longrightarrow> lk_threads s ! j = Resting)"
    using stuck lets_go_winds acts_winds by blast
  have wanting: "lk_wanting s j = locks_first (lk_threads s ! j)" if "j < length (lk_threads s)" for j
  proof (cases "lk_wanting s j = []")
    case True
    then show ?thesis using settled that by auto
  next
    case False
    then show ?thesis using ok that unfolding locks_ok_def by blast
  qed
  have taken: "lk_owner s l \<noteq> None" if "j < length (lk_threads s)" "locks_first (lk_threads s ! j) = [l]" for j l
  proof
    have "lk_leaving s j = []" "lk_wanting s j = [l]" using settled wanting [OF that(1)] that by simp_all
    moreover assume "lk_owner s l = None"
    ultimately show False using takes_winds [OF that(1)] stuck by blast
  qed
  have queues: "\<exists>e. lk_threads s ! j = Queueing e" if j: "j < length (lk_threads s)" "lk_threads s ! j \<noteq> Resting" for j
  proof -
    obtain l where l: "locks_first (lk_threads s ! j) = [l]"
      using locks_first_one wanting [OF j(1)] settled j by metis
    have "\<not> on_slot l" using waited_for_free [OF ok settled, of l] taken [OF j(1) l] by blast
    then show ?thesis using l locks_admission [of "lk_threads s ! j"] by (simp add: on_slot_def)
  qed
  have free: "lk_owner s l = None" for l
    by (rule waited_for_free [OF ok settled]) (metis queues admitting_now.simps(9,11))
  have "lk_threads s ! j = Resting" if "j < length (lk_threads s)" for j
    using queues [OF that] taken [OF that] free by (metis locks_first.simps(2))
  then show ?thesis using free unfolding quiet_def by (metis in_set_conv_nth)
qed

lemma winds_down_ok: "(winds_down b es window)\<^sup>*\<^sup>* s s' \<Longrightarrow> locks_ok s \<Longrightarrow> locks_ok s'"
  by (induction rule: rtranclp_induct) (auto simp: winds_down_def intro: locked_step_ok)

lemma winds_to_rest:
  assumes "locks_ok s"
  shows "\<exists>s'. (winds_down b es window)\<^sup>*\<^sup>* s s' \<and> quiet s'"
  using assms
proof (induction "all_to_do es s" arbitrary: s rule: less_induct)
  case less
  show ?case
  proof (cases "\<exists>s1. winds_down b es window s s1")
    case True
    then obtain s1 where s1: "winds_down b es window s s1" by blast
    then have "locks_ok s1" using less.prems winds_down_ok [of b es window s s1] by blast
    with less.hyps [OF winds_down_less [OF s1]] s1 show ?thesis by (meson converse_rtranclp_into_rtranclp)
  next
    case False
    then show ?thesis using quiet_or_winds [OF less.prems] by blast
  qed
qed

lemma no_endless_winding:
  assumes "\<forall>i. winds_down b es window (run i) (run (Suc i))"
  shows False
proof -
  have "all_to_do es (run i) + i \<le> all_to_do es (run 0)" for i
  proof (induction i)
    case (Suc i)
    then show ?case using winds_down_less [of b es window "run i" "run (Suc i)"] assms by auto
  qed simp
  from this [of "Suc (all_to_do es (run 0))"] show False by simp
qed

text \<open>
  C16: No deadlock. Take any moment of any interleaving, with the admission lock and every slot's lock in whoever's
  hands they are in. If from then on no thread at rest begins anything and a wait for room that goes on is given up,
  then whichever thread steps next, in whatever order, the steps come to an end, and they end only when every thread is
  at rest and no lock is held. Every such moment is, its locks aside, one of the machine the other claims are about.
\<close>

theorem always_comes_to_rest:
  assumes "locked_reachable b es window n s"
  shows "reachable b es window n (seen_as s) \<and>
    (\<exists>s'. (winds_down b es window)\<^sup>*\<^sup>* s s' \<and> quiet s') \<and>
    (\<forall>s'. (winds_down b es window)\<^sup>*\<^sup>* s s' \<and> (\<nexists>s''. winds_down b es window s' s'') \<longrightarrow> quiet s') \<and>
    (\<nexists>run. run 0 = s \<and> (\<forall>i. winds_down b es window (run i) (run (Suc i))))"
proof (intro conjI allI impI)
  note good = locked_reachable_ok [OF assms]
  show "reachable b es window n (seen_as s)" by (rule seen_reachable [OF assms])
  show "\<exists>s'. (winds_down b es window)\<^sup>*\<^sup>* s s' \<and> quiet s'" by (rule winds_to_rest [OF good])
  show "quiet s'" if "(winds_down b es window)\<^sup>*\<^sup>* s s' \<and> (\<nexists>s''. winds_down b es window s' s'')" for s'
    using quiet_or_winds winds_down_ok [OF _ good] that by blast
  show "\<nexists>run. run 0 = s \<and> (\<forall>i. winds_down b es window (run i) (run (Suc i)))"
    using no_endless_winding by blast
qed

section \<open>Applied\<close>

text \<open>A request has the lock of its slot and has not looked into it yet.\<close>

definition looking :: locked_state where
  "looking = (acted 0 (Asking sample_entry) empty_world (locked_rest 1))
     \<lparr>lk_wanting := (\<lambda>_. []), lk_owner := (\<lambda>_. None)(Slot_lock ''n'' := Some 0)\<rparr>"

lemma nothing_twice: "(\<lambda>_. [])(k := []) = (\<lambda>_. [])" "(\<lambda>_. [])(k := x, k := []) = (\<lambda>_. [])"
  by auto

lemma looking_reachable: "locked_reachable sample_budget [sample_entry] sample_window 1 looking"
proof -
  let ?asked = "acted 0 (Asking sample_entry) empty_world (locked_rest 1)"
  have "locked_step sample_budget [sample_entry] sample_window 0 (locked_rest 1) ?asked"
    by (rule acts) (simp_all add: locked_rest_def empty_world_def request)
  from steps [OF opens this] have "locked_reachable sample_budget [sample_entry] sample_window 1 ?asked" .
  moreover have "locked_step sample_budget [sample_entry] sample_window 0 ?asked looking"
    using takes_lock [of 0 ?asked "Slot_lock ''n''" "[]" sample_budget "[sample_entry]" sample_window]
    by (simp add: looking_def acted_def locked_rest_def drops_guards_def sample_entry_def small_entry_def nothing_twice)
  ultimately show ?thesis by (rule steps)
qed

theorem always_comes_to_rest_witness:
  "lk_owner looking (Slot_lock ''n'') = Some 0 \<and>
     (\<exists>s'. (winds_down sample_budget [sample_entry] sample_window)\<^sup>*\<^sup>* looking s' \<and> quiet s')"
  using always_comes_to_rest [OF looking_reachable] by (simp add: looking_def)

end
