(* ===== verification/Discover.thy ===== *)
theory Discover
  imports Estimate Catalog_Read
begin

text \<open>
  Finding the model files a catalog does not name (\<open>src/src/catalog/discover.rs\<close>), naming them
  (\<open>discover/name.rs\<close>), and reading a catalog against the root it is served from
  (\<open>src/src/catalog/resolve.rs\<close>). Text is bytes here: where the source goes over characters,
  every byte of a longer character is, like the character, neither a letter nor a digit. The
  directory listing is part of the \<open>disk\<close>, with its names in any order.
\<close>

section \<open>What a file's name says (name.rs)\<close>

definition reserved :: "string list" where
  "reserved = [''load'', ''unload'', ''sse'', ''props'', ''models'']"

text \<open>\<open>Path::extension\<close>: what follows the last dot of a name that does not begin with it.\<close>

definition extension_of :: "string \<Rightarrow> string option" where
  "extension_of path =
     (case file_name path of
        None \<Rightarrow> None
      | Some name \<Rightarrow>
          (case rsplit_once ''.'' name of
             None \<Rightarrow> None
           | Some (before, after) \<Rightarrow> if before = [] then None else Some after))"

definition is_model :: "string \<Rightarrow> bool" where
  "is_model name =
     (let is_gguf =
            (case extension_of name of
               None \<Rightarrow> False | Some extension \<Rightarrow> eq_ignore_ascii_case extension ''gguf'');
          lower = to_ascii_lowercase name
      in if \<not> is_gguf \<or> contains lower ''mmproj'' then False
         else if list_ex (\<lambda>segment. ends_with segment ''mtp'') (split_on (\<lambda>c. \<not> is_ascii_alphanumeric c) lower)
         then False
         else (case shard_of name of None \<Rightarrow> True | Some s \<Rightarrow> sh_index s = 1))"

fun collapsed :: "string \<Rightarrow> string \<Rightarrow> string" where
  "collapsed [] out = out"
| "collapsed (c # cs) out =
     collapsed cs
       (if is_ascii_alphanumeric c then out @ [ascii_lower c]
        else if \<not> ends_with out ''-'' then out @ ''-''
        else out)"

definition sanitised :: "string \<Rightarrow> string" where
  "sanitised text = trim_matches (\<lambda>c. c = CHR ''-'') (collapsed text [])"

definition identifier_of :: "string \<Rightarrow> string set \<Rightarrow> string list \<Rightarrow> string option \<times> string set \<times> string list" where
  "identifier_of file taken notes =
     (case Option.bind (file_name file) to_str of
        None \<Rightarrow> (None, taken, notes)
      | Some name \<Rightarrow>
          (let stem =
                 (case shard_of name of
                    Some shard \<Rightarrow> sh_stem shard
                  | None \<Rightarrow> (case rsplit_once ''.'' name of None \<Rightarrow> name | Some (stem, _) \<Rightarrow> stem));
               wanted = sanitised stem;
               parent = unwrap_or (map_option sanitised (Option.bind (parent_name file) to_str)) []
           in if wanted = [] then (None, taken, notes)
              else if wanted \<notin> taken then (Some wanted, insert wanted taken, notes)
              else
                (let instead = parent @ ''-'' @ wanted in
                 if parent = [] \<or> instead \<in> taken
                 then (None, taken, notes @ [''skipped '' @ quoted (from_utf8_lossy file) @ '': '' @ quoted wanted
                         @ '' is already taken, and so is '' @ quoted instead])
                 else (Some instead, insert instead taken,
                       notes @ [''discovered '' @ quoted (from_utf8_lossy file) @ '' as '' @ quoted instead
                         @ '', because '' @ quoted wanted @ '' is already taken'']))))"

section \<open>The walk (discover.rs)\<close>

definition max_depth :: nat where "max_depth = 16"
definition fallback_context :: u32 where "fallback_context = 4096"

text \<open>The first argument is how many levels are left, one more than \<open>MAX_DEPTH - depth\<close>.\<close>

definition named_model :: "string \<Rightarrow> bool" where
  "named_model path =
     (case Option.bind (file_name path) to_str of None \<Rightarrow> False | Some name \<Rightarrow> is_model name)"

fun walk_files :: "disk \<Rightarrow> nat \<Rightarrow> string \<Rightarrow> string list" where
  "walk_files disk 0 directory = []"
| "walk_files disk (Suc left) directory =
     (case disk_list disk directory of
        None \<Rightarrow> []
      | Some names \<Rightarrow>
          concat (map (\<lambda>path.
              if disk_is_dir disk path then walk_files disk left path
              else if named_model path then [path] else [])
            (map (path_join directory) (sort names))))"

definition relative :: "string \<Rightarrow> string \<Rightarrow> relative_path option" where
  "relative root file =
     (let of_root = path_components root; of_file = path_components file in
      if take (length of_root) of_file \<noteq> of_root then None
      else
        (let parts = drop (length of_root) of_file in
         if list_all (\<lambda>part. to_str part \<noteq> None) parts
         then ok (relative_path_new (join ''/'' parts)) else None))"

definition trained_for :: "disk \<Rightarrow> string \<Rightarrow> u32 option" where
  "trained_for disk path =
     Option.bind (Option.bind (Option.bind (ok (metadata_read (disk_open disk) path))
         (\<lambda>m. of_model m ''context_length'')) try_u32)
       (\<lambda>context. if 0 < context then Some context else None)"

definition discovered_context :: "defaults \<Rightarrow> u32 option \<Rightarrow> u32" where
  "discovered_context defaults trained =
     min (unwrap_or (or_else (d_context_size defaults) trained) fallback_context) (unwrap_or trained (-1))"

definition discovered_draft :: "string \<Rightarrow> relative_path \<Rightarrow> u32 \<Rightarrow> defaults \<Rightarrow> entry" where
  "discovered_draft i location context defaults =
     \<lparr>e_id = i, e_path = location, e_draft_path = None, e_projector_path = None,
      e_context_size = context, e_residency = OnDemand, e_memory_estimate_mib = 0,
      e_reasoning_format = d_reasoning_format defaults, e_reasoning_effort = d_reasoning_effort defaults,
      e_startup_timeout_seconds = unwrap_or (d_startup_timeout_seconds defaults) default_startup_timeout_seconds,
      e_runtime = None, e_flags = d_flags defaults\<rparr>"

definition discovered_entry ::
    "disk \<Rightarrow> string \<Rightarrow> relative_path \<Rightarrow> string \<Rightarrow> defaults \<Rightarrow> string list \<Rightarrow> entry option \<times> string list" where
  "discovered_entry disk i location root defaults notes =
     (let e = discovered_draft i location
                (discovered_context defaults (trained_for disk (path_resolve location root))) defaults
      in case derive disk e root of
           Inr derived \<Rightarrow>
             (Some (e\<lparr>e_memory_estimate_mib := dv_mib derived\<rparr>),
              notes @ [''discovered '' @ quoted i @ '' at '' @ as_str location @ '': '' @ show_word (dv_mib derived)
                @ '' MiB estimated at '' @ show_word (e_context_size e) @ '' tokens of context''
                @ (case dv_basis derived of Basis_Metadata \<Rightarrow> [] | Basis_Size \<Rightarrow> '', from file size alone'')])
         | Inl reason \<Rightarrow> (None, notes @ [''skipped '' @ quoted (as_str location) @ '': '' @ reason]))"

text \<open>Two paths are the same key of the set of referenced files when their components agree.\<close>

definition referenced_by :: "entry list \<Rightarrow> string \<Rightarrow> string list set" where
  "referenced_by es root =
     (\<lambda>location. path_components (path_resolve location root)) `
       (\<Union>e \<in> set es. insert (e_path e) (set_option (e_draft_path e) \<union> set_option (e_projector_path e)))"

fun under_loop ::
    "disk \<Rightarrow> string \<Rightarrow> defaults \<Rightarrow> string list set \<Rightarrow> string list \<Rightarrow> string set \<Rightarrow> string list
       \<Rightarrow> entry list \<times> string list" where
  "under_loop disk root defaults referenced [] taken notes = ([], notes)"
| "under_loop disk root defaults referenced (file # files) taken notes =
     (if path_components file \<in> referenced then under_loop disk root defaults referenced files taken notes
      else (case relative root file of
        None \<Rightarrow> under_loop disk root defaults referenced files taken
                  (notes @ [''skipped '' @ quoted (from_utf8_lossy file)
                     @ '': its path is not text this catalog can carry''])
      | Some location \<Rightarrow>
          (case identifier_of file taken notes of
             (None, taken, notes) \<Rightarrow> under_loop disk root defaults referenced files taken notes
           | (Some i, taken, notes) \<Rightarrow>
               (case discovered_entry disk i location root defaults notes of
                  (found, notes) \<Rightarrow>
                    (case under_loop disk root defaults referenced files taken notes of
                       (rest, notes) \<Rightarrow> (case found of None \<Rightarrow> rest | Some e \<Rightarrow> e # rest, notes))))))"

definition discover_under ::
    "disk \<Rightarrow> string \<Rightarrow> entry list \<Rightarrow> defaults \<Rightarrow> string list \<Rightarrow> entry list \<times> string list" where
  "discover_under disk root es defaults notes =
     under_loop disk root defaults (referenced_by es root) (walk_files disk (Suc max_depth) root)
       (e_id ` set es \<union> set reserved) notes"

section \<open>Reading a catalog against its root (resolve.rs)\<close>

record reading =
  rd_catalog :: catalog
  rd_notes :: "string list"
  rd_declared :: nat
  rd_root :: string

definition rd_discovered :: "reading \<Rightarrow> nat" where
  "rd_discovered r = length (c_entries (rd_catalog r)) - rd_declared r"

definition rd_summary :: "reading \<Rightarrow> string" where
  "rd_summary r =
     show_nat (rd_declared r) @ '' entries from the catalog, '' @ show_nat (rd_discovered r)
       @ '' discovered under '' @ from_utf8_lossy (rd_root r)"

record ledger_notes =
  lg_notes :: "string list"
  lg_problems :: "string list"
  lg_derived :: "string set"

definition settle :: "disk \<Rightarrow> entry \<Rightarrow> bool \<Rightarrow> string \<Rightarrow> ledger_notes \<Rightarrow> entry option \<times> ledger_notes" where
  "settle disk e declared root l =
     (let scope = entry_scope (e_id e); derived = derive disk e root in
      if declared
      then (Some e,
            (case derived of
               Inr d \<Rightarrow>
                 if e_memory_estimate_mib e < dv_mib d
                 then l\<lparr>lg_notes := lg_notes l @ [scope @ '': memory_estimate_mib is declared as ''
                        @ show_word (e_memory_estimate_mib e) @ '' MiB, but its files suggest ''
                        @ show_word (dv_mib d) @ '' MiB; keeping the declared value'']\<rparr>
                 else l
             | Inl _ \<Rightarrow> l))
      else (case derived of
              Inr d \<Rightarrow>
                (Some (e\<lparr>e_memory_estimate_mib := dv_mib d\<rparr>),
                 l\<lparr>lg_notes := lg_notes l @
                      (if dv_basis d = Basis_Size
                       then [scope @ '': memory estimate of '' @ show_word (dv_mib d)
                             @ '' MiB derived from file size alone, because the model file's metadata could not be read'']
                       else []),
                    lg_derived := insert (e_id e) (lg_derived l)\<rparr>)
            | Inl reason \<Rightarrow>
                (None, l\<lparr>lg_problems := lg_problems l @
                   [problem scope ''memory_estimate_mib''
                      (''is required, because it could not be derived: '' @ reason)]\<rparr>)))"

fun settle_all :: "disk \<Rightarrow> string \<Rightarrow> string set \<Rightarrow> entry list \<Rightarrow> ledger_notes \<Rightarrow> entry list \<times> ledger_notes" where
  "settle_all disk root undeclared [] l = ([], l)"
| "settle_all disk root undeclared (e # es) l =
     (case settle disk e (e_id e \<notin> undeclared) root l of
        (kept, l) \<Rightarrow>
          (case settle_all disk root undeclared es l of
             (rest, l) \<Rightarrow> (case kept of None \<Rightarrow> rest | Some e \<Rightarrow> e # rest, l)))"

definition catalog_read ::
    "disk \<Rightarrow> (string \<Rightarrow> string + toml_table) \<Rightarrow> string \<Rightarrow> string \<Rightarrow> report + reading" where
  "catalog_read disk toml_parse text root =
     attempt (read_drafts toml_parse text) (\<lambda>drafts.
       case settle_all disk root (dr_undeclared drafts) (dr_entries drafts)
              \<lparr>lg_notes = [], lg_problems = dr_problems drafts, lg_derived = {}\<rparr> of
         (es, l) \<Rightarrow>
           if lg_problems l \<noteq> [] then Inl (Report (lg_problems l))
           else
             (case discover_under disk root es (dr_defaults drafts) (lg_notes l) of
                (found, notes) \<Rightarrow>
                  Inr \<lparr>rd_catalog =
                          \<lparr>c_version = unwrap_or (dr_version drafts) 0,
                           c_entries = sort_key e_id (es @ found),
                           c_derived = lg_derived l \<union> e_id ` set found,
                           c_discovered = e_id ` set found\<rparr>,
                        rd_notes = notes, rd_declared = length es, rd_root = root\<rparr>))"

end
