(* ===== verification/Discover_Laws.thy ===== *)
theory Discover_Laws
  imports Discover Catalog_Laws
begin

text \<open>
  What finding and settling models promises: an identifier that is safe in a path and nobody else's,
  a walk that finds the model files of the tree and nothing else, no file passed over without a word, and a
  reading that says more than \<open>Catalog::parse\<close> and never something else.
\<close>

section \<open>Identifiers\<close>

definition slug_char :: "char \<Rightarrow> bool" where
  "slug_char c \<longleftrightarrow> is_ascii_digit c \<or> is_ascii_lowercase c \<or> c = CHR ''-''"

text \<open>Lowercase letters and digits in groups, one hyphen between any two.\<close>

definition slug :: "string \<Rightarrow> bool" where
  "slug s \<longleftrightarrow>
     s \<noteq> [] \<and> list_all slug_char s \<and> hd s \<noteq> CHR ''-'' \<and> last s \<noteq> CHR ''-'' \<and> \<not> contains s ''--''"

lemma ascii_lower_slug: "is_ascii_alphanumeric c \<Longrightarrow> slug_char (ascii_lower c) \<and> ascii_lower c \<noteq> CHR ''-''"
  using ascii_lower_alnum [of c] by (auto simp: slug_char_def is_ascii_digit_def is_ascii_lowercase_def code_def)

lemma ends_with_last: "ends_with s [c] \<longleftrightarrow> s \<noteq> [] \<and> last s = c"
  by (cases s rule: rev_cases) (auto simp: ends_with_def)

lemma contains_pair_append:
  "contains (s @ t) [a, b] \<longleftrightarrow>
     contains s [a, b] \<or> contains t [a, b] \<or> (s \<noteq> [] \<and> t \<noteq> [] \<and> last s = a \<and> hd t = b)"
proof (induction s)
  case (Cons x s)
  then show ?case by (cases s; cases t) auto
qed simp

lemma contains_part: "contains t p \<Longrightarrow> contains (u @ t @ v) p"
  by (auto simp: contains_iff) (metis append.assoc)

lemma collapsed_slug:
  "list_all slug_char out \<Longrightarrow> \<not> contains out ''--'' \<Longrightarrow>
     list_all slug_char (collapsed s out) \<and> \<not> contains (collapsed s out) ''--''"
proof (induction s out rule: collapsed.induct)
  case (2 c cs out)
  have "slug_char (CHR ''-'')" by (simp add: slug_char_def)
  then show ?case
    using 2 ascii_lower_slug [of c]
    by (auto simp: contains_pair_append ends_with_last)
qed simp

lemma trim_matches_parts:
  obtains u v where "s = u @ trim_matches p s @ v" "list_all p u" "list_all p v"
    "trim_matches p s \<noteq> [] \<longrightarrow> \<not> p (hd (trim_matches p s)) \<and> \<not> p (last (trim_matches p s))"
proof -
  let ?t = "trim_matches p s" and ?d = "dropWhile p s"
  have s: "s = takeWhile p s @ ?d" by simp
  have d: "?d = ?t @ rev (takeWhile p (rev ?d))"
    unfolding trim_matches_def trim_end_matches_def trim_start_matches_def
    by (metis rev_append rev_rev_ident takeWhile_dropWhile_id)
  have "\<not> p (hd ?t) \<and> \<not> p (last ?t)" if "?t \<noteq> []"
  proof
    have "hd ?t = hd ?d" using d that by (metis hd_append2)
    moreover have "?d \<noteq> []" using d that by (metis append_is_Nil_conv)
    ultimately show "\<not> p (hd ?t)" using hd_dropWhile [of p s] by simp
    have "last ?t = hd (dropWhile p (rev ?d))" and "dropWhile p (rev ?d) \<noteq> []"
      using that by (simp_all add: trim_matches_def trim_end_matches_def trim_start_matches_def last_rev)
    then show "\<not> p (last ?t)" using hd_dropWhile [of p "rev ?d"] by simp
  qed
  moreover have "s = takeWhile p s @ ?t @ rev (takeWhile p (rev ?d))" using s d by metis
  moreover have "list_all p (takeWhile p s)" "list_all p (rev (takeWhile p (rev ?d)))"
    by (auto simp: list_all_iff dest: set_takeWhileD)
  ultimately show thesis by (intro that [of "takeWhile p s" "rev (takeWhile p (rev ?d))"]) blast+
qed

lemma sanitised_slug: "sanitised s \<noteq> [] \<Longrightarrow> slug (sanitised s)"
proof -
  assume ne: "sanitised s \<noteq> []"
  obtain u v where t: "collapsed s [] = u @ sanitised s @ v"
    and ends: "hd (sanitised s) \<noteq> CHR ''-''" "last (sanitised s) \<noteq> CHR ''-''"
    using trim_matches_parts [of "collapsed s []" "\<lambda>c. c = CHR ''-''"] ne unfolding sanitised_def by metis
  have "list_all slug_char (collapsed s [])" "\<not> contains (collapsed s []) ''--''"
    using collapsed_slug [of "[]" s] by simp_all
  then show ?thesis using ne ends contains_part [of "sanitised s" "''--''" u v] by (auto simp: slug_def t)
qed

lemma slug_joined:
  assumes "slug a" and "slug b"
  shows "slug (a @ ''-'' @ b)"
proof -
  have "\<not> contains (a @ ''-'' @ b) ''--''"
    using assms by (cases b) (auto simp: slug_def contains_pair_append hd_append)
  then show ?thesis using assms by (auto simp: slug_def slug_char_def hd_append)
qed

lemma parent_slug: "unwrap_or (map_option sanitised name) [] \<noteq> [] \<Longrightarrow> slug (unwrap_or (map_option sanitised name) [])"
  by (cases name) (auto simp: sanitised_slug)

lemma identifier_of_Some:
  assumes "identifier_of file taken said = (Some i, taken', said')"
  shows "slug i \<and> i \<notin> taken \<and> taken' = insert i taken"
  using assms
  by (auto simp: identifier_of_def Let_def sanitised_slug parent_slug
      intro!: slug_joined [simplified] split: option.splits if_splits prod.splits)

lemma identifier_of_taken:
  "identifier_of file taken said = (None, taken', said') \<Longrightarrow> taken' = taken"
  by (auto simp: identifier_of_def Let_def split: option.splits if_splits prod.splits)

section \<open>Discovered entries\<close>

definition discovered_ok :: "disk \<Rightarrow> string \<Rightarrow> entry \<Rightarrow> bool" where
  "discovered_ok disk root e \<longleftrightarrow>
     slug (e_id e) \<and> e_residency e = OnDemand \<and> e_draft_path e = None \<and> e_projector_path e = None \<and>
     e_runtime e = None \<and> (\<exists>d. derive disk e root = Inr d \<and> e_memory_estimate_mib e = dv_mib d)"

text \<open>Deriving an estimate does not read the estimate.\<close>

lemma derive_estimate [simp]: "derive disk (e\<lparr>e_memory_estimate_mib := n\<rparr>) root = derive disk e root"
  by (simp add: derive_def draft_cache_def
      cong del: option.case_cong_weak sum.case_cong_weak prod.case_cong_weak if_weak_cong)

lemma discovered_draft_simps [simp]:
  "e_id (discovered_draft i location context defaults) = i"
  "e_path (discovered_draft i location context defaults) = location"
  "e_residency (discovered_draft i location context defaults) = OnDemand"
  "e_draft_path (discovered_draft i location context defaults) = None"
  "e_projector_path (discovered_draft i location context defaults) = None"
  "e_runtime (discovered_draft i location context defaults) = None"
  by (simp_all add: discovered_draft_def)

lemma discovered_entry_Some:
  assumes "discovered_entry disk i location root defaults said = (Some e, said')" and "slug i"
  shows "discovered_ok disk root e \<and> e_id e = i \<and> e_path e = location"
  using assms by (auto simp: discovered_entry_def discovered_ok_def Let_def split: sum.splits)

text \<open>What becomes of one file of the walk.\<close>

lemma under_loop_cases:
  assumes "under_loop disk root defaults referenced (f # fs) taken said = (found, said')"
  obtains (known) "path_components f \<in> referenced" "under_loop disk root defaults referenced fs taken said = (found, said')"
    | (untellable) "relative root f = None" "under_loop disk root defaults referenced fs taken
        (said @ [''skipped '' @ quoted (from_utf8_lossy f) @ '': its path is not text this catalog can carry'']) = (found, said')"
    | (unnamed) taken1 said1 where "identifier_of f taken said = (None, taken1, said1)"
        "under_loop disk root defaults referenced fs taken1 said1 = (found, said')"
    | (refused) location i taken1 said1 said2 where "relative root f = Some location"
        "identifier_of f taken said = (Some i, taken1, said1)"
        "discovered_entry disk i location root defaults said1 = (None, said2)"
        "under_loop disk root defaults referenced fs taken1 said2 = (found, said')"
    | (added) location i taken1 said1 e said2 rest where "path_components f \<notin> referenced" "relative root f = Some location"
        "identifier_of f taken said = (Some i, taken1, said1)"
        "discovered_entry disk i location root defaults said1 = (Some e, said2)"
        "under_loop disk root defaults referenced fs taken1 said2 = (rest, said')" "found = e # rest"
proof -
  obtain r taken1 said1 where ident: "identifier_of f taken said = (r, taken1, said1)" using prod_cases3 by blast
  have "path_components f \<in> referenced \<or> relative root f = None \<or> r = None \<or>
      (\<exists>location i. path_components f \<notin> referenced \<and> relative root f = Some location \<and> r = Some i)" by auto
  then show thesis
  proof (elim disjE exE conjE)
    fix location i
    assume f: "path_components f \<notin> referenced" "relative root f = Some location" "r = Some i"
    obtain e said2 where e: "discovered_entry disk i location root defaults said1 = (e, said2)" by fastforce
    obtain rest said3 where rest: "under_loop disk root defaults referenced fs taken1 said2 = (rest, said3)" by fastforce
    show thesis
      using assms f ident e rest by (cases e) (auto intro: refused added)
  qed (use assms ident known untellable unnamed in \<open>auto split: if_splits option.splits\<close>)
qed

lemma under_loop_found:
  assumes "under_loop disk root defaults referenced files taken said = (found, said')"
  shows "distinct (map e_id found) \<and> (\<forall>e \<in> set found. e_id e \<notin> taken \<and> discovered_ok disk root e \<and>
     (\<exists>file \<in> set files. path_components file \<notin> referenced \<and> relative root file = Some (e_path e)))"
  using assms
proof (induction files arbitrary: taken said found)
  case (Cons f fs)
  from Cons.prems show ?case
  proof (cases rule: under_loop_cases)
    case (unnamed taken1 said1)
    then show ?thesis using Cons.IH [OF unnamed(2)] identifier_of_taken by fastforce
  next
    case (refused location i taken1 said1 said2)
    then show ?thesis using Cons.IH [OF refused(4)] identifier_of_Some [OF refused(2)] by fastforce
  next
    case (added location i taken1 said1 e said2 rest)
    note i = identifier_of_Some [OF added(3)]
    have "discovered_ok disk root e \<and> e_id e = i \<and> e_path e = location"
      using discovered_entry_Some [OF added(4)] i by blast
    then show ?thesis using Cons.IH [OF added(5)] added i by fastforce
  qed (use Cons.IH in fastforce)+
qed simp

lemma discover_apart:
  assumes "discover_under disk root es defaults said = (found, said')"
  shows "distinct (map e_id found)" "e_id ` set es \<inter> e_id ` set found = {}" "\<forall>e \<in> set found. discovered_ok disk root e"
proof -
  note f = under_loop_found [OF assms [unfolded discover_under_def]]
  show "e_id ` set es \<inter> e_id ` set found = {}"
  proof (rule equals0I)
    fix i
    assume "i \<in> e_id ` set es \<inter> e_id ` set found"
    then obtain e where "e \<in> set found" "i = e_id e" "i \<in> e_id ` set es" by blast
    then show False using f by (simp del: walk_files.simps)
  qed
qed (use under_loop_found [OF assms [unfolded discover_under_def]] in \<open>simp_all del: walk_files.simps\<close>)

text \<open>
  C32: What is found under the root is named safely. Every discovered entry has an identifier of
  lowercase letters and digits in groups joined by single hyphens, told apart from every
  entry of the catalog, from the proxy's own names under \<open>/models\<close> and from every other discovered
  entry; it is on-demand, names a file the catalog does not, and carries the estimate its files give.
\<close>

theorem discovered_entries_safe:
  assumes "discover_under disk root es defaults said = (found, said')"
  shows "distinct (map e_id found) \<and>
    (\<forall>e \<in> set found. slug (e_id e) \<and> e_id e \<notin> e_id ` set es \<and> e_id e \<notin> set reserved \<and>
       e_residency e = OnDemand \<and> (\<exists>d. derive disk e root = Inr d \<and> e_memory_estimate_mib e = dv_mib d) \<and>
       (\<exists>file \<in> set (walk_files disk (Suc max_depth) root).
          path_components file \<notin> referenced_by es root \<and> relative root file = Some (e_path e)))"
  using under_loop_found [OF assms [unfolded discover_under_def]] by (simp add: discovered_ok_def)

section \<open>The walk\<close>

text \<open>
  A model file of the tree: a chain of names from the root, each listed in the directory its
  predecessors lead to, directories up to the last, which is a file with a model's name.
\<close>

definition model_file_at :: "disk \<Rightarrow> string \<Rightarrow> bool" where
  "model_file_at disk path \<longleftrightarrow> \<not> disk_is_dir disk path \<and> named_model path"

fun chain :: "disk \<Rightarrow> string \<Rightarrow> string list \<Rightarrow> bool" where
  "chain disk directory [] = False"
| "chain disk directory [name] =
     ((\<exists>names. disk_list disk directory = Some names \<and> name \<in> set names) \<and>
      model_file_at disk (path_join directory name))"
| "chain disk directory (name # next # more_names) =
     ((\<exists>names. disk_list disk directory = Some names \<and> name \<in> set names) \<and>
      disk_is_dir disk (path_join directory name) \<and> chain disk (path_join directory name) (next # more_names))"

lemma chain_Cons:
  "chain disk directory (name # names) \<longleftrightarrow>
     (\<exists>ls. disk_list disk directory = Some ls \<and> name \<in> set ls) \<and>
     (if names = [] then model_file_at disk (path_join directory name)
      else disk_is_dir disk (path_join directory name) \<and> chain disk (path_join directory name) names)"
  by (cases names) auto

lemma walk_files_Suc:
  "f \<in> set (walk_files disk (Suc left) directory) \<longleftrightarrow>
     (\<exists>ls name. disk_list disk directory = Some ls \<and> name \<in> set ls \<and>
        (if disk_is_dir disk (path_join directory name) then f \<in> set (walk_files disk left (path_join directory name))
         else f = path_join directory name \<and> model_file_at disk f))"
proof (cases "disk_list disk directory")
  case (Some ls)
  let ?visit = "\<lambda>path. if disk_is_dir disk path then walk_files disk left path else if named_model path then [path] else []"
  have "f \<in> set (walk_files disk (Suc left) directory) \<longleftrightarrow> (\<exists>name \<in> set ls. f \<in> set (?visit (path_join directory name)))"
    using Some by (auto split: if_splits)
  then show ?thesis using Some by (auto simp: model_file_at_def split: if_splits)
qed simp

text \<open>
  The walk finds the model files and nothing else. A path is found exactly when it is a model file at
  the end of a chain of listed directories from the root, at most \<open>MAX_DEPTH\<close> directories deep;
  a link that points back to an ancestor cannot make the walk go on for ever.
\<close>

theorem walk_exact:
  "f \<in> set (walk_files disk left root) \<longleftrightarrow>
     (\<exists>names. chain disk root names \<and> length names \<le> left \<and> f = fold (\<lambda>name dir. path_join dir name) names root)"
proof (induction left arbitrary: root)
  case 0
  then show ?case by (auto elim: chain.elims)
next
  case (Suc left)
  show ?case
  proof
    assume "f \<in> set (walk_files disk (Suc left) root)"
    then obtain ls name where n: "disk_list disk root = Some ls" "name \<in> set ls"
        "if disk_is_dir disk (path_join root name) then f \<in> set (walk_files disk left (path_join root name))
         else f = path_join root name \<and> model_file_at disk f"
      unfolding walk_files_Suc by blast
    show "\<exists>names. chain disk root names \<and> length names \<le> Suc left \<and> f = fold (\<lambda>name dir. path_join dir name) names root"
    proof (cases "disk_is_dir disk (path_join root name)")
      case True
      then obtain names where "chain disk (path_join root name) names" "length names \<le> left"
          "f = fold (\<lambda>name dir. path_join dir name) names (path_join root name)"
        using n(3) Suc.IH by auto
      with True n show ?thesis by (intro exI [of _ "name # names"]) (auto simp: chain_Cons)
    next
      case False
      then show ?thesis using n by (intro exI [of _ "[name]"]) auto
    qed
  next
    assume "\<exists>names. chain disk root names \<and> length names \<le> Suc left \<and> f = fold (\<lambda>name dir. path_join dir name) names root"
    then obtain names where c: "chain disk root names" "length names \<le> Suc left"
        "f = fold (\<lambda>name dir. path_join dir name) names root" by blast
    then obtain name rest where names: "names = name # rest" by (cases names) auto
    show "f \<in> set (walk_files disk (Suc left) root)"
    proof (cases "rest = []")
      case True
      then show ?thesis using c names unfolding walk_files_Suc by (auto simp: model_file_at_def)
    next
      case False
      then have "f \<in> set (walk_files disk left (path_join root name))"
        using c names unfolding Suc.IH by (auto simp: chain_Cons)
      then show ?thesis using c names False unfolding walk_files_Suc by (auto simp: chain_Cons)
    qed
  qed
qed

section \<open>Nothing is passed over in silence\<close>

definition skipped_note :: "string \<Rightarrow> string \<Rightarrow> string \<Rightarrow> bool" where
  "skipped_note root file note \<longleftrightarrow>
     starts_with note (''skipped '' @ quoted (from_utf8_lossy file)) \<or>
     (\<exists>location. relative root file = Some location \<and> starts_with note (''skipped '' @ quoted (as_str location)))"

text \<open>
  A file whose name has neither an ASCII letter nor an ASCII digit in it, the numbering of a shard and the extension
  set aside.
\<close>

definition telling_part :: "string \<Rightarrow> string" where
  "telling_part name =
     (case shard_of name of
        Some s \<Rightarrow> sh_stem s
      | None \<Rightarrow> (case rsplit_once ''.'' name of None \<Rightarrow> name | Some (before, _) \<Rightarrow> before))"

definition nameless :: "string \<Rightarrow> bool" where
  "nameless file \<longleftrightarrow>
     (case file_name file of
        None \<Rightarrow> False | Some name \<Rightarrow> list_all (\<lambda>c. \<not> is_ascii_alphanumeric c) (telling_part name))"

lemma collapsed_letters:
  "list_all (\<lambda>c. c = CHR ''-'') (collapsed s out) \<longleftrightarrow>
     list_all (\<lambda>c. c = CHR ''-'') out \<and> list_all (\<lambda>c. \<not> is_ascii_alphanumeric c) s"
proof (induction s out rule: collapsed.induct)
  case (2 c cs out)
  then show ?case using ascii_lower_slug [of c] by auto
qed simp

lemma sanitised_nothing: "sanitised s = [] \<longleftrightarrow> list_all (\<lambda>c. \<not> is_ascii_alphanumeric c) s"
proof -
  let ?dash = "\<lambda>c. c = CHR ''-''"
  obtain u v where parts: "collapsed s [] = u @ sanitised s @ v" "list_all ?dash u" "list_all ?dash v"
      "sanitised s \<noteq> [] \<longrightarrow> \<not> ?dash (hd (sanitised s))"
    using trim_matches_parts [of "collapsed s []" ?dash] unfolding sanitised_def by metis
  have "sanitised s = [] \<longleftrightarrow> list_all ?dash (collapsed s [])"
    using parts by (cases "sanitised s") auto
  then show ?thesis using collapsed_letters [of s "[]"] by simp
qed

lemma walked_named: "file \<in> set (walk_files disk left root) \<Longrightarrow> named_model file"
proof (induction left arbitrary: root)
  case (Suc left)
  then show ?case unfolding walk_files_Suc by (auto simp: model_file_at_def split: if_splits)
qed simp

lemma starts_with_append [simp]: "starts_with (p @ s) p"
  by (simp add: starts_with_def)

lemma starts_with_append2: "starts_with (''skipped '' @ q @ s) (''skipped '' @ q)"
  using starts_with_append [of "''skipped '' @ q" s] by simp

lemma identifier_of_said:
  assumes "identifier_of file taken said = (r, taken', said')" and "named_model file"
  shows "\<exists>added. said' = said @ added \<and>
    (r = None \<longrightarrow> nameless file \<or> (\<exists>note \<in> set added. starts_with note (''skipped '' @ quoted (from_utf8_lossy file))))"
proof (cases "Option.bind (file_name file) to_str")
  case None
  then show ?thesis using assms(2) by (simp add: named_model_def)
next
  case (Some name)
  then have "file_name file = Some name" by (auto simp: bind_eq_Some_conv to_str_def split: if_splits)
  then have nameless: "nameless file \<longleftrightarrow> sanitised (telling_part name) = []"
    by (simp add: nameless_def sanitised_nothing)
  show ?thesis
    using assms(1) Some unfolding nameless
    by (auto simp: identifier_of_def Let_def starts_with_append2 [simplified] telling_part_def split: if_splits)
qed

lemma discovered_entry_said:
  assumes "discovered_entry disk i location root defaults said = (e, said')"
  shows "\<exists>note. said' = said @ [note] \<and> (e = None \<longrightarrow> starts_with note (''skipped '' @ quoted (as_str location)))"
  using assms starts_with_append2 [of "quoted (as_str location)"]
  by (auto simp: discovered_entry_def Let_def split: sum.splits)

lemma under_loop_said:
  assumes "under_loop disk root defaults referenced files taken said = (found, said')" and "\<forall>file \<in> set files. named_model file"
  shows "(\<exists>added. said' = said @ added) \<and>
    (\<forall>file \<in> set files. path_components file \<in> referenced \<or> nameless file \<or>
       (\<exists>e \<in> set found. relative root file = Some (e_path e)) \<or> (\<exists>note \<in> set said'. skipped_note root file note))"
  using assms
proof (induction files arbitrary: taken said found)
  case (Cons f fs)
  have named: "named_model f" and rest: "\<forall>file \<in> set fs. named_model file" using Cons.prems(2) by simp_all
  from Cons.prems(1) show ?case
  proof (cases rule: under_loop_cases)
    case known
    then show ?thesis using Cons.IH [OF _ rest] by fastforce
  next
    case untellable
    let ?note = "''skipped '' @ quoted (from_utf8_lossy f) @ '': its path is not text this catalog can carry''"
    have "skipped_note root f ?note"
      using starts_with_append2 [of "quoted (from_utf8_lossy f)"] by (simp add: skipped_note_def)
    moreover have "?note \<in> set said'" using Cons.IH [OF untellable(2) rest] by auto
    ultimately show ?thesis using Cons.IH [OF untellable(2) rest] by auto
  next
    case (unnamed taken1 said1)
    with identifier_of_said [OF unnamed(1) named] Cons.IH [OF unnamed(2) rest] show ?thesis by (auto simp: skipped_note_def)
  next
    case (refused location i taken1 said1 said2)
    obtain line where line: "said2 = said1 @ [line]" "skipped_note root f line"
      using discovered_entry_said [OF refused(3)] refused(1) by (auto simp: skipped_note_def)
    with identifier_of_said [OF refused(2) named] Cons.IH [OF refused(4) rest] show ?thesis by auto
  next
    case (added location i taken1 said1 e said2 found1)
    have "e_path e = location" using added(4) by (auto simp: discovered_entry_def Let_def split: sum.splits)
    with identifier_of_said [OF added(3) named] discovered_entry_said [OF added(4)] Cons.IH [OF added(5) rest] added(2,6)
    show ?thesis by auto
  qed
qed simp

text \<open>
  C34: No model file is passed over in silence. Every file the walk finds is named by the catalog
  already, becomes an entry, or is named in a note that says it was skipped, except one whose name, the numbering of a
  shard and the extension set aside, has neither an ASCII letter nor an ASCII digit: that one vanishes without a word.
\<close>

theorem every_file_accounted:
  assumes "discover_under disk root es defaults said = (found, said')"
    and "file \<in> set (walk_files disk (Suc max_depth) root)"
  shows "path_components file \<in> referenced_by es root \<or> (\<exists>e \<in> set found. relative root file = Some (e_path e)) \<or>
    (\<exists>note \<in> set said'. skipped_note root file note) \<or> nameless file"
  using under_loop_said [OF assms(1) [unfolded discover_under_def]] walked_named assms(2) by blast

section \<open>Settling the catalog's own entries\<close>

definition settled_entry :: "disk \<Rightarrow> string \<Rightarrow> string set \<Rightarrow> entry \<Rightarrow> entry option" where
  "settled_entry disk root undeclared e =
     (if e_id e \<notin> undeclared then Some e
      else map_option (\<lambda>d. e\<lparr>e_memory_estimate_mib := dv_mib d\<rparr>) (ok (derive disk e root)))"

definition underivable :: "disk \<Rightarrow> string \<Rightarrow> string set \<Rightarrow> entry list \<Rightarrow> string list" where
  "underivable disk root undeclared es =
     List.map_filter (\<lambda>e. if e_id e \<notin> undeclared then None else
       (case derive disk e root of
          Inr _ \<Rightarrow> None
        | Inl reason \<Rightarrow> Some (problem (entry_scope (e_id e)) ''memory_estimate_mib''
            (''is required, because it could not be derived: '' @ reason)))) es"

lemma settle_all_eq:
  "settle_all disk root undeclared es l = (kept, l') \<Longrightarrow>
     kept = List.map_filter (settled_entry disk root undeclared) es \<and>
     lg_problems l' = lg_problems l @ underivable disk root undeclared es \<and>
     lg_derived l' = lg_derived l \<union> {e_id e | e. e \<in> set es \<and> e_id e \<in> undeclared \<and> ok (derive disk e root) \<noteq> None}"
proof (induction disk root undeclared es l arbitrary: kept l' rule: settle_all.induct)
  case (1 disk root undeclared l)
  then show ?case by (simp add: underivable_def List.map_filter_simps)
next
  case (2 disk root undeclared e es l)
  obtain r l1 where s: "settle disk e (e_id e \<notin> undeclared) root l = (r, l1)" by fastforce
  obtain rest l2 where rest: "settle_all disk root undeclared es l1 = (rest, l2)" by fastforce
  have out: "kept = (case r of None \<Rightarrow> rest | Some e \<Rightarrow> e # rest)" "l' = l2" using 2(2) s rest by simp_all
  have one: "r = settled_entry disk root undeclared e"
      "lg_problems l1 = lg_problems l @ underivable disk root undeclared [e]"
      "lg_derived l1 = lg_derived l \<union> (if e_id e \<in> undeclared \<and> ok (derive disk e root) \<noteq> None then {e_id e} else {})"
    using s by (auto simp: settle_def settled_entry_def underivable_def List.map_filter_simps Let_def
        split: sum.splits if_splits)
  from 2(1) [OF s [symmetric] rest] show ?case
    unfolding out one by (auto simp: underivable_def List.map_filter_simps split: option.splits)
qed

lemma catalog_read_faults:
  "catalog_read disk toml_parse s root = Inl r \<longleftrightarrow>
     (case read_drafts toml_parse s of
        Inl r' \<Rightarrow> r = r'
      | Inr d \<Rightarrow>
          (let found = dr_problems d @ underivable disk root (dr_undeclared d) (dr_entries d)
           in found \<noteq> [] \<and> r = Report found))"
proof (cases "read_drafts toml_parse s")
  case (Inr d)
  obtain kept l where s: "settle_all disk root (dr_undeclared d) (dr_entries d)
      \<lparr>lg_notes = [], lg_problems = dr_problems d, lg_derived = {}\<rparr> = (kept, l)" by fastforce
  from settle_all_eq [OF s] Inr s show ?thesis
    by (auto simp: catalog_read_def Let_def split: prod.split)
qed (auto simp: catalog_read_def)

lemma declared_underivable: "underivable disk root {} es = []"
  by (simp add: underivable_def List.map_filter_def)

text \<open>
  \<open>Catalog::read\<close> refuses a catalog exactly when a field of it is at fault or an estimate nobody
  declared cannot be derived from the entry's files, and its report is the complete list of both, the
  faults of the text first.
\<close>

theorem catalog_read_reports_all:
  "catalog_read disk toml_parse s root = Inl r \<longleftrightarrow>
     (case read_drafts toml_parse s of
        Inl r' \<Rightarrow> r = r'
      | Inr d \<Rightarrow>
          (let found = dr_problems d @ underivable disk root (dr_undeclared d) (dr_entries d)
           in found \<noteq> [] \<and> r = Report found))"
  by (rule catalog_read_faults)

lemma catalog_read_parts:
  assumes "catalog_read disk toml_parse s root = Inr r"
  obtains d kept l found said where "read_drafts toml_parse s = Inr d"
    "settle_all disk root (dr_undeclared d) (dr_entries d)
       \<lparr>lg_notes = [], lg_problems = dr_problems d, lg_derived = {}\<rparr> = (kept, l)"
    "dr_problems d = []" "underivable disk root (dr_undeclared d) (dr_entries d) = []"
    "discover_under disk root kept (dr_defaults d) (lg_notes l) = (found, said)"
    "r = \<lparr>rd_catalog = \<lparr>c_version = unwrap_or (dr_version d) 0, c_entries = sort_key e_id (kept @ found),
            c_derived = lg_derived l \<union> e_id ` set found, c_discovered = e_id ` set found\<rparr>,
          rd_notes = said, rd_declared = length kept, rd_root = root\<rparr>"
proof -
  obtain d where d: "read_drafts toml_parse s = Inr d"
    using assms by (cases "read_drafts toml_parse s") (auto simp: catalog_read_def)
  obtain kept l where s: "settle_all disk root (dr_undeclared d) (dr_entries d)
      \<lparr>lg_notes = [], lg_problems = dr_problems d, lg_derived = {}\<rparr> = (kept, l)" by fastforce
  obtain found said where u: "discover_under disk root kept (dr_defaults d) (lg_notes l) = (found, said)" by fastforce
  have "lg_problems l = []" using assms d s by (auto simp: catalog_read_def split: if_splits prod.splits)
  with settle_all_eq [OF s] have "dr_problems d = []" "underivable disk root (dr_undeclared d) (dr_entries d) = []"
    by auto
  with that [OF d s _ _ u] show thesis
    using assms d s u \<open>lg_problems l = []\<close> by (auto simp: catalog_read_def)
qed

lemma underivable_Nil:
  assumes "underivable disk root undeclared es = []"
  shows "map e_id (List.map_filter (settled_entry disk root undeclared) es) = map e_id es"
  using assms
  by (induction es)
    (auto simp: underivable_def settled_entry_def List.map_filter_simps split: sum.splits if_splits)

lemma settled_declared: "List.map_filter (settled_entry disk root {}) es = es"
  by (induction es) (auto simp: settled_entry_def List.map_filter_simps)

lemma distinct_sorted_ids:
  "distinct (map e_id xs) \<Longrightarrow> sorted_wrt (<) (map e_id (sort_key e_id xs))"
  by (simp add: strict_sorted_iff distinct_map)

lemma ordered_ids:
  assumes "value_ordered (TTable table)" and "walk_faults table = []"
  shows "sorted_wrt (<) (map e_id (entries_of table))"
  using entries_of_ids [OF assms(2)] models_of_ordered [OF assms(1)] by (simp add: bt_wf_def)

text \<open>
  C33: A catalog read against its root is one catalog. The identifiers are strictly ascending, those of the
  text among them and as many as are declared, the rest discovered; and every entry marked derived
  carries the estimate its files give.
\<close>

theorem catalog_read_sound:
  assumes "toml_parse s = Inr table" and "value_ordered (TTable table)"
    and "catalog_read disk toml_parse s root = Inr r"
  shows "sorted_wrt (<) (map e_id (c_entries (rd_catalog r))) \<and>
    e_id ` set (c_entries (rd_catalog r)) = fst ` set (models_of table) \<union> c_discovered (rd_catalog r) \<and>
    fst ` set (models_of table) \<inter> c_discovered (rd_catalog r) = {} \<and>
    rd_declared r = length (models_of table) \<and> rd_discovered r = card (c_discovered (rd_catalog r)) \<and>
    (\<forall>e \<in> set (c_entries (rd_catalog r)). e_id e \<in> c_derived (rd_catalog r) \<longrightarrow>
       (\<exists>d. derive disk e root = Inr d \<and> e_memory_estimate_mib e = dv_mib d))"
proof (rule catalog_read_parts [OF assms(3)])
  fix d kept l found said
  assume d: "read_drafts toml_parse s = Inr d" and clean: "dr_problems d = []"
    and s: "settle_all disk root (dr_undeclared d) (dr_entries d)
       \<lparr>lg_notes = [], lg_problems = dr_problems d, lg_derived = {}\<rparr> = (kept, l)"
    and under: "underivable disk root (dr_undeclared d) (dr_entries d) = []"
    and u: "discover_under disk root kept (dr_defaults d) (lg_notes l) = (found, said)"
    and r: "r = \<lparr>rd_catalog = \<lparr>c_version = unwrap_or (dr_version d) 0, c_entries = sort_key e_id (kept @ found),
            c_derived = lg_derived l \<union> e_id ` set found, c_discovered = e_id ` set found\<rparr>,
          rd_notes = said, rd_declared = length kept, rd_root = root\<rparr>"
  have d': "dr_entries d = entries_of table" "dr_undeclared d = undeclared_of table" "walk_faults table = []"
    using d clean assms(1) by (auto simp: read_drafts_eq)
  note kept = settle_all_eq [OF s]
  have ids: "map e_id kept = map fst (models_of table)"
    using underivable_Nil [OF under] kept entries_of_ids [OF d'(3)] by (simp add: d')
  have keys: "distinct (map fst (models_of table))" using bt_wf_distinct [OF models_of_ordered [OF assms(2)]] .
  note apart = discover_apart [OF u]
  have own: "e_id ` set kept = fst ` set (models_of table)" using ids by (metis list.set_map)
  have all: "distinct (map e_id (kept @ found))"
    unfolding map_append distinct_append using apart(1) apart(2) [unfolded own] keys ids by simp
  have derived: "\<exists>dv. derive disk e root = Inr dv \<and> e_memory_estimate_mib e = dv_mib dv"
    if e: "e \<in> set (kept @ found)" "e_id e \<in> lg_derived l \<union> e_id ` set found" for e
  proof (cases "e \<in> set found")
    case True
    then show ?thesis using apart(3) by (auto simp: discovered_ok_def)
  next
    case False
    then have "e \<in> set kept" "e_id e \<in> undeclared_of table" using e apart(2) kept by (auto simp: d')
    then show ?thesis using kept by (auto simp: d' List.map_filter_def settled_entry_def ok.simps
          split: if_splits elim!: ok.elims)
  qed
  have "length kept = length (models_of table)" using ids by (metis length_map)
  moreover have "card (e_id ` set found) = length found" using all by (simp add: card_image distinct_card distinct_map)
  ultimately show ?thesis
    using distinct_sorted_ids [OF all] own apart(2) derived by (auto simp: r rd_discovered_def)
qed

text \<open>
  Reading against a root only adds. A catalog that \<open>Catalog::parse\<close> accepts is accepted by
  \<open>Catalog::read\<close> whatever the disk holds, and the entries that were not discovered are the
  parsed ones, unchanged and in order, each still counted as declared.
\<close>

theorem read_extends_parse:
  assumes "toml_parse s = Inr table" and "value_ordered (TTable table)"
    and "catalog_parse toml_parse s = Inr c"
  shows "\<exists>r. catalog_read disk toml_parse s root = Inr r \<and>
    filter (\<lambda>e. \<not> is_discovered (rd_catalog r) (e_id e)) (c_entries (rd_catalog r)) = c_entries c \<and>
    rd_declared r = length (c_entries c) \<and>
    (\<forall>e \<in> set (c_entries c). e_id e \<notin> c_derived (rd_catalog r))"
proof -
  obtain d where d: "read_drafts toml_parse s = Inr d" "dr_problems d = []" "undeclared_problems (dr_undeclared d) = []"
    and c: "c_entries c = dr_entries d"
    using assms(3) by (auto simp: catalog_parse_def Let_def split: sum.splits if_splits)
  have d': "dr_entries d = entries_of table" "dr_undeclared d = {}" "walk_faults table = []"
    using d assms(1) undeclared_problems_Nil [of table] by (auto simp: read_drafts_eq)
  have none: "underivable disk root {} (dr_entries d) = []"
    by (rule declared_underivable)
  then obtain r where r: "catalog_read disk toml_parse s root = Inr r"
    using catalog_read_faults [of disk toml_parse s root] d d'
    by (cases "catalog_read disk toml_parse s root") auto
  show ?thesis
  proof (rule catalog_read_parts [OF r])
    fix d2 kept l found said
    assume d2: "read_drafts toml_parse s = Inr d2"
      and s: "settle_all disk root (dr_undeclared d2) (dr_entries d2)
         \<lparr>lg_notes = [], lg_problems = dr_problems d2, lg_derived = {}\<rparr> = (kept, l)"
      and u: "discover_under disk root kept (dr_defaults d2) (lg_notes l) = (found, said)"
      and r2: "r = \<lparr>rd_catalog = \<lparr>c_version = unwrap_or (dr_version d2) 0, c_entries = sort_key e_id (kept @ found),
            c_derived = lg_derived l \<union> e_id ` set found, c_discovered = e_id ` set found\<rparr>,
          rd_notes = said, rd_declared = length kept, rd_root = root\<rparr>"
    have same: "d2 = d" using d d2 by simp
    have kept: "kept = c_entries c" "lg_derived l = {}"
      using settle_all_eq [OF s] by (simp_all add: same d' c settled_declared)
    note apart = discover_apart [OF u]
    have "sorted (map e_id kept)" using ordered_ids [OF assms(2) d'(3)] by (simp add: kept c d' strict_sorted_iff)
    moreover have "filter (\<lambda>e. e_id e \<notin> e_id ` set found) (kept @ found) = kept"
      using apart(2) by (auto simp: filter_empty_conv intro!: filter_True)
    ultimately have "filter (\<lambda>e. e_id e \<notin> e_id ` set found) (sort_key e_id (kept @ found)) = kept"
      by (simp add: filter_sort sort_key_id_if_sorted del: filter_append)
    then show ?thesis using r kept apart(2) by (auto simp: r2 is_discovered_def)
  qed
qed

section \<open>Applied\<close>

definition sample_tree :: disk where
  "sample_tree =
     \<lparr>disk_open = (\<lambda>_. Inl ''not opened''),
      disk_stat = (\<lambda>p. if p \<in> {''/m/x.gguf'', ''/m/a/x.gguf'', ''/m/a/mmproj.gguf''} then Some (True, 4194304) else None),
      disk_is_dir = (\<lambda>p. p = ''/m/a''),
      disk_list = (\<lambda>p. if p = ''/m'' then Some [''x.gguf'', ''a''] else if p = ''/m/a'' then Some [''x.gguf'', ''mmproj.gguf'']
                      else None)\<rparr>"

lemma sample_walk: "walk_files sample_tree (Suc max_depth) ''/m'' = [''/m/a/x.gguf'', ''/m/x.gguf'']"
  by code_simp

theorem discovered_entries_safe_witness:
  "\<exists>found said. discover_under sample_tree ''/m'' [] no_defaults [] = (found, said) \<and>
     map e_id found = [''x'', ''m-x''] \<and> distinct (map e_id found) \<and> (\<forall>e \<in> set found. slug (e_id e))"
proof -
  obtain found said where u: "discover_under sample_tree ''/m'' [] no_defaults [] = (found, said)" by fastforce
  have "map e_id (fst (discover_under sample_tree ''/m'' [] no_defaults [])) = [''x'', ''m-x'']" by code_simp
  then have "map e_id found = [''x'', ''m-x'']" by (simp only: u fst_conv)
  moreover have "distinct (map e_id found)" "\<forall>e \<in> set found. slug (e_id e)"
    using discovered_entries_safe [OF u] by (simp_all del: walk_files.simps)
  ultimately show ?thesis using u by (intro exI conjI) assumption+
qed

theorem every_file_accounted_witness:
  "\<exists>found said. discover_under sample_tree ''/m'' [] no_defaults [] = (found, said) \<and>
     ((\<exists>e \<in> set found. relative ''/m'' ''/m/a/x.gguf'' = Some (e_path e)) \<or>
      (\<exists>note \<in> set said. skipped_note ''/m'' ''/m/a/x.gguf'' note))"
proof -
  obtain found said where u: "discover_under sample_tree ''/m'' [] no_defaults [] = (found, said)" by fastforce
  have "\<not> path_components ''/m/a/x.gguf'' \<in> referenced_by [] ''/m''" "\<not> nameless ''/m/a/x.gguf''" by code_simp+
  moreover have "''/m/a/x.gguf'' \<in> set (walk_files sample_tree (Suc max_depth) ''/m'')" unfolding sample_walk by simp
  ultimately have "(\<exists>e \<in> set found. relative ''/m'' ''/m/a/x.gguf'' = Some (e_path e)) \<or>
      (\<exists>note \<in> set said. skipped_note ''/m'' ''/m/a/x.gguf'' note)"
    using every_file_accounted [OF u, of "''/m/a/x.gguf''"] by satx
  with u show ?thesis by (intro exI conjI) assumption+
qed

theorem catalog_read_sound_witness:
  "\<exists>r. catalog_read sample_tree (\<lambda>_. Inr sample_table) [] ''/m'' = Inr r \<and> rd_declared r = 2 \<and>
     sorted_wrt (<) (map e_id (c_entries (rd_catalog r)))"
proof -
  have "walk_faults sample_table = []" "undeclared_of sample_table = {}" by code_simp+
  then have "\<nexists>f. catalog_read sample_tree (\<lambda>_. Inr sample_table) [] ''/m'' = Inl f"
    unfolding catalog_read_faults by (simp add: read_drafts_eq declared_underivable)
  then obtain r where r: "catalog_read sample_tree (\<lambda>_. Inr sample_table) [] ''/m'' = Inr r"
    by (cases "catalog_read sample_tree (\<lambda>_. Inr sample_table) [] ''/m''") auto
  note sound = catalog_read_sound [OF refl sample_table_ordered r]
  have "length (models_of sample_table) = 2" by code_simp
  with sound r show ?thesis by (intro exI conjI) (assumption | simp)+
qed

theorem read_extends_parse_witness:
  "\<exists>c r. catalog_parse (\<lambda>_. Inr sample_table) [] = Inr c \<and>
     catalog_read sample_tree (\<lambda>_. Inr sample_table) [] ''/m'' = Inr r \<and> rd_declared r = length (c_entries c)"
  using sample_table_accepted read_extends_parse [OF refl sample_table_ordered] by blast

end
