(* ===== verification/Launch.thy ===== *)
theory Launch
  imports Slots Estimate Catalog_Read
begin

text \<open>
  Turning an entry into a running server (\<open>src/src/launch.rs\<close>): where the models are
  (\<open>launch/root.rs\<close>), which binary serves an entry (\<open>launch/binary.rs\<close>), the command line it becomes
  (\<open>launch/invocation.rs\<close>), asking whether it is ready (\<open>launch/probe.rs\<close>) and starting it
  (\<open>launch/server.rs\<close>). The operating system is a record of what it answers: to the \<open>n\<close>th
  request for a free port, to the \<open>k\<close>th spawn, and to the \<open>n\<close>th poll of the \<open>k\<close>th process. The
  platform is Unix: no suffix on executables, colons in the search path.
\<close>

section \<open>The operating system\<close>

record launching =
  lo_env :: environment
  lo_disk :: disk
  lo_free_port :: "nat \<Rightarrow> string + u16"
  lo_spawn :: "nat \<Rightarrow> string \<Rightarrow> string list \<Rightarrow> string + (u32 \<times> nat)"
  lo_try_wait :: "nat \<Rightarrow> nat \<Rightarrow> string + string option"
  lo_health_line :: "nat \<Rightarrow> nat \<Rightarrow> string option" \<comment> \<open>the first line of the reply, if one came\<close>
  lo_elapsed :: "nat \<Rightarrow> nat \<Rightarrow> duration"

definition is_file :: "disk \<Rightarrow> string \<Rightarrow> bool" where
  "is_file disk path \<longleftrightarrow> (\<exists>len. disk_stat disk path = Some (True, len))"

lemma is_file_code [code]:
  "is_file disk path = (case disk_stat disk path of Some (regular, _) \<Rightarrow> regular | None \<Rightarrow> False)"
  by (auto simp: is_file_def split: option.split)

section \<open>Where the models are (root.rs)\<close>

definition root_variable :: string where "root_variable = ''MAESTRO_MODELS_ROOT''"

definition home_directory :: "environment \<Rightarrow> string option" where
  "home_directory env = env ''HOME''"

definition models_root :: "environment \<Rightarrow> failure + string" where
  "models_root env =
     (case env_value env root_variable of
        Some configured \<Rightarrow> Inr configured
      | None \<Rightarrow>
          (case home_directory env of
             Some home \<Rightarrow> Inr (path_join home ''models'')
           | None \<Rightarrow>
               Inl (Unavailable (''no models root: set '' @ root_variable
                 @ '', or run somewhere with a home directory this router can read''))))"

section \<open>Which binary (binary.rs)\<close>

definition binary_name :: string where "binary_name = ''llama-server''"

definition runtime_named :: "string \<Rightarrow> string" where
  "runtime_named runtime = binary_name @ ''-'' @ runtime"

definition on_search_path :: "environment \<Rightarrow> disk \<Rightarrow> string \<Rightarrow> string option" where
  "on_search_path env disk name =
     (case env ''PATH'' of
        None \<Rightarrow> None
      | Some search \<Rightarrow>
          find (is_file disk) (map (\<lambda>directory. path_join directory name) (split_on (\<lambda>c. c = CHR '':'') search)))"

definition runtime_binary :: "environment \<Rightarrow> disk \<Rightarrow> string \<Rightarrow> string option" where
  "runtime_binary env disk runtime = on_search_path env disk (runtime_named runtime)"

section \<open>The command line (invocation.rs)\<close>

definition loopback_host :: string where "loopback_host = ''127.0.0.1''"

definition push_argument :: "string \<Rightarrow> string \<Rightarrow> string list \<Rightarrow> string list" where
  "push_argument flag v command = command @ [flag, v]"

definition push_some :: "string \<Rightarrow> string option \<Rightarrow> string list \<Rightarrow> string list" where
  "push_some flag v command = (case v of None \<Rightarrow> command | Some v \<Rightarrow> push_argument flag v command)"

definition long_form :: "string \<Rightarrow> string" where
  "long_form key =
     ''--'' @
       (if key = ''c'' then ''ctx-size''
        else if key = ''ctk'' then ''cache-type-k''
        else if key = ''ctv'' then ''cache-type-v''
        else if key = ''fa'' then ''flash-attn''
        else if key = ''np'' then ''parallel''
        else key)"

definition option_arguments :: "string \<Rightarrow> string \<Rightarrow> string list" where
  "option_arguments key v =
     (let spelling = to_ascii_lowercase (trim v) in
      if spelling = ''true'' then [long_form key]
      else if spelling = ''false'' then [''--no-'' @ key]
      else [long_form key, v])"

definition command_line :: "entry \<Rightarrow> string \<Rightarrow> u16 \<Rightarrow> string list" where
  "command_line e root port =
     (let command = push_argument ''--model'' (path_resolve (e_path e) root) [];
          command = push_some ''--model-draft'' (map_option (\<lambda>d. path_resolve d root) (e_draft_path e)) command;
          command = push_some ''--mmproj'' (map_option (\<lambda>p. path_resolve p root) (e_projector_path e)) command;
          command = push_argument ''--ctx-size'' (show_word (e_context_size e)) command;
          command = push_some ''--reasoning-format'' (e_reasoning_format e) command;
          command = push_some ''--reasoning-effort'' (e_reasoning_effort e) command;
          command = command @ concat (map (\<lambda>(key, v). option_arguments key v) (e_flags e));
          command = push_argument ''--alias'' (e_id e) command;
          command = push_argument ''--host'' loopback_host command
      in push_argument ''--port'' (show_word port) command)"

section \<open>Readiness (probe.rs, launch.rs)\<close>

definition parse_u16 :: "string \<Rightarrow> u16 option" where
  "parse_u16 s = map_option of_nat (parse_uint 16 s)"

text \<open>\<open>HTTP/1.1 200 OK\<close>: the second word, and none of the rest.\<close>

definition health :: "string option \<Rightarrow> u16 option" where
  "health reply =
     (case reply of
        None \<Rightarrow> None
      | Some line \<Rightarrow>
          if utf8_valid line
          then (case split_whitespace line of _ # status # _ \<Rightarrow> parse_u16 status | _ \<Rightarrow> None)
          else None)"

definition child_check :: "string + string option \<Rightarrow> liveness" where
  "child_check tried = (case tried of Inr (Some status) \<Rightarrow> Exited status | _ \<Rightarrow> Running)"

section \<open>Starting (server.rs)\<close>

record server =
  sv_binary :: string

definition located :: "environment \<Rightarrow> disk \<Rightarrow> string option \<Rightarrow> failure + server" where
  "located env disk configured =
     (case configured of
        Some path \<Rightarrow>
          if is_file disk path then Inr \<lparr>sv_binary = path\<rparr>
          else Inl (Unavailable (''the configured server binary is not there: '' @ quoted (from_utf8_lossy path)))
      | None \<Rightarrow>
          (case on_search_path env disk binary_name of
             Some binary \<Rightarrow> Inr \<lparr>sv_binary = binary\<rparr>
           | None \<Rightarrow>
               Inl (Unavailable (''no server binary was configured, and no '' @ quoted binary_name
                 @ '' was found on the search path''))))"

definition model_file :: "disk \<Rightarrow> entry \<Rightarrow> string \<Rightarrow> failure + string" where
  "model_file disk e root =
     (let model = path_resolve (e_path e) root in
      if is_file disk model then Inr model
      else Inl (Unavailable (entry_scope (e_id e) @ '': no model file at '' @ quoted (from_utf8_lossy model))))"

definition binary_for :: "environment \<Rightarrow> disk \<Rightarrow> server \<Rightarrow> entry \<Rightarrow> failure + string" where
  "binary_for env disk sv e =
     (case e_runtime e of
        None \<Rightarrow> Inr (sv_binary sv)
      | Some runtime \<Rightarrow>
          (case runtime_binary env disk runtime of
             Some binary \<Rightarrow> Inr binary
           | None \<Rightarrow>
               Inl (Unavailable (entry_scope (e_id e) @ '' needs the '' @ quoted runtime
                 @ '' runtime, and nothing named '' @ quoted (runtime_named runtime)
                 @ '' is on the search path''))))"

definition spawn_child :: "launching \<Rightarrow> nat \<Rightarrow> server \<Rightarrow> entry \<Rightarrow> string \<Rightarrow> failure + child" where
  "spawn_child lo k sv e root =
     attempt (model_file (lo_disk lo) e root) (\<lambda>_.
       case lo_free_port lo k of
         Inl error \<Rightarrow>
           Inl (Unavailable (entry_scope (e_id e) @ '': no loopback port was free: '' @ error))
       | Inr port \<Rightarrow>
           attempt (binary_for (lo_env lo) (lo_disk lo) sv e) (\<lambda>binary.
             case lo_spawn lo k binary (command_line e root port) of
               Inl error \<Rightarrow>
                 Inl (Unavailable (entry_scope (e_id e) @ '': the server binary ''
                   @ quoted (from_utf8_lossy (sv_binary sv)) @ '' would not start: '' @ error))
             | Inr (pid, handle) \<Rightarrow>
                 Inr \<lparr>ch_id = e_id e, ch_port = port, ch_pid = pid, ch_handle = handle\<rparr>))"

definition poll_interval :: duration where "poll_interval = from_millis 100"

text \<open>
  One attempt polls until it knows; beside its answer it says how often it killed the process,
  counting the drop of a child that is not handed on.
\<close>

type_synonym attempted = "((failure \<times> bool) + child) \<times> nat list"

definition not_ready :: "entry \<Rightarrow> child \<Rightarrow> failure" where
  "not_ready e c =
     NotReady (entry_scope (ch_id c) @ '': not ready within its startup budget of ''
       @ show_word (e_startup_timeout_seconds e) @ '' seconds'')"

fun attempt_loop ::
    "launching \<Rightarrow> nat \<Rightarrow> entry \<Rightarrow> child \<Rightarrow> nat \<Rightarrow> nat \<Rightarrow> bool \<Rightarrow> attempted run" where
  "attempt_loop lo k e c 0 n ever_connected = Out_of_fuel"
| "attempt_loop lo k e c (Suc fuel) n ever_connected =
     (case child_check (lo_try_wait lo k n) of
        Exited status \<Rightarrow>
          Done (Inl (Unavailable (entry_scope (ch_id c) @ '': the server exited while loading (''
                  @ status @ '')''), \<not> ever_connected), [ch_handle c])
      | Running \<Rightarrow>
          (let answer = health (lo_health_line lo k n) in
           if answer = Some 200 then Done (Inr c, [])
           else if from_secs (ucast (e_startup_timeout_seconds e)) \<le> lo_elapsed lo k n
           then Done (Inl (not_ready e c, False), [ch_handle c, ch_handle c])
           else attempt_loop lo k e c fuel (Suc n) (ever_connected \<or> answer \<noteq> None)))"

definition attempt_start :: "nat \<Rightarrow> launching \<Rightarrow> nat \<Rightarrow> server \<Rightarrow> entry \<Rightarrow> string \<Rightarrow> attempted run" where
  "attempt_start fuel lo k sv e root =
     (case spawn_child lo k sv e root of
        Inl failure \<Rightarrow> Done (Inl (failure, False), [])
      | Inr c \<Rightarrow> attempt_loop lo k e c fuel 0 False)"

definition server_start ::
    "nat \<Rightarrow> launching \<Rightarrow> server \<Rightarrow> entry \<Rightarrow> string \<Rightarrow> ((failure + child) \<times> nat list) run" where
  "server_start fuel lo sv e root =
     (case attempt_start fuel lo 0 sv e root of
        Done (Inl (failure, lost_the_race), stopped) \<Rightarrow>
          if lost_the_race
          then (case attempt_start fuel lo 1 sv e root of
                  Done (Inl (failure, _), stopped2) \<Rightarrow> Done (Inl failure, stopped @ stopped2)
                | Done (Inr c, stopped2) \<Rightarrow> Done (Inr c, stopped @ stopped2)
                | Panicked \<Rightarrow> Panicked
                | Out_of_fuel \<Rightarrow> Out_of_fuel)
          else Done (Inl failure, stopped)
      | Done (Inr c, stopped) \<Rightarrow> Done (Inr c, stopped)
      | Panicked \<Rightarrow> Panicked
      | Out_of_fuel \<Rightarrow> Out_of_fuel)"

end
