(* ===== verification/Launch_Laws.thy ===== *)
theory Launch_Laws
  imports Launch
begin

text \<open>
  A child listens on loopback whatever its entry's flags say; starting one ends within the entry's
  budget, tries again exactly when the first process died unheard, and leaves no process behind
  that it does not hand on; and the binary it runs is a file found the documented way.
\<close>

section \<open>The command line\<close>

text \<open>How the server reads its arguments: of several values for one flag the last one counts.\<close>

fun last_value :: "string \<Rightarrow> string list \<Rightarrow> string option" where
  "last_value flag (a # b # rest) =
     (case last_value flag (b # rest) of Some v \<Rightarrow> Some v | None \<Rightarrow> if a = flag then Some b else None)"
| "last_value flag _ = None"

lemma last_value_append: "last_value flag ys = Some v \<Longrightarrow> last_value flag (xs @ ys) = Some v"
proof (induction xs)
  case (Cons x xs)
  then show ?case by (cases "xs @ ys") auto
qed simp

lemma parse_show_u16: "parse_u16 (show_word port) = Some port"
  using unsigned_less [of port, where ?'a = nat] by (simp add: parse_u16_def show_word_def parse_show_nat)

lemma command_line_ends:
  "\<exists>front. command_line e root port = front @ [''--host'', loopback_host, ''--port'', show_word port] \<and>
     take 2 front = [''--model'', path_resolve (e_path e) root]"
  by (auto simp: command_line_def Let_def push_argument_def push_some_def split: option.split)

lemma show_word_no_flag: "show_word port \<noteq> ''--host'' \<and> show_word port \<noteq> ''--port''"
proof -
  have "list_all is_ascii_digit (show_word port)" by (simp add: show_word_def show_nat_digits)
  moreover have "\<not> list_all is_ascii_digit ''--host''" "\<not> list_all is_ascii_digit ''--port''" by code_simp+
  ultimately show ?thesis by metis
qed

text \<open>
  C36: A child listens on loopback, on the port it was given. Whatever the entry's flags table says,
  \<open>host\<close> and \<open>port\<close> among it, the last \<open>--host\<close> of the command line is the loopback address and the
  last \<open>--port\<close> reads back as the port; the first thing said is the model's file.
\<close>

theorem child_binds_loopback:
  "last_value ''--host'' (command_line e root port) = Some ''127.0.0.1'' \<and>
   Option.bind (last_value ''--port'' (command_line e root port)) parse_u16 = Some port \<and>
   take 2 (command_line e root port) = [''--model'', path_join root (as_str (e_path e))]"
proof -
  obtain front where c: "command_line e root port = front @ [''--host'', loopback_host, ''--port'', show_word port]"
      "take 2 front = [''--model'', path_resolve (e_path e) root]"
    using command_line_ends by blast
  have "2 \<le> length front" using c(2) by (metis length_Cons length_take list.size(3) min.cobounded1 numeral_2_eq_2)
  moreover have "last_value ''--host'' [''--host'', loopback_host, ''--port'', show_word port] = Some ''127.0.0.1''"
    "last_value ''--port'' [''--host'', loopback_host, ''--port'', show_word port] = Some (show_word port)"
    using show_word_no_flag [of port] by (simp_all add: loopback_host_def)
  ultimately show ?thesis
    unfolding c(1) using c(2) by (simp add: last_value_append parse_show_u16 path_resolve_def)
qed

section \<open>Which binary runs\<close>

lemma on_search_path_Some:
  assumes "on_search_path env disk name = Some path"
  shows "is_file disk path \<and> (\<exists>search before directory after. env ''PATH'' = Some search \<and>
    split_on (\<lambda>c. c = CHR '':'') search = before @ directory # after \<and> path = path_join directory name \<and>
    (\<forall>d \<in> set before. \<not> is_file disk (path_join d name)))"
proof -
  obtain search where s: "env ''PATH'' = Some search"
      "find (is_file disk) (map (\<lambda>d. path_join d name) (split_on (\<lambda>c. c = CHR '':'') search)) = Some path"
    using assms by (auto simp: on_search_path_def split: option.splits)
  then obtain i where i: "i < length (split_on (\<lambda>c. c = CHR '':'') search)"
      "path = path_join (split_on (\<lambda>c. c = CHR '':'') search ! i) name" "is_file disk path"
      "\<forall>j < i. \<not> is_file disk (path_join (split_on (\<lambda>c. c = CHR '':'') search ! j) name)"
    by (auto simp: find_Some_iff)
  then show ?thesis
    using s(1) id_take_nth_drop [OF i(1)]
    by (intro conjI exI [of _ search] exI [of _ "take i (split_on (\<lambda>c. c = CHR '':'') search)"]
        exI [of _ "split_on (\<lambda>c. c = CHR '':'') search ! i"] exI [of _ "drop (Suc i) (split_on (\<lambda>c. c = CHR '':'') search)"])
      (auto simp: in_set_conv_nth)
qed

text \<open>
  The binary an entry is served from is a file. A located server is one, and an entry that
  names a runtime gets the first \<open>llama-server-\<close>runtime of the search path, never the stock
  binary in its place.
\<close>

theorem binary_resolved:
  assumes "located env disk configured = Inr sv" and "binary_for env disk sv e = Inr binary"
  shows "is_file disk binary \<and>
    (case e_runtime e of
       None \<Rightarrow> binary = sv_binary sv
     | Some runtime \<Rightarrow> \<exists>search before directory after. env ''PATH'' = Some search \<and>
         split_on (\<lambda>c. c = CHR '':'') search = before @ directory # after \<and>
         binary = path_join directory (''llama-server-'' @ runtime) \<and>
         (\<forall>d \<in> set before. \<not> is_file disk (path_join d (''llama-server-'' @ runtime))))"
proof (cases "e_runtime e")
  case None
  then show ?thesis
    using assms on_search_path_Some [of env disk binary_name]
    by (auto simp: located_def binary_for_def split: option.splits if_splits)
next
  case (Some runtime)
  then have "on_search_path env disk (''llama-server-'' @ runtime) = Some binary"
    using assms(2) by (auto simp: binary_for_def runtime_binary_def runtime_named_def binary_name_def split: option.splits)
  from on_search_path_Some [OF this] Some show ?thesis by simp
qed

text \<open>
  When a named runtime's binary does not start, the failure names another file: the binary the router
  itself was located with, which was not run.
\<close>

theorem wrong_binary_named:
  assumes "is_file (lo_disk lo) (path_resolve (e_path e) root)" and "lo_free_port lo k = Inr port"
    and "e_runtime e = Some runtime" and "runtime_binary (lo_env lo) (lo_disk lo) runtime = Some binary"
    and "lo_spawn lo k binary (command_line e root port) = Inl error"
  shows "spawn_child lo k sv e root =
    Inl (Unavailable (entry_scope (e_id e) @ '': the server binary ''
      @ quoted (from_utf8_lossy (sv_binary sv)) @ '' would not start: '' @ error))"
  using assms by (simp add: spawn_child_def model_file_def binary_for_def)

section \<open>Starting\<close>

text \<open>One poll that decides nothing: running, not ready, and time left.\<close>

definition undecided :: "launching \<Rightarrow> nat \<Rightarrow> entry \<Rightarrow> nat \<Rightarrow> bool" where
  "undecided lo k e n \<longleftrightarrow>
     child_check (lo_try_wait lo k n) = Running \<and> health (lo_health_line lo k n) \<noteq> Some 200 \<and>
     lo_elapsed lo k n < from_secs (ucast (e_startup_timeout_seconds e))"

definition decided :: "launching \<Rightarrow> nat \<Rightarrow> entry \<Rightarrow> child \<Rightarrow> nat \<Rightarrow> bool \<Rightarrow> attempted" where
  "decided lo k e c n ever =
    (case child_check (lo_try_wait lo k n) of
       Exited status \<Rightarrow> (Inl (Unavailable (entry_scope (ch_id c) @ '': the server exited while loading (''
            @ status @ '')''), \<not> ever), [ch_handle c])
     | Running \<Rightarrow>
         if health (lo_health_line lo k n) = Some 200 then (Inr c, [])
         else (Inl (not_ready e c, False), [ch_handle c, ch_handle c]))"

definition heard :: "launching \<Rightarrow> nat \<Rightarrow> nat \<Rightarrow> nat \<Rightarrow> bool" where
  "heard lo k m n \<longleftrightarrow> (\<exists>j. m \<le> j \<and> j < n \<and> health (lo_health_line lo k j) \<noteq> None)"

lemma attempt_loop_Suc:
  "attempt_loop lo k e c (Suc fuel) n ever =
     (if undecided lo k e n
      then attempt_loop lo k e c fuel (Suc n) (ever \<or> health (lo_health_line lo k n) \<noteq> None)
      else Done (decided lo k e c n ever))"
  by (auto simp: undecided_def decided_def Let_def split: liveness.split)

lemma heard_Suc: "m < n \<Longrightarrow> heard lo k m n \<longleftrightarrow> health (lo_health_line lo k m) \<noteq> None \<or> heard lo k (Suc m) n"
  unfolding heard_def by (metis Suc_leD Suc_le_eq le_neq_implies_less order_refl)

lemma heard_none [simp]: "\<not> heard lo k n n"
  by (simp add: heard_def)

lemma attempt_loop_run:
  "m \<le> n \<Longrightarrow> n - m < fuel \<Longrightarrow> (\<And>j. m \<le> j \<Longrightarrow> j < n \<Longrightarrow> undecided lo k e j) \<Longrightarrow> \<not> undecided lo k e n \<Longrightarrow>
     attempt_loop lo k e c fuel m ever = Done (decided lo k e c n (ever \<or> heard lo k m n))"
proof (induction fuel arbitrary: m ever)
  case (Suc fuel)
  show ?case
  proof (cases "m = n")
    case True
    then show ?thesis using Suc.prems by (simp add: attempt_loop_Suc del: attempt_loop.simps)
  next
    case False
    then have "undecided lo k e m" "m < n" using Suc.prems by auto
    then show ?thesis
      using Suc.IH [of "Suc m"] Suc.prems heard_Suc [of m n lo k]
      by (simp add: attempt_loop_Suc disj_assoc del: attempt_loop.simps)
  qed
qed simp

lemma attempt_loop_Done:
  "attempt_loop lo k e c fuel m ever = Done r \<Longrightarrow>
     \<exists>n. m \<le> n \<and> n - m < fuel \<and> (\<forall>j. m \<le> j \<and> j < n \<longrightarrow> undecided lo k e j) \<and> \<not> undecided lo k e n"
proof (induction fuel arbitrary: m ever)
  case (Suc fuel)
  show ?case
  proof (cases "undecided lo k e m")
    case True
    then have "attempt_loop lo k e c fuel (Suc m) (ever \<or> health (lo_health_line lo k m) \<noteq> None) = Done r"
      using Suc.prems by (simp only: attempt_loop_Suc if_True)
    from Suc.IH [OF this] obtain n where n: "Suc m \<le> n" "n - Suc m < fuel"
        "\<forall>j. Suc m \<le> j \<and> j < n \<longrightarrow> undecided lo k e j" "\<not> undecided lo k e n" by blast
    then have "\<forall>j. m \<le> j \<and> j < n \<longrightarrow> undecided lo k e j" using True by (metis Suc_leI le_neq_implies_less)
    then show ?thesis using n by (intro exI [of _ n]) auto
  next
    case False
    then show ?thesis by (intro exI [of _ m]) auto
  qed
qed simp

lemma attempt_loop_ends:
  assumes "\<And>n. n * poll_interval \<le> lo_elapsed lo k n"
    and "from_secs (ucast (e_startup_timeout_seconds e)) div poll_interval + 1 < fuel"
  shows "\<exists>r. attempt_loop lo k e c fuel 0 ever = Done r"
proof -
  let ?budget = "from_secs (ucast (e_startup_timeout_seconds e))"
  let ?n = "?budget div poll_interval + 1"
  have "0 < poll_interval" by (simp add: poll_interval_def from_millis_def)
  then have "?budget \<le> ?n * poll_interval"
    by (metis add.commute div_mod_decomp less_imp_le_nat mod_less_divisor mult.commute mult_Suc nat_add_left_cancel_le plus_1_eq_Suc)
  then have late: "\<not> undecided lo k e ?n" using assms(1) [of ?n] by (simp add: undecided_def)
  define n where "n = (LEAST n. \<not> undecided lo k e n)"
  have "\<not> undecided lo k e n" unfolding n_def by (rule LeastI [of _ ?n]) (rule late)
  moreover have "n \<le> ?n" unfolding n_def by (rule Least_le) (rule late)
  moreover have "undecided lo k e j" if "j < n" for j using not_less_Least that unfolding n_def by blast
  ultimately show ?thesis using attempt_loop_run [of 0 n fuel lo k e c ever] assms(2) by auto
qed

text \<open>
  Starting a server ends. As long as a poll comes no sooner than its interval after the one before,
  one attempt polls at most ten times a second of the entry's startup budget and once more, and the start is over
  after at most two attempts.
\<close>

theorem server_start_ends:
  assumes "\<And>k n. n * poll_interval \<le> lo_elapsed lo k n"
    and "from_secs (ucast (e_startup_timeout_seconds e)) div poll_interval + 1 < fuel"
  shows "\<exists>r. server_start fuel lo sv e root = Done r"
proof -
  have one: "\<exists>r. attempt_start fuel lo k sv e root = Done r" for k
    using attempt_loop_ends [of lo k e fuel] assms by (auto simp: attempt_start_def split: sum.split)
  obtain r0 s0 r1 s1 where "attempt_start fuel lo 0 sv e root = Done (r0, s0)" "attempt_start fuel lo 1 sv e root = Done (r1, s1)"
    using one [of 0] one [of 1] by (metis surj_pair)
  then show ?thesis by (auto simp: server_start_def split: sum.split)
qed

section \<open>The retry, and what is left behind\<close>

text \<open>The first process died having never answered a probe: the mark of a lost race for its port.\<close>

definition died_unheard :: "launching \<Rightarrow> nat \<Rightarrow> entry \<Rightarrow> bool" where
  "died_unheard lo k e \<longleftrightarrow>
     (\<exists>n. (\<forall>j < n. undecided lo k e j \<and> health (lo_health_line lo k j) = None) \<and>
          child_check (lo_try_wait lo k n) \<noteq> Running)"

lemma attempt_start_spawned:
  assumes "attempt_start fuel lo k sv e root = Done (r, stopped)"
  shows "case spawn_child lo k sv e root of
      Inl f \<Rightarrow> r = Inl (f, False) \<and> stopped = []
    | Inr c \<Rightarrow> \<exists>n. (\<forall>j < n. undecided lo k e j) \<and> \<not> undecided lo k e n \<and>
        (r, stopped) = decided lo k e c n (heard lo k 0 n)"
proof (cases "spawn_child lo k sv e root")
  case (Inr c)
  then have run: "attempt_loop lo k e c fuel 0 False = Done (r, stopped)" using assms by (simp add: attempt_start_def)
  then obtain n where n: "n < fuel" "\<forall>j < n. undecided lo k e j" "\<not> undecided lo k e n"
    using attempt_loop_Done [OF run] by auto
  with attempt_loop_run [of 0 n fuel lo k e c False] run Inr show ?thesis by auto
qed (use assms in \<open>simp add: attempt_start_def\<close>)

lemma lost_race_iff:
  assumes "attempt_start fuel lo k sv e root = Done (Inl (f, lost), stopped)" and "spawn_child lo k sv e root = Inr c"
  shows "lost \<longleftrightarrow> died_unheard lo k e"
proof -
  obtain n where n: "\<forall>j < n. undecided lo k e j" "\<not> undecided lo k e n"
      "(Inl (f, lost), stopped) = decided lo k e c n (heard lo k 0 n)"
    using attempt_start_spawned [OF assms(1)] assms(2) by auto
  have lost: "lost \<longleftrightarrow> child_check (lo_try_wait lo k n) \<noteq> Running \<and> \<not> heard lo k 0 n"
    using n(3) by (auto simp: decided_def split: liveness.splits if_splits)
  show ?thesis
  proof
    assume lost
    then show "died_unheard lo k e" using lost n(1) unfolding died_unheard_def heard_def by (metis le0)
  next
    assume "died_unheard lo k e"
    then obtain i where i: "\<forall>j < i. undecided lo k e j \<and> health (lo_health_line lo k j) = None"
        "child_check (lo_try_wait lo k i) \<noteq> Running" by (auto simp: died_unheard_def)
    then have "\<not> undecided lo k e i" by (simp add: undecided_def)
    then have "i = n" using i(1) n(1,2) by (meson linorder_neqE_nat)
    then show lost using i lost by (simp add: heard_def)
  qed
qed

definition retried :: "launching \<Rightarrow> server \<Rightarrow> entry \<Rightarrow> string \<Rightarrow> bool" where
  "retried lo sv e root \<longleftrightarrow> (\<exists>c. spawn_child lo 0 sv e root = Inr c) \<and> died_unheard lo 0 e"

definition ready :: "launching \<Rightarrow> nat \<Rightarrow> entry \<Rightarrow> bool" where
  "ready lo k e \<longleftrightarrow>
     (\<exists>n. (\<forall>j < n. undecided lo k e j) \<and> child_check (lo_try_wait lo k n) = Running \<and>
          health (lo_health_line lo k n) = Some 200)"

lemma attempt_start_outcome:
  assumes "attempt_start fuel lo k sv e root = Done (r, stopped)"
  shows "(\<forall>c. spawn_child lo k sv e root = Inr c \<longrightarrow> r = Inr c \<or> ch_handle c \<in> set stopped) \<and>
    (\<forall>c. r = Inr c \<longleftrightarrow> spawn_child lo k sv e root = Inr c \<and> ready lo k e)"
proof (cases "spawn_child lo k sv e root")
  case (Inr c)
  then obtain n where n: "\<forall>j < n. undecided lo k e j" "\<not> undecided lo k e n"
      "(r, stopped) = decided lo k e c n (heard lo k 0 n)"
    using attempt_start_spawned [OF assms] by auto
  have "ready lo k e \<longleftrightarrow> child_check (lo_try_wait lo k n) = Running \<and> health (lo_health_line lo k n) = Some 200"
  proof
    assume "ready lo k e"
    then obtain i where i: "\<forall>j < i. undecided lo k e j" "child_check (lo_try_wait lo k i) = Running"
        "health (lo_health_line lo k i) = Some 200" by (auto simp: ready_def)
    then have "\<not> undecided lo k e i" by (simp add: undecided_def)
    then have "i = n" using i(1) n(1,2) by (meson linorder_neqE_nat)
    then show "child_check (lo_try_wait lo k n) = Running \<and> health (lo_health_line lo k n) = Some 200" using i by simp
  next
    assume "child_check (lo_try_wait lo k n) = Running \<and> health (lo_health_line lo k n) = Some 200"
    then show "ready lo k e" using n(1) unfolding ready_def by blast
  qed
  then show ?thesis using n(3) Inr by (auto simp: decided_def split: liveness.splits if_splits)
next
  case (Inl f)
  then show ?thesis using assms by (auto simp: attempt_start_def)
qed

lemma attempt_start_lost:
  assumes "attempt_start fuel lo 0 sv e root = Done (Inl (f, lost), stopped)"
  shows "lost \<longleftrightarrow> retried lo sv e root"
proof (cases "spawn_child lo 0 sv e root")
  case (Inl f)
  then show ?thesis using assms by (simp add: attempt_start_def retried_def)
next
  case (Inr c)
  then show ?thesis using lost_race_iff [OF assms] by (simp add: retried_def)
qed

lemma retried_not_ready: "retried lo sv e root \<Longrightarrow> \<not> ready lo 0 e"
proof
  assume "ready lo 0 e" and "retried lo sv e root"
  then obtain n i where n: "\<forall>j < n. undecided lo 0 e j" "child_check (lo_try_wait lo 0 n) = Running"
      "health (lo_health_line lo 0 n) = Some 200"
    and i: "\<forall>j < i. undecided lo 0 e j" "child_check (lo_try_wait lo 0 i) \<noteq> Running"
    by (auto simp: ready_def retried_def died_unheard_def)
  have "\<not> undecided lo 0 e n" "\<not> undecided lo 0 e i" using n i by (simp_all add: undecided_def)
  then have "i = n" using i(1) n(1) by (meson linorder_neqE_nat)
  then show False using i n by simp
qed

text \<open>A start is its first attempt, or, when that one's process died unheard, both.\<close>

lemma server_start_attempts:
  assumes "server_start fuel lo sv e root = Done (r, stopped)"
  obtains (once) r0 where "\<not> retried lo sv e root" "attempt_start fuel lo 0 sv e root = Done (r0, stopped)"
      "\<And>c. r = Inr c \<longleftrightarrow> r0 = Inr c"
    | (twice) c0 s0 f r1 s1 where "retried lo sv e root" "spawn_child lo 0 sv e root = Inr c0"
      "attempt_start fuel lo 0 sv e root = Done (Inl f, s0)" "attempt_start fuel lo 1 sv e root = Done (r1, s1)"
      "stopped = s0 @ s1" "\<And>c. r = Inr c \<longleftrightarrow> r1 = Inr c"
proof -
  obtain r0 s0 where first: "attempt_start fuel lo 0 sv e root = Done (r0, s0)"
    using assms by (auto simp: server_start_def split: run.splits)
  show ?thesis
  proof (cases "retried lo sv e root")
    case True
    then obtain c0 where c0: "spawn_child lo 0 sv e root = Inr c0" by (auto simp: retried_def)
    obtain f lost where r0: "r0 = Inl (f, lost)"
      using attempt_start_outcome [OF first] retried_not_ready [OF True] by (cases r0) auto
    then have "lost" using attempt_start_lost [of fuel lo sv e root f lost s0] first True by simp
    then show ?thesis
      using assms first r0 twice [OF True c0] by (auto simp: server_start_def split: run.splits sum.splits)
  next
    case False
    have "stopped = s0 \<and> (\<forall>c. r = Inr c \<longleftrightarrow> r0 = Inr c)"
    proof (cases r0)
      case (Inl fl)
      then show ?thesis using assms first False attempt_start_lost [of fuel lo sv e root _ _ s0]
        by (cases fl) (auto simp: server_start_def)
    qed (use assms first in \<open>auto simp: server_start_def\<close>)
    then show ?thesis using once [OF False] first by simp
  qed
qed

text \<open>
  C24: What starting a server leaves behind. There is a second attempt exactly when the first
  process died before it answered anything; the child handed on is the last attempt's, was alive and
  answered 200 within its budget; the start fails exactly when that one did not; and every other process
  that was started has been stopped.
\<close>

theorem server_start_leaves_nothing:
  assumes "server_start fuel lo sv e root = Done (r, stopped)"
  shows "let k = (if retried lo sv e root then 1 else 0) in
    (\<forall>c. r = Inr c \<longleftrightarrow> spawn_child lo k sv e root = Inr c \<and> ready lo k e) \<and>
    (\<forall>j c. j \<le> k \<and> spawn_child lo j sv e root = Inr c \<longrightarrow> (j = k \<and> r = Inr c) \<or> ch_handle c \<in> set stopped)"
  using assms
proof (cases rule: server_start_attempts)
  case (once r0)
  then show ?thesis using attempt_start_outcome [OF once(2)] by (auto simp: Let_def)
next
  case (twice c0 s0 f r1 s1)
  note one = attempt_start_outcome [OF twice(3)] and two = attempt_start_outcome [OF twice(4)]
  have "(j = 1 \<and> r = Inr c) \<or> ch_handle c \<in> set stopped" if "j \<le> 1" "spawn_child lo j sv e root = Inr c" for j c
    using that one two twice(2,5,6) by (cases "j = 0") (auto simp: le_Suc_eq)
  then show ?thesis using twice(1,6) two by (simp add: Let_def)
qed

section \<open>A concrete machine\<close>

definition sample_entry :: entry where
  "sample_entry = \<lparr>e_id = ''m'', e_path = RelativePath ''m.gguf'', e_draft_path = None,
     e_projector_path = None, e_context_size = 4096, e_residency = OnDemand, e_memory_estimate_mib = 100,
     e_reasoning_format = None, e_reasoning_effort = None, e_startup_timeout_seconds = 1,
     e_runtime = Some ''x'', e_flags = []\<rparr>"

definition sample_machine :: launching where
  "sample_machine =
     \<lparr>lo_env = [''PATH'' \<mapsto> ''/a:/b''],
      lo_disk = \<lparr>disk_open = \<lambda>_. Inl ''denied'',
        disk_stat = \<lambda>p. if p = ''/r/m.gguf'' \<or> p = ''/b/llama-server'' \<or> p = ''/b/llama-server-x'' then Some (True, 1) else None,
        disk_is_dir = \<lambda>_. False, disk_list = \<lambda>_. None\<rparr>,
      lo_free_port = \<lambda>_. Inr 80, lo_spawn = \<lambda>k _ _. Inr (1, k),
      lo_try_wait = \<lambda>k _. Inr (if k = 0 then Some ''exit status: 1'' else None),
      lo_health_line = \<lambda>_ n. if n = 0 then None else Some ''HTTP/1.1 200 OK'',
      lo_elapsed = \<lambda>_ n. n * poll_interval\<rparr>"

definition sample_server :: server where "sample_server = \<lparr>sv_binary = ''/b/llama-server''\<rparr>"

definition sample_child :: child where
  "sample_child = \<lparr>ch_id = ''m'', ch_port = 80, ch_pid = 1, ch_handle = 1\<rparr>"

lemma sample_run:
  "server_start 20 sample_machine sample_server sample_entry ''/r'' = Done (Inr sample_child, [0])"
  by code_simp

theorem server_start_leaves_nothing_witness:
  "\<exists>stopped. server_start 20 sample_machine sample_server sample_entry ''/r'' = Done (Inr sample_child, stopped) \<and>
    ready sample_machine (if retried sample_machine sample_server sample_entry ''/r'' then 1 else 0) sample_entry"
  using server_start_leaves_nothing [OF sample_run] sample_run unfolding Let_def by blast

theorem server_start_ends_witness:
  "\<exists>r. server_start 20 sample_machine sample_server sample_entry ''/r'' = Done r"
proof (rule server_start_ends)
  show "n * poll_interval \<le> lo_elapsed sample_machine k n" for k n by (simp add: sample_machine_def)
  show "from_secs (ucast (e_startup_timeout_seconds sample_entry)) div poll_interval + 1 < 20" by code_simp
qed

theorem binary_resolved_witness:
  "\<exists>sv binary. located (lo_env sample_machine) (lo_disk sample_machine) None = Inr sv \<and>
     binary_for (lo_env sample_machine) (lo_disk sample_machine) sv sample_entry = Inr binary \<and>
     is_file (lo_disk sample_machine) binary"
proof -
  have "located (lo_env sample_machine) (lo_disk sample_machine) None = Inr sample_server"
    "binary_for (lo_env sample_machine) (lo_disk sample_machine) sample_server sample_entry = Inr ''/b/llama-server-x''"
    by code_simp+
  with binary_resolved [OF this] show ?thesis by blast
qed

definition refusing_machine :: launching where
  "refusing_machine = sample_machine\<lparr>lo_spawn := \<lambda>_ _ _. Inl ''Permission denied (os error 13)''\<rparr>"

theorem wrong_binary_named_witness:
  "spawn_child refusing_machine 0 sample_server sample_entry ''/r'' =
    Inl (Unavailable (entry_scope (e_id sample_entry) @ '': the server binary ''
      @ quoted (from_utf8_lossy (sv_binary sample_server)) @ '' would not start: '' @ ''Permission denied (os error 13)''))"
proof (rule wrong_binary_named)
  show "is_file (lo_disk refusing_machine) (path_resolve (e_path sample_entry) ''/r'')" by code_simp
  show "lo_free_port refusing_machine 0 = Inr 80" by code_simp
  show "e_runtime sample_entry = Some ''x''" by code_simp
  show "runtime_binary (lo_env refusing_machine) (lo_disk refusing_machine) ''x'' = Some ''/b/llama-server-x''" by code_simp
  show "lo_spawn refusing_machine 0 ''/b/llama-server-x'' (command_line sample_entry ''/r'' 80)
      = Inl ''Permission denied (os error 13)''"
    by (simp add: refusing_machine_def)
qed

end
