(* ===== verification/Http.thy ===== *)
theory Http
  imports Queue
begin

text \<open>
  What the router reads of a request and what it refuses: the causes of a refusal
  (\<open>src/src/proxy/refusal.rs\<close>), the shapes of a path (\<open>proxy/endpoint.rs\<close>), reading a head off a
  connection within bounds (\<open>proxy/head/read.rs\<close>), parsing it and rewriting it for the child
  (\<open>proxy/head.rs\<close>). A connection is the bytes that arrive on it and what comes after them.
  JSON is the crate's value type; printing and parsing it are the crate's, and a parameter.
\<close>

section \<open>JSON values\<close>

datatype json =
    JNull
  | JBool bool
  | JNumber string
  | JString string
  | JArray "json list"
  | JObject "(string \<times> json) list"

record json_crate =
  js_print :: "json \<Rightarrow> string"
  js_parse :: "string \<Rightarrow> string + json"

section \<open>Why a request is refused (refusal.rs)\<close>

datatype cause =
    MalformedRequest
  | HeadTooLarge
  | RequestTimeout
  | PathNotFound
  | ModelNotFound
  | MethodNotAllowed string
  | ChunkedBody
  | MalformedLength
  | LengthRequired
  | BodyTooLarge
  | BodyIncomplete
  | BodyNotJson
  | ModelMissing
  | ChildUnavailable
  | StartupTimeout
  | RoomContended
  | NoRoom

fun describe :: "cause \<Rightarrow> u16 \<times> string" where
  "describe MalformedRequest = (400, ''malformed_request'')"
| "describe HeadTooLarge = (431, ''request_head_too_large'')"
| "describe RequestTimeout = (408, ''request_timeout'')"
| "describe PathNotFound = (404, ''path_not_found'')"
| "describe ModelNotFound = (404, ''model_not_found'')"
| "describe (MethodNotAllowed _) = (405, ''method_not_allowed'')"
| "describe ChunkedBody = (501, ''chunked_body_not_implemented'')"
| "describe MalformedLength = (400, ''malformed_content_length'')"
| "describe LengthRequired = (411, ''content_length_required'')"
| "describe BodyTooLarge = (413, ''body_too_large'')"
| "describe BodyIncomplete = (400, ''body_incomplete'')"
| "describe BodyNotJson = (400, ''body_not_json'')"
| "describe ModelMissing = (400, ''model_missing'')"
| "describe ChildUnavailable = (502, ''child_unavailable'')"
| "describe StartupTimeout = (504, ''startup_timeout'')"
| "describe RoomContended = (503, ''room_contended'')"
| "describe NoRoom = (503, ''insufficient_room'')"

definition cause_status :: "cause \<Rightarrow> u16" where
  "cause_status c = fst (describe c)"

definition cause_code :: "cause \<Rightarrow> string" where
  "cause_code c = snd (describe c)"

definition retry_after_seconds :: "cause \<Rightarrow> u32 option" where
  "retry_after_seconds c = (if c = RoomContended then Some 1 else None)"

definition family :: "cause \<Rightarrow> string" where
  "family c = (if cause_status c < 500 then ''invalid_request_error'' else ''server_error'')"

record http_refusal =
  rf_cause :: cause
  rf_message :: string

definition refusal_new :: "cause \<Rightarrow> string \<Rightarrow> http_refusal" where
  "refusal_new c message = \<lparr>rf_cause = c, rf_message = message\<rparr>"

definition envelope :: "json_crate \<Rightarrow> http_refusal \<Rightarrow> string" where
  "envelope js r =
     js_print js (JObject [(''error'', JObject
       [(''message'', JString (rf_message r)),
        (''type'', JString (family (rf_cause r))),
        (''code'', JString (cause_code (rf_cause r)))])])"

definition refusal_from :: "failure \<Rightarrow> http_refusal" where
  "refusal_from f =
     refusal_new
       (case f of
          NotReady _ \<Rightarrow> StartupTimeout
        | Unavailable _ \<Rightarrow> ChildUnavailable
        | Contended _ \<Rightarrow> RoomContended
        | Refused _ \<Rightarrow> NoRoom) (failure_text f)"

section \<open>Which endpoint a path addresses (endpoint.rs)\<close>

definition dedicated_prefix :: string where "dedicated_prefix = ''/models/''"
definition generic_prefix :: string where "generic_prefix = ''/v1/''"
definition listing_path :: string where "listing_path = ''/v1/models''"
definition catalogue_path :: string where "catalogue_path = ''/models''"
definition properties_path :: string where "properties_path = ''/props''"

datatype endpoint =
    Dedicated string string
  | Generic string
  | Listing
  | Catalogue
  | Properties

definition path_not_served :: "string \<Rightarrow> http_refusal" where
  "path_not_served reason = refusal_new PathNotFound reason"

definition dedicated_of :: "string \<Rightarrow> string \<Rightarrow> http_refusal + endpoint" where
  "dedicated_of path rest =
     (case split_once ''/'' rest of
        Some (i, suffix) \<Rightarrow>
          if i \<noteq> [] \<and> suffix \<noteq> [] then Inr (Dedicated i (''/'' @ suffix))
          else Inl (path_not_served (quoted path @ '' names a model with nothing after it: the shape is ''
            @ dedicated_prefix @ ''<model>/<path>''))
      | None \<Rightarrow> Inl (path_not_served (quoted path @ '' names a model with nothing after it: the shape is ''
            @ dedicated_prefix @ ''<model>/<path>'')))"

definition endpoint_of :: "string \<Rightarrow> http_refusal + endpoint" where
  "endpoint_of path =
     (let bare = trim_end_matches (\<lambda>c. c = CHR ''/'') path in
      if bare = catalogue_path then Inr Catalogue
      else if bare = properties_path then Inr Properties
      else
        (case strip_prefix dedicated_prefix path of
           Some rest \<Rightarrow> dedicated_of path rest
         | None \<Rightarrow>
             (let bare = hd (split_on (\<lambda>c. c = CHR ''?'') path) in
              if trim_end_matches (\<lambda>c. c = CHR ''/'') bare = listing_path then Inr Listing
              else if starts_with path generic_prefix then Inr (Generic path)
              else Inl (path_not_served (quoted path
                @ '' is not a path this router serves: the shapes are '' @ dedicated_prefix
                @ ''<model>/<path> and '' @ generic_prefix @ ''<path>'')))))"

fun allowed :: "endpoint \<Rightarrow> string" where
  "allowed (Dedicated _ _) = ''GET, POST, OPTIONS''"
| "allowed (Generic _) = ''GET, POST, OPTIONS''"
| "allowed _ = ''GET, HEAD, OPTIONS''"

text \<open>\<open>str::split\<close> at a pattern that is not empty.\<close>

function split_text :: "string \<Rightarrow> string \<Rightarrow> string list" where
  "split_text sep s =
     (case split_once sep s of
        None \<Rightarrow> [s]
      | Some (a, b) \<Rightarrow> if sep = [] then [s] else a # split_text sep b)"
  by pat_completeness auto
termination
  by (relation "measure (\<lambda>(sep, s). length s)") (auto simp: split_once_Some dest: split_once_Some)

definition allows :: "endpoint \<Rightarrow> string \<Rightarrow> bool" where
  "allows ep method \<longleftrightarrow> list_ex (\<lambda>a. a = method) (split_text '', '' (allowed ep))"

fun endpoint_suffix :: "endpoint \<Rightarrow> string" where
  "endpoint_suffix (Dedicated _ suffix) = suffix"
| "endpoint_suffix (Generic suffix) = suffix"
| "endpoint_suffix Listing = listing_path"
| "endpoint_suffix Catalogue = catalogue_path"
| "endpoint_suffix Properties = properties_path"

section \<open>Reading a head off a connection (head/read.rs)\<close>

datatype error_kind = WouldBlock | TimedOut | UnexpectedEof | InvalidData | OtherKind

record io_error =
  io_kind :: error_kind
  io_text :: string

text \<open>The bytes that are still to come, and how they end: closed by the peer, or a failing read.\<close>

record stream =
  st_bytes :: string
  st_end :: "io_error option"

definition timed_out :: "io_error \<Rightarrow> bool" where
  "timed_out e \<longleftrightarrow> io_kind e = WouldBlock \<or> io_kind e = TimedOut"

text \<open>
  \<open>take(limit).read_line\<close>: up to a newline, the limit or the end of the connection, whichever is
  first, as long as it is UTF-8.
\<close>

definition read_line :: "nat \<Rightarrow> stream \<Rightarrow> io_error + (string \<times> stream)" where
  "read_line limit st =
     (let within = take limit (st_bytes st);
          line = (if newline \<in> set within then takeWhile (\<lambda>c. c \<noteq> newline) within @ [newline] else within);
          whole = (newline \<in> set within \<or> limit \<le> length (st_bytes st))
      in case (whole, st_end st) of
           (False, Some e) \<Rightarrow> Inl e
         | _ \<Rightarrow>
             if utf8_valid line then Inr (line, st\<lparr>st_bytes := drop (length line) (st_bytes st)\<rparr>)
             else Inl \<lparr>io_kind = InvalidData, io_text = ''stream did not contain valid UTF-8''\<rparr>)"

definition max_head_bytes :: nat where "max_head_bytes = 64 * 1024"
definition max_headers :: nat where "max_headers = 100"

definition unread :: "cause \<Rightarrow> string \<Rightarrow> http_refusal" where
  "unread c reason = refusal_new c (''the request head is '' @ reason)"

lemma take_while_newline: "c \<in> set xs \<Longrightarrow> length (takeWhile (\<lambda>x. x \<noteq> c) xs) < length xs"
  by (induction xs) auto

lemma read_line_some:
  assumes "read_line limit st = Inr (line, st')"
  shows "st_bytes st = line @ st_bytes st' \<and> st_end st' = st_end st \<and> length line \<le> limit \<and> utf8_valid line \<and>
    newline \<notin> set (butlast line)"
proof -
  define within where "within = take limit (st_bytes st)"
  define l where "l = (if newline \<in> set within then takeWhile (\<lambda>c. c \<noteq> newline) within @ [newline] else within)"
  have r: "line = l" "utf8_valid l" "st' = st\<lparr>st_bytes := drop (length l) (st_bytes st)\<rparr>"
    using assms unfolding read_line_def Let_def within_def [symmetric] l_def [symmetric]
    by (auto split: if_splits option.splits bool.splits)
  have "l = take (length l) within"
  proof (cases "newline \<in> set within")
    case True
    then obtain a b where ab: "within = a @ newline # b" "newline \<notin> set a" by (meson split_list_first)
    then have "takeWhile (\<lambda>c. c \<noteq> newline) within = a" by (auto simp: takeWhile_tail)
    then show ?thesis using True ab(1) by (simp add: l_def)
  qed (simp add: l_def)
  moreover from this have len: "length l \<le> length within" by (metis length_take min.cobounded1 min_def nat_le_linear)
  ultimately have "l = take (length l) (st_bytes st)" unfolding within_def by (metis length_take min.bounded_iff take_take min_absorb1)
  then have "st_bytes st = l @ drop (length l) (st_bytes st)" by (metis append_take_drop_id)
  moreover have "newline \<notin> set (butlast l)"
    by (auto simp: l_def butlast_append dest: set_takeWhileD in_set_butlastD)
  ultimately show ?thesis using r len by (auto simp: within_def l_def split: if_splits)
qed

function head_read_loop :: "nat \<Rightarrow> string list \<Rightarrow> stream \<Rightarrow> http_refusal + (string list \<times> stream)" where
  "head_read_loop already ls st =
     (let remaining = max_head_bytes - already in
      if remaining = 0
      then Inl (unread HeadTooLarge (''longer than '' @ show_nat max_head_bytes @ '' bytes''))
      else
        (case read_line remaining st of
           Inl error \<Rightarrow>
             Inl (unread (if timed_out error then RequestTimeout else MalformedRequest)
               (''unreadable: '' @ io_text error))
         | Inr (line, st) \<Rightarrow>
             if length line = 0 then Inl (unread MalformedRequest ''ended before its blank line'')
             else
               (let trimmed = trim_end_matches (\<lambda>c. c = carriage \<or> c = newline) line in
                if trimmed = [] then Inr (ls, st)
                else if max_headers \<le> length ls
                then Inl (unread HeadTooLarge (''more than '' @ show_nat max_headers @ '' lines''))
                else head_read_loop (already + length line) (ls @ [trimmed]) st)))"
  by pat_completeness auto
termination
  by (relation "measure (\<lambda>(already, _). max_head_bytes - already)") (auto intro!: diff_less_mono2)

declare head_read_loop.simps [simp del]

definition head_read :: "stream \<Rightarrow> http_refusal + (string list \<times> stream)" where
  "head_read st = head_read_loop 0 [] st"

section \<open>The head (head.rs)\<close>

datatype length_said = Absent | Given usize | Malformed string

record head =
  hd_method :: string
  hd_endpoint :: endpoint
  hd_headers :: "(string \<times> string) list"
  hd_length :: length_said
  hd_chunked :: bool
  hd_expects_continue :: bool

definition malformed :: "string \<Rightarrow> http_refusal" where
  "malformed reason = refusal_new MalformedRequest reason"

text \<open>One round of the loop over the lines after the first.\<close>

definition header_line :: "string \<Rightarrow> head \<Rightarrow> head" where
  "header_line line h =
     (case split_once '':'' line of
        None \<Rightarrow> h
      | Some (name, v) \<Rightarrow>
          (let name = trim name;
               v = trim v;
               h = (if eq_ignore_ascii_case name ''content-length''
                    then h\<lparr>hd_length := (case parse_u64 v of Some n \<Rightarrow> Given n | None \<Rightarrow> Malformed v)\<rparr>
                    else h);
               h = (if eq_ignore_ascii_case name ''transfer-encoding''
                       \<and> contains (to_ascii_lowercase v) ''chunked''
                    then h\<lparr>hd_chunked := True\<rparr> else h);
               h = (if eq_ignore_ascii_case name ''expect'' \<and> eq_ignore_ascii_case v ''100-continue''
                    then h\<lparr>hd_expects_continue := True\<rparr> else h)
           in h\<lparr>hd_headers := hd_headers h @ [(name, v)]\<rparr>))"

definition head_parse :: "string list \<Rightarrow> http_refusal + head" where
  "head_parse ls =
     (case ls of
        [] \<Rightarrow> Inl (malformed ''a request with no request line'')
      | first # rest \<Rightarrow>
          (case split_whitespace first of
             [] \<Rightarrow> Inl (malformed ''a request line with no method'')
           | [method] \<Rightarrow> Inl (malformed ''a request line with no path'')
           | method # path # _ \<Rightarrow>
               attempt (endpoint_of path) (\<lambda>ep.
                 Inr (fold header_line rest
                   \<lparr>hd_method = method, hd_endpoint = ep, hd_headers = [], hd_length = Absent,
                     hd_chunked = False, hd_expects_continue = False\<rparr>))))"

definition body_bytes :: "head \<Rightarrow> usize" where
  "body_bytes h = (case hd_length h of Given n \<Rightarrow> n | Absent \<Rightarrow> 0 | Malformed _ \<Rightarrow> 0)"

text \<open>The headers that do not travel on.\<close>

definition answered_here :: "string \<Rightarrow> bool" where
  "answered_here name \<longleftrightarrow>
     eq_ignore_ascii_case name ''host'' \<or> eq_ignore_ascii_case name ''connection''
     \<or> eq_ignore_ascii_case name ''expect''"

definition rewrite :: "head \<Rightarrow> string \<Rightarrow> string" where
  "rewrite h upstream =
     hd_method h @ '' '' @ endpoint_suffix (hd_endpoint h) @ '' HTTP/1.1'' @ crlf
     @ ''Host: '' @ upstream @ crlf
     @ ''Connection: close'' @ crlf
     @ concat (map (\<lambda>(name, v). name @ '': '' @ v @ crlf)
         (filter (\<lambda>(name, _). \<not> answered_here name) (hd_headers h)))
     @ crlf"

end
