(* ===== verification/Http_Laws.thy ===== *)
theory Http_Laws
  imports Http
begin

text \<open>
  What is read of a request is bounded and is what was sent: a head that fits the bounds is read back line
  by line with the body left on the connection; parsing it is a plain reading of its header fields; and the
  lines of the head that is sent on are made of words and fields that keep their meaning.
\<close>

section \<open>Lines on the wire\<close>

definition plain_line :: "string \<Rightarrow> bool" where
  "plain_line l \<longleftrightarrow> l \<noteq> [] \<and> newline \<notin> set l \<and> last l \<noteq> carriage"

definition head_text :: "string list \<Rightarrow> string" where
  "head_text ls = concat (map (\<lambda>l. l @ crlf) ls) @ crlf"

lemma head_text_simps [simp]:
  "head_text [] = crlf" "head_text (l # ls) = l @ crlf @ head_text ls"
  by (simp_all add: head_text_def)

lemma length_crlf [simp]: "length crlf = 2"
  by (simp add: crlf_def)

lemma utf8_crlf [simp]: "utf8_valid crlf"
  by (rule utf8_valid_ascii) (simp add: crlf_def carriage_def newline_def code_def)

lemma matched_le: "matched rs cs \<le> length rs \<and> matched rs cs \<le> length cs"
  by (induction rs cs rule: matched.induct) auto

lemma matched_append: "matched rs cs = length rs \<Longrightarrow> matched rs (cs @ ds) = length rs"
proof (induction rs cs rule: matched.induct)
  case (3 lo hi rs c cs)
  then show ?case by (auto split: if_splits)
qed auto

lemma utf8_step_append:
  "s \<noteq> [] \<Longrightarrow> fst (utf8_step s) \<Longrightarrow> utf8_step (s @ t) = utf8_step s \<and> snd (utf8_step s) \<le> length s"
  using matched_le by (cases s) (auto simp: utf8_step_def matched_append split: option.splits)

lemma utf8_valid_append: "utf8_valid s \<Longrightarrow> utf8_valid t \<Longrightarrow> utf8_valid (s @ t)"
proof (induction s rule: utf8_valid.induct)
  case (1 s)
  show ?case
  proof (cases "s = []")
    case False
    with "1.prems"(1) have "fst (utf8_step s)" "utf8_valid (drop (snd (utf8_step s)) s)"
      by (simp_all add: utf8_valid.simps [of s])
    with False 1 utf8_step_append [of s t] show ?thesis by (simp add: utf8_valid.simps [of "s @ t"])
  qed (use "1.prems" in simp)
qed

section \<open>Reading a head\<close>

lemma trimmed_line:
  assumes "newline \<notin> set (butlast line)" and "trim_end_matches (\<lambda>c. c = carriage \<or> c = newline) line \<noteq> []"
  shows "plain_line (trim_end_matches (\<lambda>c. c = carriage \<or> c = newline) line)"
proof -
  let ?t = "trim_end_matches (\<lambda>c. c = carriage \<or> c = newline) line"
  obtain u where u: "line = ?t @ u" using trim_end_matches_prefix by blast
  have ends: "last ?t \<noteq> carriage" "last ?t \<noteq> newline" using trim_end_matches_last [OF assms(2)] by auto
  have "newline \<notin> set (butlast ?t)"
  proof (cases "u = []")
    case True
    then show ?thesis using u assms(1) by simp
  next
    case False
    then have "butlast line = ?t @ butlast u" using u by (metis butlast_append)
    then show ?thesis using assms(1) by (auto dest: in_set_butlastD)
  qed
  then have "newline \<notin> set ?t" using assms(2) ends(2) by (metis append_butlast_last_id in_set_conv_decomp rotate1.simps(2) set_ConsD set_rotate1)
  then show ?thesis using assms(2) ends(1) by (simp add: plain_line_def)
qed

lemma head_read_loop_bounded:
  "head_read_loop already ls st = Inr (out, rest) \<Longrightarrow> already \<le> max_head_bytes \<Longrightarrow> length ls \<le> max_headers \<Longrightarrow>
     (\<exists>raw new. st_bytes st = raw @ st_bytes rest \<and> already + length raw \<le> max_head_bytes \<and> out = ls @ new \<and>
       length out \<le> max_headers \<and> st_end rest = st_end st \<and> (\<forall>l \<in> set new. plain_line l))"
proof (induction already ls st rule: head_read_loop.induct)
  case (1 already ls st)
  define remaining where "remaining = max_head_bytes - already"
  obtain line st' where r: "remaining \<noteq> 0" "read_line remaining st = Inr (line, st')" "line \<noteq> []"
    using "1.prems"(1) by (subst (asm) head_read_loop.simps) (auto simp: Let_def remaining_def split: if_splits sum.splits)
  note step = read_line_some [OF r(2)]
  let ?t = "trim_end_matches (\<lambda>c. c = carriage \<or> c = newline) line"
  have within: "already + length line \<le> max_head_bytes" using step r(1) unfolding remaining_def by linarith
  have unfold: "head_read_loop already ls st =
      (if ?t = [] then Inr (ls, st')
       else if max_headers \<le> length ls then Inl (unread HeadTooLarge (''more than '' @ show_nat max_headers @ '' lines''))
       else head_read_loop (already + length line) (ls @ [?t]) st')"
    using r by (subst head_read_loop.simps) (simp add: Let_def remaining_def)
  show ?case
  proof (cases "?t = []")
    case True
    then have "out = ls" "rest = st'" using "1.prems"(1) unfold by simp_all
    then show ?thesis using step within "1.prems"(3) by (intro exI [of _ line] exI [of _ "[]"]) simp
  next
    case False
    then have few: "\<not> max_headers \<le> length ls" and rec: "head_read_loop (already + length line) (ls @ [?t]) st' = Inr (out, rest)"
      using "1.prems"(1) unfold by (simp_all split: if_splits)
    have "\<exists>raw new. st_bytes st' = raw @ st_bytes rest \<and> already + length line + length raw \<le> max_head_bytes \<and>
        out = (ls @ [?t]) @ new \<and> length out \<le> max_headers \<and> st_end rest = st_end st' \<and> (\<forall>l \<in> set new. plain_line l)"
      using "1.IH" [of remaining "(line, st')" line st' ?t] r False few rec within by (simp add: remaining_def)
    then obtain raw new where "st_bytes st' = raw @ st_bytes rest" "already + length line + length raw \<le> max_head_bytes"
        "out = (ls @ [?t]) @ new" "length out \<le> max_headers" "st_end rest = st_end st'" "\<forall>l \<in> set new. plain_line l" by blast
    then show ?thesis using step trimmed_line [OF _ False]
      by (intro exI [of _ "line @ raw"] exI [of _ "?t # new"]) simp
  qed
qed

text \<open>
  C35: What a request head can make the router hold is bounded. A head that is accepted took at most
  64 KiB off the connection and has at most a hundred lines, none of them empty, none with a line break
  inside; everything after it is still there to be read.
\<close>

theorem head_read_bounded:
  assumes "head_read st = Inr (ls, rest)"
  shows "\<exists>raw. st_bytes st = raw @ st_bytes rest \<and> st_end rest = st_end st \<and> length raw \<le> 65536 \<and>
    length ls \<le> 100 \<and> (\<forall>l \<in> set ls. plain_line l)"
  using head_read_loop_bounded [OF assms [unfolded head_read_def]] by (auto simp: max_head_bytes_def max_headers_def)

lemma read_line_crlf:
  assumes "newline \<notin> set l" and "utf8_valid l" and "length l + 2 \<le> limit" and "st_bytes st = l @ crlf @ later"
  shows "read_line limit st = Inr (l @ crlf, st\<lparr>st_bytes := later\<rparr>)"
proof -
  have t: "take limit (st_bytes st) = l @ crlf @ take (limit - (length l + 2)) later"
    using assms(3,4) by (simp add: crlf_def take_Cons')
  have "takeWhile (\<lambda>c. c \<noteq> newline) (take limit (st_bytes st)) = l @ [carriage]"
    unfolding t crlf_def using assms(1) by (simp add: takeWhile_append2 takeWhile_append)
  moreover have "newline \<in> set (take limit (st_bytes st))" unfolding t crlf_def by simp
  ultimately show ?thesis
    using assms(2,4) utf8_valid_append [OF assms(2) utf8_crlf] unfolding read_line_def Let_def
    by (simp add: crlf_def)
qed

lemma trim_crlf: "l = [] \<or> plain_line l \<Longrightarrow> trim_end_matches (\<lambda>c. c = carriage \<or> c = newline) (l @ crlf) = l"
proof -
  assume "l = [] \<or> plain_line l"
  then have "l = [] \<or> \<not> (last l = carriage \<or> last l = newline)" by (metis last_in_set plain_line_def)
  then show ?thesis unfolding trim_end_matches_def crlf_def by (cases l rule: rev_cases) auto
qed

lemma head_read_loop_text:
  "\<forall>l \<in> set ls. plain_line l \<and> utf8_valid l \<Longrightarrow> length done_lines + length ls \<le> max_headers \<Longrightarrow>
     already + length (head_text ls) \<le> max_head_bytes \<Longrightarrow> st_bytes st = head_text ls @ body \<Longrightarrow>
     head_read_loop already done_lines st = Inr (done_lines @ ls, st\<lparr>st_bytes := body\<rparr>)"
proof (induction ls arbitrary: already done_lines st)
  case Nil
  have "read_line (max_head_bytes - already) st = Inr ([] @ crlf, st\<lparr>st_bytes := body\<rparr>)"
    using Nil by (intro read_line_crlf) (auto simp: utf8_valid.simps)
  then show ?case using Nil trim_crlf [of "[]"]
    by (subst head_read_loop.simps) (simp add: Let_def, simp add: crlf_def)
next
  case (Cons l ls)
  have l: "plain_line l" "utf8_valid l" "newline \<notin> set l" using Cons.prems by (auto simp: plain_line_def)
  have "read_line (max_head_bytes - already) st = Inr (l @ crlf, st\<lparr>st_bytes := head_text ls @ body\<rparr>)"
    using Cons.prems l by (intro read_line_crlf) auto
  moreover have "head_read_loop (already + length (l @ crlf)) (done_lines @ [l]) (st\<lparr>st_bytes := head_text ls @ body\<rparr>)
      = Inr ((done_lines @ [l]) @ ls, st\<lparr>st_bytes := head_text ls @ body\<rparr>\<lparr>st_bytes := body\<rparr>)"
    using Cons.prems by (intro Cons.IH) auto
  ultimately show ?case using Cons.prems trim_crlf [of l] l
    by (subst head_read_loop.simps) (auto simp: Let_def plain_line_def)
qed

lemma head_read_text:
  assumes "\<forall>l \<in> set ls. plain_line l \<and> utf8_valid l" and "length ls \<le> 100" and "length (head_text ls) \<le> 65536"
  shows "head_read \<lparr>st_bytes = head_text ls @ body, st_end = ending\<rparr> = Inr (ls, \<lparr>st_bytes = body, st_end = ending\<rparr>)"
  unfolding head_read_def using assms head_read_loop_text [of ls "[]" 0 _ body]
  by (simp add: max_head_bytes_def max_headers_def)

text \<open>
  A head that fits is read back. Lines of UTF-8 without line breaks, at most a hundred of them and at
  most 64 KiB together, written one after the other with a blank line after them, are what the
  router reads, and the body is left on the connection, whole.
\<close>

theorem head_read_back:
  assumes "\<forall>l \<in> set ls. plain_line l \<and> utf8_valid l" and "length ls \<le> 100" and "length (head_text ls) \<le> 65536"
  shows "head_read \<lparr>st_bytes = head_text ls @ body, st_end = ending\<rparr> = Inr (ls, \<lparr>st_bytes = body, st_end = ending\<rparr>)"
  using assms by (rule head_read_text)

section \<open>White space\<close>

lemma white_spaces_ne: "[] \<notin> set white_spaces" "[] \<notin> set (map rev white_spaces)"
  using white_spaces_ends by (auto simp: list_all_iff)

lemma space_at_0: "[] \<notin> set ws \<Longrightarrow> space_at ws s = 0 \<longleftrightarrow> (\<forall>w \<in> set ws. \<not> is_prefix w s)"
  unfolding space_at_def by (auto split: option.split simp: find_None_iff dest: find_Some_iff [THEN iffD1])
    (metis find_Some_iff nth_mem)

lemma strip_spaces_id: "space_at ws s = 0 \<Longrightarrow> strip_spaces ws s = s"
  by (subst strip_spaces.simps) simp

lemma strip_spaces_ends: "strip_spaces ws s = [] \<or> space_at ws (strip_spaces ws s) = 0"
  by (induction ws s rule: strip_spaces.induct) (metis strip_spaces.simps)

lemma strip_spaces_idem [simp]: "strip_spaces ws (strip_spaces ws s) = strip_spaces ws s"
  using strip_spaces_ends [of ws s] by (auto simp: strip_spaces_id strip_spaces.simps [of ws "[]"])

lemma trim_end_prefix: "\<exists>u. s = trim_end s @ u"
  using strip_spaces_suffix [of "rev s" "map rev white_spaces"] unfolding trim_end_def
  by (metis rev_append rev_rev_ident)

lemma trim_trim [simp]: "trim (trim s) = trim s"
proof -
  obtain u where u: "trim_start s = trim s @ u" using trim_end_prefix [of "trim_start s"] by (auto simp: trim_def)
  have "trim_start (trim s) = trim s"
  proof (cases "trim s = []")
    case True
    then show ?thesis by (simp add: trim_start_def strip_spaces.simps)
  next
    case False
    then have "space_at white_spaces (trim_start s) = 0"
      using strip_spaces_ends [of white_spaces s] u by (auto simp: trim_start_def)
    then have "space_at white_spaces (trim s) = 0" unfolding u by (auto simp: space_at_0 white_spaces_ne is_prefix_iff)
    then show ?thesis by (simp add: trim_start_def strip_spaces_id)
  qed
  then show ?thesis unfolding trim_def [of "trim s"] by (simp add: trim_def trim_end_def)
qed

lemma trim_blank_trim [simp]: "trim (CHR '' '' # trim s) = trim s"
proof -
  have "trim_start (CHR '' '' # trim s) = trim_start (trim s)"
    unfolding trim_start_def by (subst strip_spaces.simps) (simp add: space_at_space)
  then show ?thesis by (metis trim_def trim_trim)
qed

section \<open>Parsing a head\<close>

definition header_pair :: "string \<Rightarrow> (string \<times> string) option" where
  "header_pair line = map_option (\<lambda>(name, v). (trim name, trim v)) (split_once '':'' line)"

definition header_pairs :: "string list \<Rightarrow> (string \<times> string) list" where
  "header_pairs ls = List.map_filter header_pair ls"

definition values_of :: "string \<Rightarrow> (string \<times> string) list \<Rightarrow> string list" where
  "values_of name pairs = map snd (filter (\<lambda>(n, v). eq_ignore_ascii_case n name) pairs)"

definition length_of_value :: "string \<Rightarrow> length_said" where
  "length_of_value v = (case parse_u64 v of Some n \<Rightarrow> Given n | None \<Rightarrow> Malformed v)"

definition length_declared :: "(string \<times> string) list \<Rightarrow> length_said" where
  "length_declared pairs =
     (let vs = values_of ''content-length'' pairs in if vs = [] then Absent else length_of_value (last vs))"

definition chunked_announced :: "(string \<times> string) list \<Rightarrow> bool" where
  "chunked_announced pairs \<longleftrightarrow> (\<exists>v \<in> set (values_of ''transfer-encoding'' pairs). contains (to_ascii_lowercase v) ''chunked'')"

definition continue_expected :: "(string \<times> string) list \<Rightarrow> bool" where
  "continue_expected pairs \<longleftrightarrow> (\<exists>v \<in> set (values_of ''expect'' pairs). eq_ignore_ascii_case v ''100-continue'')"

lemma values_of_simps [simp]:
  "values_of name [] = []"
  "values_of name ((n, v) # pairs) = (if eq_ignore_ascii_case n name then [v] else []) @ values_of name pairs"
  "values_of name (ps @ qs) = values_of name ps @ values_of name qs"
  by (simp_all add: values_of_def)

lemma header_line_pair:
  "header_line line h =
     (case header_pair line of
        None \<Rightarrow> h
      | Some (n, v) \<Rightarrow>
          h\<lparr>hd_headers := hd_headers h @ [(n, v)],
            hd_length := (if eq_ignore_ascii_case n ''content-length'' then length_of_value v else hd_length h),
            hd_chunked := (hd_chunked h \<or> chunked_announced [(n, v)]),
            hd_expects_continue := (hd_expects_continue h \<or> continue_expected [(n, v)])\<rparr>)"
proof (cases "split_once '':'' line")
  case (Some nv)
  then show ?thesis
    by (cases h; cases nv) (auto simp: header_line_def header_pair_def length_of_value_def chunked_announced_def
        continue_expected_def Let_def)
qed (simp add: header_line_def header_pair_def)

lemma announced_Cons:
  "chunked_announced ((n, v) # pairs) \<longleftrightarrow> chunked_announced [(n, v)] \<or> chunked_announced pairs"
  "continue_expected ((n, v) # pairs) \<longleftrightarrow> continue_expected [(n, v)] \<or> continue_expected pairs"
  by (auto simp: chunked_announced_def continue_expected_def)

lemma fold_header_line:
  "fold header_line ls h =
     h\<lparr>hd_headers := hd_headers h @ header_pairs ls,
       hd_length := (if values_of ''content-length'' (header_pairs ls) = [] then hd_length h
                     else length_declared (header_pairs ls)),
       hd_chunked := (hd_chunked h \<or> chunked_announced (header_pairs ls)),
       hd_expects_continue := (hd_expects_continue h \<or> continue_expected (header_pairs ls))\<rparr>"
proof (induction ls arbitrary: h)
  case Nil
  then show ?case by (simp add: header_pairs_def List.map_filter_simps chunked_announced_def continue_expected_def)
next
  case (Cons l ls)
  show ?case
  proof (cases "header_pair l")
    case None
    then show ?thesis using Cons.IH by (simp add: header_line_pair header_pairs_def List.map_filter_simps)
  next
    case (Some nv)
    obtain n v where nv: "nv = (n, v)" by (cases nv)
    have pairs: "header_pairs (l # ls) = (n, v) # header_pairs ls"
      using Some nv by (simp add: header_pairs_def List.map_filter_simps)
    have step: "fold header_line (l # ls) h = fold header_line ls (header_line l h)" by simp
    have one: "header_line l h = h\<lparr>hd_headers := hd_headers h @ [(n, v)],
            hd_length := (if eq_ignore_ascii_case n ''content-length'' then length_of_value v else hd_length h),
            hd_chunked := (hd_chunked h \<or> chunked_announced [(n, v)]),
            hd_expects_continue := (hd_expects_continue h \<or> continue_expected [(n, v)])\<rparr>"
      using Some nv by (simp add: header_line_pair)
    have len: "length_declared ((n, v) # header_pairs ls) =
        (if values_of ''content-length'' (header_pairs ls) = []
         then if eq_ignore_ascii_case n ''content-length'' then length_of_value v else Absent
         else length_declared (header_pairs ls))"
      by (simp add: length_declared_def Let_def)
    show ?thesis unfolding step Cons.IH pairs one len announced_Cons [of n v "header_pairs ls"] by simp
  qed
qed

text \<open>
  Parsing a head is a plain reading of its fields. The method and the path are the first two words of
  the first line, the headers are the lines that have a colon, in order, trimmed on both sides of the
  first one; the length is what the last \<open>Content-Length\<close> says; and a body is chunked, or waited
  for, as soon as one header says so, whatever the case of its letters.
\<close>

theorem head_parse_exact:
  "head_parse (request # field_lines) = Inr h \<longleftrightarrow>
     (\<exists>method path ws ep. split_whitespace request = method # path # ws \<and> endpoint_of path = Inr ep \<and>
        h = \<lparr>hd_method = method, hd_endpoint = ep, hd_headers = header_pairs field_lines,
             hd_length = length_declared (header_pairs field_lines), hd_chunked = chunked_announced (header_pairs field_lines),
             hd_expects_continue = continue_expected (header_pairs field_lines)\<rparr>)"
proof -
  have "fold header_line field_lines \<lparr>hd_method = m, hd_endpoint = ep, hd_headers = [], hd_length = Absent,
      hd_chunked = False, hd_expects_continue = False\<rparr>
    = \<lparr>hd_method = m, hd_endpoint = ep, hd_headers = header_pairs field_lines,
       hd_length = length_declared (header_pairs field_lines), hd_chunked = chunked_announced (header_pairs field_lines),
       hd_expects_continue = continue_expected (header_pairs field_lines)\<rparr>" for m ep
    by (simp add: fold_header_line length_declared_def)
  then show ?thesis by (auto simp: head_parse_def attempt_Inr split: list.split)
qed

section \<open>Words\<close>

definition word_ok :: "string \<Rightarrow> bool" where
  "word_ok u \<longleftrightarrow> (\<forall>a b. u = a @ b \<longrightarrow> b \<noteq> [] \<longrightarrow> (\<forall>w \<in> set white_spaces. \<not> is_prefix w b))"

lemma word_ok_tail: "word_ok (a @ b) \<Longrightarrow> word_ok b"
  unfolding word_ok_def by (metis append.assoc)

lemma word_ok_newline: "word_ok u \<Longrightarrow> newline \<notin> set u"
proof
  assume u: "word_ok u" "newline \<in> set u"
  then obtain a b where "u = a @ newline # b" by (meson split_list)
  moreover have "[newline] \<in> set white_spaces" by (simp add: white_spaces_def newline_def)
  ultimately show False using u(1) unfolding word_ok_def
    by (metis is_prefix_append append_Cons append_Nil list.distinct(1))
qed

lemma words_from_ok:
  "(\<forall>a b. cur = a @ b \<longrightarrow> b \<noteq> [] \<longrightarrow> (\<forall>w \<in> set white_spaces. \<not> is_prefix w (b @ s))) \<Longrightarrow>
     u \<in> set (words_from cur s) \<Longrightarrow> word_ok u"
proof (induction cur s rule: words_from.induct)
  case (1 cur s)
  have cur: "word_ok cur"
    unfolding word_ok_def using "1.prems"(1) by (metis is_prefix_iff append.assoc)
  show ?case
  proof (cases "s = []")
    case True
    then show ?thesis using "1.prems"(2) cur by (subst (asm) words_from.simps) (auto split: if_splits)
  next
    case False
    show ?thesis
    proof (cases "space_at white_spaces s = 0")
      case True
      have "u \<in> set (words_from (cur @ [hd s]) (tl s))"
        using "1.prems"(2) False True by (subst (asm) words_from.simps) simp
      moreover have "\<forall>w \<in> set white_spaces. \<not> is_prefix w (b @ tl s)" if "cur @ [hd s] = a @ b" "b \<noteq> []" for a b
      proof -
        note split = that
        obtain b' y where y: "b = b' @ [y]" using split(2) by (metis append_butlast_last_id)
        then have b': "b = b' @ [hd s]" "cur = a @ b'" using split(1) by auto
        then have "b @ tl s = b' @ s" using False by simp
        then show ?thesis using "1.prems"(1) b' True by (cases "b' = []") (auto simp: space_at_0 white_spaces_ne)
      qed
      ultimately show ?thesis using "1.IH"(1) False True by blast
    next
      case nz: False
      then have "u = cur \<or> u \<in> set (words_from [] (drop (space_at white_spaces s) s))"
        using "1.prems"(2) False by (subst (asm) words_from.simps) (auto split: if_splits)
      then show ?thesis using cur "1.IH"(2) False nz by auto
    qed
  qed
qed

lemma split_whitespace_ok: "u \<in> set (split_whitespace s) \<Longrightarrow> word_ok u \<and> u \<noteq> []"
  unfolding split_whitespace_def using words_from_ok [of "[]" s u] words_from_ne by auto

lemma blank_alone: "list_all (\<lambda>w. CHR '' '' \<in> set w \<longrightarrow> w = '' '') white_spaces"
  by code_simp

lemma words_from_word:
  "word_ok u \<Longrightarrow> cur @ u \<noteq> [] \<Longrightarrow> words_from cur (u @ CHR '' '' # t) = (cur @ u) # words_from [] t"
proof (induction u arbitrary: cur)
  case Nil
  then show ?case by (subst words_from.simps) (simp add: space_at_space)
next
  case (Cons c u)
  have "\<not> is_prefix w (c # u @ CHR '' '' # t)" if w: "w \<in> set white_spaces" for w
  proof
    assume p: "is_prefix w (c # u @ CHR '' '' # t)"
    have n: "\<not> is_prefix w (c # u)" using Cons.prems(1) w unfolding word_ok_def by blast
    from p obtain v where v: "(c # u) @ CHR '' '' # t = w @ v" by (auto simp: is_prefix_iff)
    then obtain us where "c # u = w @ us \<or> (c # u) @ us = w \<and> CHR '' '' # t = us @ v"
      by (metis append_eq_append_conv2)
    then have w': "(c # u) @ us = w" "CHR '' '' # t = us @ v" "us \<noteq> []" using n by (auto simp: is_prefix_iff)
    then have "CHR '' '' \<in> set w" by (cases us) auto
    then have "w = '' ''" using blank_alone w by (auto simp: list_all_iff)
    then show False using w' by (cases us) auto
  qed
  then have "space_at white_spaces (c # u @ CHR '' '' # t) = 0" by (simp add: space_at_0 white_spaces_ne)
  then show ?case using Cons.IH [of "cur @ [c]"] word_ok_tail [of "[c]" u] Cons.prems
    by (subst words_from.simps) simp
qed

lemma words_from_last: "word_ok u \<Longrightarrow> cur @ u \<noteq> [] \<Longrightarrow> words_from cur u = [cur @ u]"
proof (induction u arbitrary: cur)
  case Nil
  then show ?case by (subst words_from.simps) simp
next
  case (Cons c u)
  have "space_at white_spaces (c # u) = 0"
    using Cons.prems(1) unfolding word_ok_def by (auto simp: space_at_0 white_spaces_ne)
  then show ?case using Cons.IH [of "cur @ [c]"] word_ok_tail [of "[c]" u] Cons.prems
    by (subst words_from.simps) simp
qed

lemma split_three_words:
  assumes "word_ok a" "a \<noteq> []" "word_ok b" "b \<noteq> []" "word_ok c" "c \<noteq> []"
  shows "split_whitespace (a @ '' '' @ b @ '' '' @ c) = [a, b, c]"
  using assms words_from_word [of a "[]" "b @ '' '' @ c"] words_from_word [of b "[]" c] words_from_last [of c "[]"]
  by (simp add: split_whitespace_def)

section \<open>Rewriting a head\<close>

lemma endpoint_of_dedicated:
  "endpoint_of path = Inr (Dedicated i suffix) \<Longrightarrow>
     path = ''/models/'' @ i @ suffix \<and> i \<noteq> [] \<and> CHR ''/'' \<notin> set i \<and> (\<exists>s. suffix = CHR ''/'' # s \<and> s \<noteq> [])"
  by (auto simp: endpoint_of_def dedicated_of_def Let_def dedicated_prefix_def strip_prefix_Some
      split: if_splits option.splits dest: split_once_Some split_once_char_notin)

lemma endpoint_of_generic: "endpoint_of path = Inr (Generic suffix) \<Longrightarrow> suffix = path \<and> path \<noteq> []"
  by (auto simp: endpoint_of_def dedicated_of_def Let_def starts_with_def generic_prefix_def
      split: if_splits option.splits)

lemma visible_word_ok: "list_all visible u \<Longrightarrow> word_ok u"
  unfolding word_ok_def
proof (intro allI impI ballI)
  fix a b w
  assume v: "list_all visible u" and u: "u = a @ b" "b \<noteq> []" and w: "w \<in> set white_spaces"
  obtain c b' where b: "b = c # b'" using u(2) by (cases b) auto
  then have "space_at white_spaces (c # b') = 0" using v u(1) by (intro space_at_visible) simp
  then show "\<not> is_prefix w b" using w b by (simp add: space_at_0 white_spaces_ne)
qed

lemma endpoint_suffix_word:
  assumes "endpoint_of path = Inr ep" and "word_ok path"
  shows "word_ok (endpoint_suffix ep) \<and> endpoint_suffix ep \<noteq> []"
proof (cases ep)
  case (Dedicated i suffix)
  then have path: "path = (''/models/'' @ i) @ suffix" "suffix \<noteq> []" using assms(1) endpoint_of_dedicated by auto
  then have "word_ok suffix" using word_ok_tail assms(2) by metis
  then show ?thesis using path(2) Dedicated by simp
next
  case (Generic suffix)
  then show ?thesis using assms endpoint_of_generic by auto
qed (auto simp: listing_path_def catalogue_path_def properties_path_def visible_def code_def intro!: visible_word_ok)

definition rewritten_lines :: "head \<Rightarrow> string \<Rightarrow> string list" where
  "rewritten_lines h upstream =
     (hd_method h @ '' '' @ endpoint_suffix (hd_endpoint h) @ '' '' @ ''HTTP/1.1'')
     # (''Host: '' @ upstream) # ''Connection: close''
     # map (\<lambda>(name, v). name @ '': '' @ v) (filter (\<lambda>(name, _). \<not> answered_here name) (hd_headers h))"

lemma rewrite_lines: "rewrite h upstream = head_text (rewritten_lines h upstream)"
proof -
  have "concat (map (\<lambda>(name, v). name @ '': '' @ v @ crlf) ps) @ crlf = head_text (map (\<lambda>(name, v). name @ '': '' @ v) ps)" for ps
    by (induction ps) auto
  then show ?thesis by (simp add: rewrite_def rewritten_lines_def)
qed

definition clean_pair :: "string \<times> string \<Rightarrow> bool" where
  "clean_pair p \<longleftrightarrow> (case p of (n, v) \<Rightarrow> trim n = n \<and> trim v = v \<and> CHR '':'' \<notin> set n \<and> newline \<notin> set n \<and> newline \<notin> set v)"

lemma header_pair_clean:
  assumes "newline \<notin> set line" and "header_pair line = Some p"
  shows "clean_pair p"
proof -
  obtain a b where ab: "split_once '':'' line = Some (a, b)" "p = (trim a, trim b)"
    using assms(2) by (auto simp: header_pair_def)
  then have "CHR '':'' \<notin> set a" "newline \<notin> set a" "newline \<notin> set b"
    using split_once_char_notin split_once_Some assms(1) by fastforce+
  then show ?thesis using ab(2) set_trim [of a] set_trim [of b] by (auto simp: clean_pair_def)
qed

lemma header_pairs_clean: "\<forall>l \<in> set ls. newline \<notin> set l \<Longrightarrow> p \<in> set (header_pairs ls) \<Longrightarrow> clean_pair p"
  using header_pair_clean by (auto simp: header_pairs_def List.map_filter_def split: option.splits)

lemma clean_pair_read: "clean_pair (n, v) \<Longrightarrow> header_pair (n @ '': '' @ v) = Some (n, v)"
  using split_once_char [of "CHR '':''" n "CHR '' '' # v"] trim_blank_trim [of v] by (simp add: header_pair_def clean_pair_def)

lemma trim_no_carriage: "trim v = v \<Longrightarrow> v \<noteq> [] \<Longrightarrow> last v \<noteq> carriage"
proof
  assume v: "trim v = v" "v \<noteq> []" "last v = carriage"
  obtain u where u: "rev v = carriage # u" using v(2,3) by (metis append_butlast_last_id rev_eq_Cons_iff rev_rev_ident)
  have "trim_end v = v" using v(1) by (metis trim_def trim_end_def rev_rev_ident strip_spaces_idem)
  then have "strip_spaces (map rev white_spaces) (rev v) = rev v" by (metis trim_end_def rev_rev_ident)
  then have "space_at (map rev white_spaces) (rev v) = 0" using strip_spaces_ends v(2) by (metis rev_is_Nil_conv)
  moreover have "[carriage] \<in> set (map rev white_spaces)" by (simp add: white_spaces_def carriage_def)
  ultimately show False unfolding u by (metis append_Cons append_Nil is_prefix_append space_at_0 white_spaces_ne(2))
qed

lemma clean_pair_plain: "clean_pair (n, v) \<Longrightarrow> plain_line (n @ '': '' @ v)"
  using trim_no_carriage [of v] by (cases "v = []") (auto simp: clean_pair_def plain_line_def newline_def carriage_def)

lemma header_pairs_read: "\<forall>p \<in> set ps. clean_pair p \<Longrightarrow> header_pairs (map (\<lambda>(n, v). n @ '': '' @ v) ps) = ps"
proof (induction ps)
  case (Cons p ps)
  then show ?case using clean_pair_read [of "fst p" "snd p"]
    by (cases p) (simp add: header_pairs_def List.map_filter_simps)
qed (simp add: header_pairs_def List.map_filter_simps)

lemma values_of_kept:
  "\<not> answered_here name \<Longrightarrow> values_of name (filter (\<lambda>(n, _). \<not> answered_here n) ps) = values_of name ps"
  by (induction ps) (auto simp: answered_here_def eq_ignore_ascii_case_def)

lemma values_of_expect_gone: "values_of ''expect'' (filter (\<lambda>(n, _). \<not> answered_here n) ps) = []"
  by (induction ps) (auto simp: answered_here_def)

definition loopback_at :: "u16 \<Rightarrow> string" where
  "loopback_at port = ''127.0.0.1:'' @ show_word port"

lemma visible_digits: "list_all is_ascii_digit s \<Longrightarrow> list_all visible s"
  by (induction s) (auto simp: is_ascii_digit_def visible_def)

lemma loopback_at_visible: "list_all visible (loopback_at port)"
proof -
  have "list_all visible (show_word port)" unfolding show_word_def by (intro visible_digits show_nat_digits)
  moreover have "list_all visible ''127.0.0.1:''" by code_simp
  ultimately show ?thesis unfolding loopback_at_def list_all_append by blast
qed

lemma loopback_at_clean: "clean_pair (''Host'', loopback_at port)"
proof -
  have v: "list_all visible (loopback_at port)" "loopback_at port \<noteq> []" by (rule loopback_at_visible, simp add: loopback_at_def)
  then have "visible (hd (loopback_at port))" "visible (last (loopback_at port))" by (simp_all add: list_all_iff)
  then have "trim (loopback_at port) = loopback_at port" using trim_visible [of "loopback_at port" 0 0] v by simp
  moreover have "newline \<notin> set (loopback_at port)" using v(1) by (auto simp: list_all_iff visible_def newline_def code_def)
  moreover have "trim ''Host'' = ''Host''" by code_simp
  ultimately show ?thesis by (simp add: clean_pair_def newline_def)
qed

lemma relayed_names: "\<not> answered_here ''content-length''" "\<not> answered_here ''transfer-encoding''"
  by code_simp+

lemma own_names [simp]:
  "\<not> eq_ignore_ascii_case ''Host'' ''content-length''" "\<not> eq_ignore_ascii_case ''Connection'' ''content-length''"
  "\<not> eq_ignore_ascii_case ''Host'' ''transfer-encoding''" "\<not> eq_ignore_ascii_case ''Connection'' ''transfer-encoding''"
  "\<not> eq_ignore_ascii_case ''Host'' ''expect''" "\<not> eq_ignore_ascii_case ''Connection'' ''expect''"
  by code_simp+

section \<open>Endpoints\<close>

lemma trim_slashes_only:
  assumes "trim_end_matches (\<lambda>c. c = d) (a @ b) = a"
  shows "set b \<subseteq> {d}"
proof -
  have "a @ b = a @ rev (takeWhile (\<lambda>c. c = d) (rev (a @ b)))"
    using assms unfolding trim_end_matches_def by (metis rev_append rev_rev_ident takeWhile_dropWhile_id)
  then have "b = rev (takeWhile (\<lambda>c. c = d) (rev (a @ b)))" by (rule append_eq_append_conv [THEN iffD1, OF disjI1, OF refl, THEN conjunct2])
  moreover have "set (rev (takeWhile (\<lambda>c. c = d) (rev (a @ b)))) \<subseteq> {d}"
    by (auto dest: set_takeWhileD)
  ultimately show ?thesis by simp
qed

text \<open>
  A dedicated path names one model and one path under it, and reads back as them. A path is
  dedicated exactly when it is \<open>/models/\<close>, an identifier without a slash, a slash, and something after it.
\<close>

theorem dedicated_exact:
  "endpoint_of path = Inr (Dedicated i suffix) \<longleftrightarrow>
     (\<exists>tail. path = ''/models/'' @ i @ ''/'' @ tail \<and> suffix = ''/'' @ tail \<and>
        i \<noteq> [] \<and> CHR ''/'' \<notin> set i \<and> tail \<noteq> [])"
proof
  assume "endpoint_of path = Inr (Dedicated i suffix)"
  then show "\<exists>tail. path = ''/models/'' @ i @ ''/'' @ tail \<and> suffix = ''/'' @ tail \<and>
        i \<noteq> [] \<and> CHR ''/'' \<notin> set i \<and> tail \<noteq> []"
    using endpoint_of_dedicated by fastforce
next
  assume "\<exists>tail. path = ''/models/'' @ i @ ''/'' @ tail \<and> suffix = ''/'' @ tail \<and>
        i \<noteq> [] \<and> CHR ''/'' \<notin> set i \<and> tail \<noteq> []"
  then obtain tail where p: "path = ''/models/'' @ i @ ''/'' @ tail" "suffix = ''/'' @ tail"
      "i \<noteq> []" "CHR ''/'' \<notin> set i" "tail \<noteq> []" by blast
  obtain c where c: "c \<in> set i" "c \<noteq> CHR ''/''" using p(3,4) by (metis last_in_set)
  have "trim_end_matches (\<lambda>c. c = CHR ''/'') path \<noteq> ''/models''"
    using trim_slashes_only [of "CHR ''/''" "''/models''" "''/'' @ i @ ''/'' @ tail"] c p(1) by auto
  moreover have "trim_end_matches (\<lambda>c. c = CHR ''/'') path \<noteq> ''/props''"
  proof
    assume "trim_end_matches (\<lambda>c. c = CHR ''/'') path = ''/props''"
    then obtain t where "path = ''/props'' @ t" using trim_end_matches_prefix by metis
    then show False using p(1) by simp
  qed
  moreover have "split_once ''/'' (i @ ''/'' @ tail) = Some (i, tail)"
    using split_once_char [OF p(4), of tail] by simp
  ultimately show "endpoint_of path = Inr (Dedicated i suffix)"
    using p by (simp add: endpoint_of_def Let_def catalogue_path_def properties_path_def dedicated_prefix_def
        dedicated_of_def strip_prefix_def)
qed

section \<open>A concrete request\<close>

definition sample_lines :: "string list" where
  "sample_lines = [''POST /models/m/v1/x HTTP/1.1'', ''Host: router'', ''content-length: 3'', ''X-A:  b '']"

lemma sample_lines_ok:
  "\<forall>l \<in> set sample_lines. plain_line l \<and> utf8_valid l" "length sample_lines \<le> 100" "length (head_text sample_lines) \<le> 65536"
proof -
  have "list_all plain_line sample_lines" "list_all (list_all (\<lambda>c. code c < 0x80)) sample_lines" by code_simp+
  then show "\<forall>l \<in> set sample_lines. plain_line l \<and> utf8_valid l" by (auto simp: list_all_iff [of _ sample_lines] intro: utf8_valid_ascii)
qed (simp_all add: sample_lines_def head_text_def)

theorem head_read_back_witness:
  "head_read \<lparr>st_bytes = head_text sample_lines @ ''{}!'', st_end = None\<rparr>
     = Inr (sample_lines, \<lparr>st_bytes = ''{}!'', st_end = None\<rparr>)"
  by (rule head_read_back [OF sample_lines_ok])

theorem head_read_bounded_witness:
  "\<exists>raw. head_text sample_lines @ ''{}!'' = raw @ ''{}!'' \<and> length raw \<le> 65536"
  using head_read_bounded [OF head_read_text [OF sample_lines_ok, of "''{}!''" None]] by auto

definition sample_head :: head where
  "sample_head =
     \<lparr>hd_method = ''POST'', hd_endpoint = Dedicated ''m'' ''/v1/x'',
      hd_headers = [(''Host'', ''router''), (''content-length'', ''3''), (''X-A'', ''b'')],
      hd_length = Given 3, hd_chunked = False, hd_expects_continue = False\<rparr>"

lemma sample_head_parsed: "head_parse sample_lines = Inr sample_head"
  by code_simp

end
