(* ===== verification/Reply.thy ===== *)
theory Reply
  imports Http Slots
begin

text \<open>
  What the router says in its own voice (\<open>src/src/proxy/reply.rs\<close>, \<open>proxy/answer/own.rs\<close>, and
  \<open>known\<close> of \<open>proxy/shared.rs\<close>): refusals, the listing, the catalogue, the properties, a preflight
  and the interim line. The caller's side of a connection is a \<open>sink\<close>: what was written to it, and how
  many bytes more it takes before writing fails.
\<close>

section \<open>Writing to a connection\<close>

record sink =
  sk_written :: string
  sk_takes :: "nat option"

definition write_all :: "string \<Rightarrow> sink \<Rightarrow> bool \<times> sink" where
  "write_all bytes sk =
     (case sk_takes sk of
        None \<Rightarrow> (True, sk\<lparr>sk_written := sk_written sk @ bytes\<rparr>)
      | Some n \<Rightarrow>
          (length bytes \<le> n,
           sk\<lparr>sk_written := sk_written sk @ take n bytes, sk_takes := Some (n - length bytes)\<rparr>))"

section \<open>One reply (reply.rs)\<close>

record reply =
  rp_status :: u16
  rp_content_type :: "string option"
  rp_headers :: "(string \<times> string) list"
  rp_body :: string
  rp_head_only :: bool

definition reason :: "u16 \<Rightarrow> string" where
  "reason status =
     (if status = 200 then ''OK''
      else if status = 204 then ''No Content''
      else if status = 400 then ''Bad Request''
      else if status = 404 then ''Not Found''
      else if status = 405 then ''Method Not Allowed''
      else if status = 408 then ''Request Timeout''
      else if status = 411 then ''Length Required''
      else if status = 413 then ''Content Too Large''
      else if status = 431 then ''Request Header Fields Too Large''
      else if status = 501 then ''Not Implemented''
      else if status = 502 then ''Bad Gateway''
      else if status = 503 then ''Service Unavailable''
      else ''Gateway Timeout'')"

definition reply_text :: "reply \<Rightarrow> string" where
  "reply_text r =
     ''HTTP/1.1 '' @ show_word (rp_status r) @ '' '' @ reason (rp_status r) @ crlf
     @ (case rp_content_type r of None \<Rightarrow> [] | Some t \<Rightarrow> ''Content-Type: '' @ t @ crlf)
     @ ''Content-Length: '' @ show_nat (length (rp_body r)) @ crlf
     @ concat (map (\<lambda>(name, v). name @ '': '' @ v @ crlf) (rp_headers r))
     @ ''Access-Control-Allow-Origin: *'' @ crlf
     @ ''Connection: close'' @ crlf @ crlf
     @ (if rp_head_only r then [] else rp_body r)"

definition reply_write :: "reply \<Rightarrow> sink \<Rightarrow> bool \<times> sink" where
  "reply_write r sk = write_all (reply_text r) sk"

definition refusal_reply :: "json_crate \<Rightarrow> http_refusal \<Rightarrow> reply" where
  "refusal_reply js r =
     \<lparr>rp_status = cause_status (rf_cause r), rp_content_type = Some ''application/json'',
      rp_headers =
        (case retry_after_seconds (rf_cause r) of None \<Rightarrow> [] | Some s \<Rightarrow> [(''Retry-After'', show_word s)])
        @ (case rf_cause r of MethodNotAllowed methods \<Rightarrow> [(''Allow'', methods)] | _ \<Rightarrow> []),
      rp_body = envelope js r, rp_head_only = False\<rparr>"

definition refuse :: "json_crate \<Rightarrow> http_refusal \<Rightarrow> sink \<Rightarrow> bool \<times> sink" where
  "refuse js r sk = reply_write (refusal_reply js r) sk"

definition json_reply :: "json_crate \<Rightarrow> json \<Rightarrow> bool \<Rightarrow> reply" where
  "json_reply js v head_only =
     \<lparr>rp_status = 200, rp_content_type = Some ''application/json'', rp_headers = [],
      rp_body = js_print js v, rp_head_only = head_only\<rparr>"

definition listing_value :: "catalog \<Rightarrow> json" where
  "listing_value c =
     JObject [(''object'', JString ''list''),
       (''data'', JArray (map (\<lambda>e. JObject
          [(''id'', JString (e_id e)), (''object'', JString ''model''),
           (''owned_by'', JString ''maestro-llamacpp'')]) (c_entries c)))]"

definition preflight_reply :: "endpoint \<Rightarrow> reply" where
  "preflight_reply ep =
     \<lparr>rp_status = 204, rp_content_type = None,
      rp_headers = [(''Allow'', allowed ep), (''Access-Control-Allow-Methods'', allowed ep),
        (''Access-Control-Allow-Headers'', ''*''), (''Access-Control-Max-Age'', ''86400'')],
      rp_body = [], rp_head_only = True\<rparr>"

definition proceed_line :: string where
  "proceed_line = ''HTTP/1.1 100 Continue'' @ crlf @ crlf"

section \<open>What a llama.cpp client reads (answer/own.rs)\<close>

text \<open>
  The two readings of the slots are two snapshots, so each has a world of its own.
\<close>

definition catalogue_entry :: "string list \<Rightarrow> (string \<times> u64 option) list \<Rightarrow> entry \<Rightarrow> json" where
  "catalogue_entry running held e =
     JObject
       [(''id'', JString (e_id e)), (''object'', JString ''model''),
        (''owned_by'', JString ''maestro-llamacpp''),
        (''status'', JObject
           [(''value'', JString (if e_id e \<in> set running then ''loaded'' else ''unloaded'')),
            (''failed'', JBool False)]),
        (''source'', JString ''preset''),
        (''meta'', JObject [(''n_ctx'', JNumber (show_word (e_context_size e)))]),
        (''architecture'', JObject [(''input_modalities'', JArray (map JString (accepts e)))]),
        (''memory'', JObject
           [(''declared_mib'', JNumber (show_word (e_memory_estimate_mib e))),
            (''held_mib'',
               (case map_of (rev held) (e_id e) of
                  Some (Some mib) \<Rightarrow> JNumber (show_word mib)
                | _ \<Rightarrow> JNull))])]"

definition catalogue_value :: "catalog \<Rightarrow> world \<Rightarrow> world \<Rightarrow> json" where
  "catalogue_value c w w2 =
     (let running = loaded_ids (c_entries c) w; held = memory_of (c_entries c) w2 in
      JObject [(''object'', JString ''list''),
        (''data'', JArray (map (catalogue_entry running held) (filter generates (c_entries c))))])"

definition properties_value :: json where
  "properties_value = JObject [(''models_autoload'', JBool True)]"

section \<open>What the catalog carries (shared.rs)\<close>

definition known :: "catalog \<Rightarrow> string" where
  "known c = join '', '' (map e_id (c_entries c))"

end
