(* ===== verification/Answer.thy ===== *)
theory Answer
  imports Reply Catalog_Read
begin

text \<open>
  Answering one connection (\<open>src/src/proxy/answer.rs\<close>): reading the body and the model it names
  (\<open>proxy/body.rs\<close>), relaying to the child (\<open>proxy/relay.rs\<close>), and the order in which a request
  is read, refused, looked up, started and relayed. Reading off a socket gives any number of bytes up to
  what is asked for, at least one while there are any: \<open>pieces\<close> says how many for each read. What
  the child answers is a function of what it was sent.
\<close>

section \<open>The request body (body.rs)\<close>

definition max_body_bytes :: usize where "max_body_bytes = 8 * 1024 * 1024"

text \<open>\<open>read_exact\<close> into a buffer of \<open>n\<close> bytes.\<close>

definition read_exact :: "nat \<Rightarrow> stream \<Rightarrow> io_error + (string \<times> stream)" where
  "read_exact n st =
     (if n \<le> length (st_bytes st)
      then Inr (take n (st_bytes st), st\<lparr>st_bytes := drop n (st_bytes st)\<rparr>)
      else Inl (case st_end st of
                  Some e \<Rightarrow> e
                | None \<Rightarrow> \<lparr>io_kind = UnexpectedEof, io_text = ''failed to fill whole buffer''\<rparr>))"

definition json_get :: "json \<Rightarrow> string \<Rightarrow> json option" where
  "json_get v key = (case v of JObject pairs \<Rightarrow> map_of pairs key | _ \<Rightarrow> None)"

definition json_text :: "json \<Rightarrow> string option" where
  "json_text v = (case v of JString s \<Rightarrow> Some s | _ \<Rightarrow> None)"

definition body_read :: "json_crate \<Rightarrow> usize \<Rightarrow> stream \<Rightarrow> http_refusal + ((string \<times> string) \<times> stream)" where
  "body_read js content_length st =
     (case read_exact (unat content_length) st of
        Inl error \<Rightarrow>
          Inl (refusal_new (if timed_out error then RequestTimeout else BodyIncomplete)
            (''a request body declaring '' @ show_word content_length @ '' bytes ended early: '' @ io_text error))
      | Inr (bytes, st) \<Rightarrow>
          (case js_parse js bytes of
             Inl error \<Rightarrow> Inl (refusal_new BodyNotJson (''a request body that is not JSON: '' @ error))
           | Inr parsed \<Rightarrow>
               (case Option.bind (json_get parsed ''model'') json_text of
                  None \<Rightarrow>
                    Inl (refusal_new ModelMissing
                      (''the generic endpoint routes on the '' @ quoted ''model'' @ '' field of the request body, ''
                        @ ''and this request carries none; name a model there, or address a model directly at ''
                        @ ''/models/<model>/<path>''))
                | Some model \<Rightarrow> Inr ((bytes, model), st))))"

section \<open>The relay (relay.rs)\<close>

definition relay_buffer :: nat where "relay_buffer = 8 * 1024"

text \<open>One \<open>read\<close> into a buffer of \<open>want\<close> bytes; no bytes at all is the end of the connection.\<close>

definition read_some :: "nat \<Rightarrow> nat \<Rightarrow> stream \<Rightarrow> io_error + (string \<times> stream)" where
  "read_some piece want st =
     (if st_bytes st = []
      then (case st_end st of Some e \<Rightarrow> Inl e | None \<Rightarrow> Inr ([], st))
      else (let n = min want (max 1 piece)
            in Inr (take n (st_bytes st), st\<lparr>st_bytes := drop n (st_bytes st)\<rparr>)))"

text \<open>The upstream connection, and whether every step succeeded.\<close>

function forward_body :: "(nat \<Rightarrow> nat) \<Rightarrow> nat \<Rightarrow> nat \<Rightarrow> stream \<Rightarrow> sink \<Rightarrow> bool \<times> stream \<times> sink" where
  "forward_body pieces k remaining st up =
     (if remaining = 0 then (True, st, up)
      else
        (case read_some (pieces k) (min remaining relay_buffer) st of
           Inl _ \<Rightarrow> (False, st, up)
         | Inr (bytes, st) \<Rightarrow>
             if length bytes = 0 then (True, st, up)
             else
               (case write_all bytes up of
                  (False, up) \<Rightarrow> (False, st, up)
                | (True, up) \<Rightarrow> forward_body pieces (Suc k) (remaining - length bytes) st up)))"
  by pat_completeness auto
termination
  by (relation "measure (\<lambda>(pieces, k, remaining, st, up). remaining)") auto

declare forward_body.simps [simp del]

datatype relayed = Upstream_gave string | Downstream_took string

function copy_response :: "(nat \<Rightarrow> nat) \<Rightarrow> nat \<Rightarrow> stream \<Rightarrow> sink \<Rightarrow> relayed list \<times> sink" where
  "copy_response pieces k up down =
     (case read_some (pieces k) relay_buffer up of
        Inl _ \<Rightarrow> ([], down)
      | Inr (bytes, up) \<Rightarrow>
          if length bytes = 0 then ([], down)
          else
            (case write_all bytes down of
               (False, down) \<Rightarrow> ([Upstream_gave bytes], down)
             | (True, down) \<Rightarrow>
                 (case copy_response pieces (Suc k) up down of
                    (trace, down) \<Rightarrow> (Upstream_gave bytes # Downstream_took bytes # trace, down))))"
  by pat_completeness auto
termination
  by (relation "measure (\<lambda>(pieces, k, up, down). length (st_bytes up))")
    (auto simp: read_some_def Let_def split: if_splits option.splits)

declare copy_response.simps [simp del]

text \<open>A child's side of the connection: what it takes before it closes, and what it answers to that.\<close>

record upstream =
  up_takes :: "nat option"
  up_answer :: "string \<Rightarrow> stream"

record relay_result =
  rr_ok :: bool
  rr_sent :: string
  rr_trace :: "relayed list"
  rr_reader :: stream
  rr_caller :: sink

definition child_endpoint :: "child \<Rightarrow> string" where
  "child_endpoint c = ''127.0.0.1:'' @ show_word (ch_port c)"

definition relay_run ::
    "(nat \<Rightarrow> nat) \<Rightarrow> (child \<Rightarrow> upstream option) \<Rightarrow> head \<Rightarrow> child \<Rightarrow> string option \<Rightarrow> stream \<Rightarrow> sink \<Rightarrow> relay_result" where
  "relay_run pieces connect h c body st down =
     (let failed = (\<lambda>up st. \<lparr>rr_ok = False, rr_sent = sk_written up, rr_trace = [], rr_reader = st, rr_caller = down\<rparr>) in
      case connect c of
        None \<Rightarrow> failed \<lparr>sk_written = [], sk_takes = None\<rparr> st
      | Some server \<Rightarrow>
          (case write_all (rewrite h (child_endpoint c)) \<lparr>sk_written = [], sk_takes = up_takes server\<rparr> of
             (False, up) \<Rightarrow> failed up st
           | (True, up) \<Rightarrow>
               (case (case body of
                        Some bytes \<Rightarrow> (case write_all bytes up of (ok, up) \<Rightarrow> (ok, st, up))
                      | None \<Rightarrow> forward_body pieces 0 (unat (body_bytes h)) st up) of
                  (False, st, up) \<Rightarrow> failed up st
                | (True, st, up) \<Rightarrow>
                    (case copy_response pieces 0 (up_answer server (sk_written up)) down of
                       (trace, down) \<Rightarrow>
                         \<lparr>rr_ok = True, rr_sent = sk_written up, rr_trace = trace, rr_reader = st, rr_caller = down\<rparr>))))"

section \<open>What a request has earned (answer.rs)\<close>

definition framing :: "head \<Rightarrow> http_refusal + unit" where
  "framing h =
     (if hd_chunked h
      then Inl (refusal_new ChunkedBody
        ((case hd_endpoint h of
            Dedicated i _ \<Rightarrow> entry_scope i
          | Generic _ \<Rightarrow> ''the generic endpoint''
          | Listing \<Rightarrow> ''the model listing''
          | Catalogue \<Rightarrow> ''the catalogue''
          | Properties \<Rightarrow> ''the server'' @ [CHR 0x27] @ ''s properties'')
         @ '': this router does not implement chunked request bodies; send a body with a Content-Length''))
      else (case hd_length h of
              Malformed v \<Rightarrow>
                Inl (refusal_new MalformedLength
                  (quoted (''Content-Length: '' @ v) @ '' is not a length this router can read; send a byte count, ''
                    @ ''or no such header at all''))
            | _ \<Rightarrow> Inr ()))"

definition declared_body :: "length_said \<Rightarrow> http_refusal + usize" where
  "declared_body len =
     (case len of
        Given declared \<Rightarrow>
          if max_body_bytes < declared
          then Inl (refusal_new BodyTooLarge
            (''a request body of '' @ show_word declared @ '' bytes is larger than the '' @ show_word max_body_bytes
              @ '' this router will read''))
          else Inr declared
      | _ \<Rightarrow>
          Inl (refusal_new LengthRequired
            (''the generic endpoint routes on the '' @ quoted ''model'' @ '' field of the request body, so it needs one ''
              @ ''and a Content-Length that declares it; or address a model directly at /models/<model>/<path>'')))"

text \<open>
  Everything an answer is given besides the connection. \<open>an_meanwhile\<close> is what other threads do to
  the slots while the response is relayed.
\<close>

record serving =
  an_json :: json_crate
  an_catalog :: catalog
  an_slots :: slots
  an_launcher :: launcher
  an_surroundings :: surroundings
  an_fuel :: nat
  an_now :: instant
  an_connect :: "child \<Rightarrow> upstream option"
  an_pieces :: "nat \<Rightarrow> nat"
  an_meanwhile :: "world \<Rightarrow> world"
  an_after :: instant

record answered =
  aw_ok :: bool
  aw_caller :: sink
  aw_world :: world
  aw_relayed :: "(child \<times> relay_result) option"

definition say :: "reply \<Rightarrow> sink \<Rightarrow> world \<Rightarrow> answered" where
  "say r sk w =
     (case reply_write r sk of
        (ok, sk) \<Rightarrow> \<lparr>aw_ok = ok, aw_caller = sk, aw_world = w, aw_relayed = None\<rparr>)"

definition turn_away :: "serving \<Rightarrow> http_refusal \<Rightarrow> sink \<Rightarrow> world \<Rightarrow> answered" where
  "turn_away sv r sk w =
     (case refuse (an_json sv) r sk of
        (ok, sk) \<Rightarrow> \<lparr>aw_ok = ok, aw_caller = sk, aw_world = w, aw_relayed = None\<rparr>)"

definition own_reply :: "serving \<Rightarrow> head \<Rightarrow> world \<Rightarrow> reply option" where
  "own_reply sv h w =
     (let head_only = (hd_method h = ''HEAD'') in
      case hd_endpoint h of
        Listing \<Rightarrow> Some (json_reply (an_json sv) (listing_value (an_catalog sv)) head_only)
      | Catalogue \<Rightarrow> Some (json_reply (an_json sv) (catalogue_value (an_catalog sv) w w) head_only)
      | Properties \<Rightarrow> Some (json_reply (an_json sv) properties_value head_only)
      | _ \<Rightarrow> None)"

datatype routed =
    Routed string "string option" stream sink
  | Misrouted http_refusal sink
  | Hung_up sink

text \<open>Which model is wanted, and the body when reading it was what said so.\<close>

definition route :: "serving \<Rightarrow> head \<Rightarrow> stream \<Rightarrow> sink \<Rightarrow> routed" where
  "route sv h st sk =
     (case hd_endpoint h of
        Dedicated i _ \<Rightarrow> Routed i None st sk
      | _ \<Rightarrow>
          (case declared_body (hd_length h) of
             Inl r \<Rightarrow> Misrouted r sk
           | Inr declared \<Rightarrow>
               (case (if hd_expects_continue h then write_all proceed_line sk else (True, sk)) of
                  (False, sk) \<Rightarrow> Hung_up sk
                | (True, sk) \<Rightarrow>
                    (case body_read (an_json sv) declared st of
                       Inl r \<Rightarrow> Misrouted r sk
                     | Inr ((bytes, model), st) \<Rightarrow> Routed model (Some bytes) st sk))))"

definition answer_model ::
    "serving \<Rightarrow> head \<Rightarrow> string \<Rightarrow> string option \<Rightarrow> stream \<Rightarrow> sink \<Rightarrow> world \<Rightarrow> answered run" where
  "answer_model sv h wanted buffered st sk w =
     (case catalog_entry (an_catalog sv) wanted of
        None \<Rightarrow>
          Done (turn_away sv (refusal_new ModelNotFound
            (''no model called '' @ quoted wanted @ ''; this catalog carries: '' @ known (an_catalog sv))) sk w)
      | Some e \<Rightarrow>
          (case child_for (an_fuel sv) (an_surroundings sv) (an_launcher sv) (an_slots sv)
                  (c_entries (an_catalog sv)) e (an_now sv) w of
             Panicked \<Rightarrow> Panicked
           | Out_of_fuel \<Rightarrow> Out_of_fuel
           | Done (Inl failure, w) \<Rightarrow> Done (turn_away sv (refusal_from failure) sk w)
           | Done (Inr c, w) \<Rightarrow>
               (case (if buffered = None \<and> hd_expects_continue h \<and> 0 < body_bytes h
                      then write_all proceed_line sk else (True, sk)) of
                  (False, sk) \<Rightarrow>
                    Done \<lparr>aw_ok = False, aw_caller = sk, aw_world = drop_child c w, aw_relayed = None\<rparr>
                | (True, sk) \<Rightarrow>
                    (let r = relay_run (an_pieces sv) (an_connect sv) h c buffered st sk;
                         w = drop_child c (touch (e_id e) (an_after sv) (an_meanwhile sv w))
                     in Done \<lparr>aw_ok = rr_ok r, aw_caller = rr_caller r, aw_world = w,
                          aw_relayed = Some (c, r)\<rparr>))))"

definition answer_request :: "serving \<Rightarrow> head \<Rightarrow> stream \<Rightarrow> sink \<Rightarrow> world \<Rightarrow> answered run" where
  "answer_request sv h st sk w =
     (if hd_method h = ''OPTIONS'' then Done (say (preflight_reply (hd_endpoint h)) sk w)
      else if \<not> allows (hd_endpoint h) (hd_method h)
      then Done (turn_away sv (refusal_new (MethodNotAllowed (allowed (hd_endpoint h)))
             (hd_method h @ '' is not a method this endpoint answers; it accepts '' @ allowed (hd_endpoint h))) sk w)
      else
        (case framing h of
           Inl r \<Rightarrow> Done (turn_away sv r sk w)
         | Inr _ \<Rightarrow>
             (case own_reply sv h w of
                Some r \<Rightarrow> Done (say r sk w)
              | None \<Rightarrow>
                  (case route sv h st sk of
                     Misrouted r sk \<Rightarrow> Done (turn_away sv r sk w)
                   | Hung_up sk \<Rightarrow> Done \<lparr>aw_ok = False, aw_caller = sk, aw_world = w, aw_relayed = None\<rparr>
                   | Routed wanted buffered st sk \<Rightarrow> answer_model sv h wanted buffered st sk w))))"

definition answer_to :: "serving \<Rightarrow> stream \<Rightarrow> sink \<Rightarrow> world \<Rightarrow> answered run" where
  "answer_to sv st sk w =
     (case head_read st of
        Inl r \<Rightarrow> Done (turn_away sv r sk w)
      | Inr (ls, st) \<Rightarrow>
          (case head_parse ls of
             Inl r \<Rightarrow> Done (turn_away sv r sk w)
           | Inr h \<Rightarrow> answer_request sv h st sk w))"

end
