(* ===== verification/Answer_Laws.thy ===== *)
theory Answer_Laws
  imports Answer Http_Laws
begin

text \<open>
  Answering a connection: the relay adds, drops and holds back nothing; a refusal says which of its causes
  it is, framed so that its end is known; one connection is written one answer; a model is touched only for
  a request that is one for it, and its handle is given back; and the generic endpoint sends on the
  bytes that named the model.
\<close>

section \<open>Reading and writing\<close>

lemma write_all_written:
  "write_all bytes sk = (ok, sk') \<Longrightarrow>
     sk_written sk' = sk_written sk @ (case sk_takes sk of None \<Rightarrow> bytes | Some n \<Rightarrow> take n bytes) \<and>
     sk_takes sk' = map_option (\<lambda>n. n - length bytes) (sk_takes sk) \<and>
     (ok \<longleftrightarrow> (\<forall>n. sk_takes sk = Some n \<longrightarrow> length bytes \<le> n))"
  by (auto simp: write_all_def split: option.splits)

lemma write_all_unlimited [simp]:
  "sk_takes sk = None \<Longrightarrow> write_all bytes sk = (True, sk\<lparr>sk_written := sk_written sk @ bytes\<rparr>)"
  by (simp add: write_all_def)

lemma read_some_bytes:
  "read_some piece want st = Inr (bytes, st') \<Longrightarrow> 0 < want \<Longrightarrow>
     st_bytes st = bytes @ st_bytes st' \<and> length bytes \<le> want \<and> st_end st' = st_end st \<and>
     (bytes = [] \<longleftrightarrow> st_bytes st = []) \<and> (bytes = [] \<longrightarrow> st_end st = None)"
  by (auto simp: read_some_def Let_def split: if_splits option.splits)

lemma read_some_error: "read_some piece want st = Inl e \<Longrightarrow> st_bytes st = [] \<and> st_end st = Some e"
  by (auto simp: read_some_def Let_def split: if_splits option.splits)

section \<open>The relay\<close>

text \<open>Every piece the child gave was handed to the caller before the next was asked for.\<close>

fun prompt :: "relayed list \<Rightarrow> bool" where
  "prompt [] = True"
| "prompt [Upstream_gave bytes] = (bytes \<noteq> [] \<and> length bytes \<le> 8192)"
| "prompt (Upstream_gave bytes # Downstream_took taken # trace) =
     (taken = bytes \<and> bytes \<noteq> [] \<and> length bytes \<le> 8192 \<and> prompt trace)"
| "prompt _ = False"

definition accepted :: "sink \<Rightarrow> string \<Rightarrow> string" where
  "accepted sk bytes = (case sk_takes sk of None \<Rightarrow> bytes | Some n \<Rightarrow> take n bytes)"

lemma prompt_Cons: "prompt trace \<Longrightarrow> bytes \<noteq> [] \<Longrightarrow> length bytes \<le> 8192 \<Longrightarrow>
    prompt (Upstream_gave bytes # Downstream_took bytes # trace)"
  by simp

lemma copy_response_exact:
  "copy_response pieces k up down = (trace, down') \<Longrightarrow>
     sk_written down' = sk_written down @ accepted down (st_bytes up) \<and> prompt trace"
proof (induction pieces k up down arbitrary: trace down' rule: copy_response.induct)
  case (1 pieces k up down)
  show ?case
  proof (cases "read_some (pieces k) relay_buffer up")
    case (Inl e)
    then have "st_bytes up = []" using read_some_error by blast
    then show ?thesis using "1.prems" Inl
      by (subst (asm) copy_response.simps) (auto simp: accepted_def split: option.split)
  next
    case (Inr r)
    obtain bytes up' where r: "r = (bytes, up')" by (cases r)
    note got = read_some_bytes [OF Inr [unfolded r]]
    have buffer: "0 < relay_buffer" "relay_buffer = 8192" by (simp_all add: relay_buffer_def)
    show ?thesis
    proof (cases "bytes = []")
      case True
      have "st_bytes up = []" using got buffer True by blast
      moreover have "trace = []" "down' = down"
        using "1.prems" Inr r True by (subst (asm) copy_response.simps, simp)+
      ultimately show ?thesis by (simp add: accepted_def split: option.split)
    next
      case False
      obtain ok down1 where w: "write_all bytes down = (ok, down1)" by fastforce
      note written = write_all_written [OF w]
      show ?thesis
      proof (cases ok)
        case True
        obtain trace1 down2 where rec: "copy_response pieces (Suc k) up' down1 = (trace1, down2)" by fastforce
        have out: "trace = Upstream_gave bytes # Downstream_took bytes # trace1" "down' = down2"
          using "1.prems" Inr r False w True rec by (subst (asm) copy_response.simps, simp)+
        have "sk_written down2 = sk_written down1 @ accepted down1 (st_bytes up') \<and> prompt trace1"
          using "1.IH" [OF Inr r [symmetric] _ w [symmetric] _ rec] False True by simp
        then show ?thesis using out written got buffer False True
          by (auto simp: accepted_def split: option.splits)
      next
        case no: False
        have out: "trace = [Upstream_gave bytes]" "down' = down1"
          using "1.prems" Inr r False w no by (subst (asm) copy_response.simps, simp)+
        obtain n where n: "sk_takes down = Some n" "n < length bytes" using written no by auto
        then show ?thesis using out written got buffer False by (auto simp: accepted_def)
      qed
    qed
  qed
qed

lemma forward_body_exact:
  "forward_body pieces k remaining st up = (ok, st', up') \<Longrightarrow> sk_takes up = None \<Longrightarrow>
     sk_written up' = sk_written up @ take remaining (st_bytes st) \<and> sk_takes up' = None \<and>
     st_bytes st' = drop remaining (st_bytes st) \<and> st_end st' = st_end st \<and>
     (ok \<longleftrightarrow> remaining \<le> length (st_bytes st) \<or> st_end st = None)"
proof (induction pieces k remaining st up arbitrary: ok st' up' rule: forward_body.induct)
  case (1 pieces k remaining st up)
  show ?case
  proof (cases "remaining = 0")
    case True
    then show ?thesis using "1.prems" by (subst (asm) forward_body.simps) simp
  next
    case False
    let ?want = "min remaining relay_buffer"
    have want: "0 < ?want" using False by (simp add: relay_buffer_def)
    show ?thesis
    proof (cases "read_some (pieces k) ?want st")
      case (Inl e)
      then show ?thesis using "1.prems" False read_some_error [OF Inl]
        by (subst (asm) forward_body.simps) auto
    next
      case (Inr r)
      obtain bytes st1 where r: "r = (bytes, st1)" by (cases r)
      note got = read_some_bytes [OF Inr [unfolded r] want]
      show ?thesis
      proof (cases "bytes = []")
        case True
        have "st_bytes st = []" "st_end st = None" using got True by blast+
        moreover have "ok" "st' = st1" "up' = up"
          using "1.prems"(1) False Inr r True by (subst (asm) forward_body.simps, simp)+
        moreover have "st_bytes st1 = []" "st_end st1 = None" using got calculation by auto
        ultimately show ?thesis using "1.prems"(2) by simp
      next
        case ne: False
        let ?up = "up\<lparr>sk_written := sk_written up @ bytes\<rparr>"
        have rec: "forward_body pieces (Suc k) (remaining - length bytes) st1 ?up = (ok, st', up')"
          using "1.prems" False Inr r ne by (subst (asm) forward_body.simps) simp
        have "sk_written up' = sk_written ?up @ take (remaining - length bytes) (st_bytes st1) \<and> sk_takes up' = None \<and>
            st_bytes st' = drop (remaining - length bytes) (st_bytes st1) \<and> st_end st' = st_end st1 \<and>
            (ok \<longleftrightarrow> remaining - length bytes \<le> length (st_bytes st1) \<or> st_end st1 = None)"
          using "1.IH" [OF False Inr r [symmetric] _ _ _ rec, of True] ne "1.prems"(2) by simp
        moreover have st: "st_bytes st = bytes @ st_bytes st1" and "st_end st1 = st_end st" using got by blast+
        moreover have le: "length bytes \<le> remaining" using got min.boundedE by blast
        moreover have "take remaining (st_bytes st) = bytes @ take (remaining - length bytes) (st_bytes st1)"
          "drop remaining (st_bytes st) = drop (remaining - length bytes) (st_bytes st1)"
          unfolding st using le by simp_all
        moreover have "remaining \<le> length (st_bytes st) \<longleftrightarrow> remaining - length bytes \<le> length (st_bytes st1)"
          unfolding st using le by (simp add: le_diff_conv add.commute)
        ultimately show ?thesis by (simp del: length_append)
      qed
    qed
  qed
qed

lemma relay_exact:
  assumes "connect c = Some server" and "up_takes server = None"
    and "relay_run pieces connect h c body st down = r"
  shows "rr_sent r = rewrite h (child_endpoint c)
      @ (case body of Some bytes \<Rightarrow> bytes | None \<Rightarrow> take (unat (body_bytes h)) (st_bytes st)) \<and>
    (rr_ok r \<longleftrightarrow> body \<noteq> None \<or> unat (body_bytes h) \<le> length (st_bytes st) \<or> st_end st = None) \<and>
    sk_written (rr_caller r) = sk_written down
      @ (if rr_ok r then accepted down (st_bytes (up_answer server (rr_sent r))) else []) \<and>
    prompt (rr_trace r)"
proof -
  let ?up = "\<lparr>sk_written = rewrite h (child_endpoint c), sk_takes = None\<rparr>"
  obtain ok st1 up1 where f: "forward_body pieces 0 (unat (body_bytes h)) st ?up = (ok, st1, up1)"
    by (metis prod_cases3)
  obtain trace down1 where c: "copy_response pieces 0 (up_answer server (sk_written up1)) down = (trace, down1)"
    by fastforce
  show ?thesis
  proof (cases body)
    case None
    then show ?thesis
      using assms(1,2) f c forward_body_exact [OF f] copy_response_exact [OF c]
      unfolding assms(3) [symmetric] by (cases ok) (auto simp: relay_run_def)
  next
    case (Some bytes)
    obtain trace2 down2 where c2: "copy_response pieces 0 (up_answer server (rewrite h (child_endpoint c) @ bytes)) down = (trace2, down2)"
      by fastforce
    then show ?thesis
      using assms(1,2) Some copy_response_exact [OF c2]
      unfolding assms(3) [symmetric] by (auto simp: relay_run_def)
  qed
qed

text \<open>
  The relay adds nothing, drops nothing and holds nothing back. To a child that keeps reading goes the
  rewritten head and then the body, the one already read or as many bytes of it as the head declares and the
  caller sends; what the caller gets is what the child answers, byte for byte, as long as
  the caller takes it; and each piece is handed on before the next one is read, however the sizes fall.
\<close>

theorem relay_transparent:
  assumes "connect c = Some server" and "up_takes server = None"
    and "relay_run pieces connect h c body st down = r"
  shows "rr_sent r = rewrite h (child_endpoint c)
      @ (case body of Some bytes \<Rightarrow> bytes | None \<Rightarrow> take (unat (body_bytes h)) (st_bytes st)) \<and>
    (rr_ok r \<longleftrightarrow> body \<noteq> None \<or> unat (body_bytes h) \<le> length (st_bytes st) \<or> st_end st = None) \<and>
    sk_written (rr_caller r) = sk_written down
      @ (if rr_ok r then accepted down (st_bytes (up_answer server (rr_sent r))) else []) \<and>
    prompt (rr_trace r)"
  using assms by (rule relay_exact)

section \<open>Replies\<close>

definition reply_lines :: "reply \<Rightarrow> string list" where
  "reply_lines r =
     (''HTTP/1.1 '' @ show_word (rp_status r) @ '' '' @ reason (rp_status r))
     # map (\<lambda>(name, v). name @ '': '' @ v)
         ((case rp_content_type r of None \<Rightarrow> [] | Some t \<Rightarrow> [(''Content-Type'', t)])
          @ (''Content-Length'', show_nat (length (rp_body r))) # rp_headers r
          @ [(''Access-Control-Allow-Origin'', ''*''), (''Connection'', ''close'')])"

lemma reply_text_lines: "reply_text r = head_text (reply_lines r) @ (if rp_head_only r then [] else rp_body r)"
proof -
  have "concat (map (\<lambda>(name, v). name @ '': '' @ v @ crlf) ps) @ head_text ls
      = head_text (map (\<lambda>(name, v). name @ '': '' @ v) ps @ ls)" for ps ls
    by (induction ps) auto
  from this [of "rp_headers r" "[''Access-Control-Allow-Origin: *'', ''Connection: close'']"]
  show ?thesis by (auto simp: reply_text_def reply_lines_def split: option.split)
qed

lemma visible_clean: "list_all visible v \<Longrightarrow> v \<noteq> [] \<Longrightarrow> trim v = v \<and> newline \<notin> set v"
proof -
  assume v: "list_all visible v" "v \<noteq> []"
  then have "visible (hd v)" "visible (last v)" by (simp_all add: list_all_iff)
  then show ?thesis using trim_visible [of v 0 0] v by (auto simp: list_all_iff visible_def newline_def code_def)
qed

lemma show_nat_clean: "trim (show_nat n) = show_nat n \<and> newline \<notin> set (show_nat n)"
  using visible_clean [OF visible_digits [OF show_nat_digits]] by simp

lemma reason_plain: "newline \<notin> set (reason s) \<and> reason s \<noteq> [] \<and> last (reason s) \<noteq> carriage"
  by (simp add: reason_def newline_def carriage_def)

lemma own_clean:
  "clean_pair (''Access-Control-Allow-Origin'', ''*'')" "clean_pair (''Connection'', ''close'')"
  "trim ''Content-Length'' = ''Content-Length''"
  by code_simp+

definition clean_reply :: "reply \<Rightarrow> bool" where
  "clean_reply r \<longleftrightarrow> list_all clean_pair (rp_headers r) \<and> values_of ''content-length'' (rp_headers r) = [] \<and>
     (case rp_content_type r of None \<Rightarrow> True | Some t \<Rightarrow> clean_pair (''Content-Type'', t))"

lemma own_headers_clean:
  "clean_pair (''Content-Type'', ''application/json'')" "clean_pair (''Retry-After'', show_word (1 :: u32))"
  "clean_pair (''Access-Control-Allow-Headers'', ''*'')" "clean_pair (''Access-Control-Max-Age'', ''86400'')"
  "clean_pair (''Allow'', ''GET, POST, OPTIONS'')" "clean_pair (''Allow'', ''GET, HEAD, OPTIONS'')"
  "clean_pair (''Access-Control-Allow-Methods'', ''GET, POST, OPTIONS'')"
  "clean_pair (''Access-Control-Allow-Methods'', ''GET, HEAD, OPTIONS'')"
  "\<not> eq_ignore_ascii_case ''Allow'' ''content-length''" "\<not> eq_ignore_ascii_case ''Retry-After'' ''content-length''"
  "\<not> eq_ignore_ascii_case ''Access-Control-Allow-Methods'' ''content-length''"
  "\<not> eq_ignore_ascii_case ''Access-Control-Allow-Headers'' ''content-length''"
  "\<not> eq_ignore_ascii_case ''Access-Control-Max-Age'' ''content-length''"
  by code_simp+

lemma allowed_cases: "allowed ep = ''GET, POST, OPTIONS'' \<or> allowed ep = ''GET, HEAD, OPTIONS''"
  by (cases ep) simp_all

lemma clean_json: "clean_reply (json_reply js v head_only)"
  unfolding clean_reply_def json_reply_def using own_headers_clean(1) by simp

lemma clean_preflight: "clean_reply (preflight_reply ep)"
  using allowed_cases [of ep] own_headers_clean unfolding clean_reply_def preflight_reply_def
  by (elim disjE) (simp_all only: reply.simps list.pred_inject values_of_simps option.case if_False append_Nil simp_thms)

lemma clean_refusal:
  assumes "\<forall>methods. rf_cause refused = MethodNotAllowed methods \<longrightarrow> methods = allowed ep"
  shows "clean_reply (refusal_reply js refused)"
proof (cases "rf_cause refused")
  case (MethodNotAllowed methods)
  then show ?thesis using allowed_cases [of ep] own_headers_clean assms unfolding clean_reply_def refusal_reply_def
    by (elim disjE) (simp_all add: retry_after_seconds_def del: allowed.simps)
qed (use own_headers_clean in \<open>simp_all add: clean_reply_def refusal_reply_def retry_after_seconds_def\<close>)

lemma clean_lines_read:
  assumes "clean_reply r" and "length (rp_body r) < 2 ^ 64"
  shows "\<exists>status_line field_lines. reply_lines r = status_line # field_lines \<and>
    (\<forall>l \<in> set (status_line # field_lines). plain_line l) \<and>
    length_declared (header_pairs field_lines) = Given (of_nat (length (rp_body r))) \<and>
    (''Connection'', ''close'') \<in> set (header_pairs field_lines)"
proof -
  define pairs where "pairs = (case rp_content_type r of None \<Rightarrow> [] | Some t \<Rightarrow> [(''Content-Type'', t)])
          @ (''Content-Length'', show_nat (length (rp_body r))) # rp_headers r
          @ [(''Access-Control-Allow-Origin'', ''*''), (''Connection'', ''close'')]"
  have len: "clean_pair (''Content-Length'', show_nat n)" for n
    using show_nat_clean own_clean(3) by (simp add: clean_pair_def newline_def)
  have clean: "\<forall>p \<in> set pairs. clean_pair p"
    using assms(1) len own_clean(1,2) by (auto simp: pairs_def clean_reply_def list_all_iff split: option.splits)
  have names: "\<not> eq_ignore_ascii_case ''Content-Type'' ''content-length''" "eq_ignore_ascii_case ''Content-Length'' ''content-length''"
    "\<not> eq_ignore_ascii_case ''Access-Control-Allow-Origin'' ''content-length''" "\<not> eq_ignore_ascii_case ''Connection'' ''content-length''"
    by code_simp+
  have "values_of ''content-length'' pairs = [show_nat (length (rp_body r))]"
    using assms(1) names by (auto simp: pairs_def clean_reply_def split: option.splits)
  then have "length_declared pairs = Given (of_nat (length (rp_body r)))"
    using assms(2) parse_show_nat [of "length (rp_body r)" 64]
    by (simp add: length_declared_def length_of_value_def parse_u64_def)
  moreover have "plain_line (''HTTP/1.1 '' @ show_word (rp_status r) @ '' '' @ reason (rp_status r))"
    using reason_plain [of "rp_status r"] show_nat_clean [of "unat (rp_status r)"]
    by (auto simp: plain_line_def show_word_def newline_def carriage_def)
  moreover have "\<forall>l \<in> set (map (\<lambda>(n, v). n @ '': '' @ v) pairs). plain_line l" using clean clean_pair_plain by auto
  moreover have "(''Connection'', ''close'') \<in> set pairs" by (simp add: pairs_def)
  ultimately show ?thesis
    using header_pairs_read [OF clean] unfolding reply_lines_def pairs_def [symmetric] by auto
qed

text \<open>The replies the router has, and what a reader of one makes of it: lines, one blank line, and the body that is declared.\<close>

definition routers_own :: "json_crate \<Rightarrow> reply \<Rightarrow> bool" where
  "routers_own js r \<longleftrightarrow>
     (\<exists>refused ep. r = refusal_reply js refused \<and>
        (\<forall>methods. rf_cause refused = MethodNotAllowed methods \<longrightarrow> methods = allowed ep)) \<or>
     (\<exists>v head_only. r = json_reply js v head_only) \<or> (\<exists>ep. r = preflight_reply ep)"

definition read_as_one :: "string \<Rightarrow> reply \<Rightarrow> bool" where
  "read_as_one written r \<longleftrightarrow>
     (\<exists>status_line field_lines. written = head_text (status_line # field_lines)
        @ (if rp_head_only r then [] else rp_body r) \<and>
      (\<forall>l \<in> set (status_line # field_lines). plain_line l) \<and>
      length_declared (header_pairs field_lines) = Given (of_nat (length (rp_body r))) \<and>
      (''Connection'', ''close'') \<in> set (header_pairs field_lines))"

lemma own_read_as_one:
  assumes "routers_own js r" and "length (rp_body r) < 2 ^ 64"
  shows "read_as_one (reply_text r) r"
proof -
  have "clean_reply r" using assms(1) clean_refusal clean_json clean_preflight by (auto simp: routers_own_def)
  from clean_lines_read [OF this assms(2)] show ?thesis unfolding read_as_one_def reply_text_lines by metis
qed

text \<open>
  The end of every reply the router authors is known to its reader. A refusal, a JSON answer
  and a preflight are a sequence of lines, one blank line and the body; the length they declare is the
  body's, also when only the head was asked for; they announce that the connection closes; and nothing
  in a message can end a line early.
\<close>

theorem replies_framed:
  assumes "r = refusal_reply js refused \<and> (\<forall>methods. rf_cause refused = MethodNotAllowed methods \<longrightarrow> methods = allowed ep) \<or>
      r = json_reply js v head_only \<or> r = preflight_reply ep"
    and "length (rp_body r) < 2 ^ 64"
  shows "\<exists>status_line field_lines. reply_text r = head_text (status_line # field_lines)
        @ (if rp_head_only r then [] else rp_body r) \<and>
    (\<forall>l \<in> set (status_line # field_lines). plain_line l) \<and>
    length_declared (header_pairs field_lines) = Given (of_nat (length (rp_body r))) \<and>
    (''Connection'', ''close'') \<in> set (header_pairs field_lines)"
proof -
  have "routers_own js r" using assms(1) by (auto simp: routers_own_def)
  from own_read_as_one [OF this assms(2)] show ?thesis by (simp add: read_as_one_def)
qed

section \<open>Refusals\<close>

text \<open>
  A client can tell every refusal from every other by its code, and from the kind of failure that
  caused it: two causes have one code only when they are the same cause; the status is never a success and has
  a phrase of its own; a retry is offered for exactly one of them, the room another request holds;
  and a failed load is told as the failure it was.
\<close>

theorem refusals_told_apart:
  "(cause_code a = cause_code b \<longleftrightarrow> a = b \<or> (\<exists>m n. a = MethodNotAllowed m \<and> b = MethodNotAllowed n)) \<and>
   (cause_code a = cause_code b \<longrightarrow> cause_status a = cause_status b) \<and>
   400 \<le> cause_status a \<and> cause_status a < 600 \<and>
   (reason (cause_status a) = ''Gateway Timeout'' \<longleftrightarrow> a = StartupTimeout) \<and>
   (family a = ''server_error'' \<longleftrightarrow> a \<in> {ChunkedBody, ChildUnavailable, StartupTimeout, RoomContended, NoRoom}) \<and>
   (retry_after_seconds (rf_cause (refusal_from f)) \<noteq> None \<longleftrightarrow> (\<exists>m. f = Contended m)) \<and>
   rf_message (refusal_from f) = failure_text f"
proof (intro conjI)
  show "cause_code a = cause_code b \<longleftrightarrow> a = b \<or> (\<exists>m n. a = MethodNotAllowed m \<and> b = MethodNotAllowed n)"
    by (cases a; cases b) (simp_all add: cause_code_def)
  show "cause_code a = cause_code b \<longrightarrow> cause_status a = cause_status b"
    by (cases a; cases b) (simp_all add: cause_code_def cause_status_def)
  show "400 \<le> cause_status a" "cause_status a < 600" by (cases a; simp add: cause_status_def)+
  show "reason (cause_status a) = ''Gateway Timeout'' \<longleftrightarrow> a = StartupTimeout"
    by (cases a) (simp_all add: cause_status_def reason_def)
  show "family a = ''server_error'' \<longleftrightarrow> a \<in> {ChunkedBody, ChildUnavailable, StartupTimeout, RoomContended, NoRoom}"
    by (cases a) (simp_all add: family_def cause_status_def)
  show "retry_after_seconds (rf_cause (refusal_from f)) \<noteq> None \<longleftrightarrow> (\<exists>m. f = Contended m)"
    by (cases f) (simp_all add: refusal_from_def refusal_new_def retry_after_seconds_def)
  show "rf_message (refusal_from f) = failure_text f" by (simp add: refusal_from_def refusal_new_def)
qed

section \<open>One connection\<close>

text \<open>What it takes for a request to be one for a model: its method, its framing, and who names the model.\<close>

definition names_model :: "serving \<Rightarrow> head \<Rightarrow> stream \<Rightarrow> string \<Rightarrow> bool" where
  "names_model sv h rest wanted \<longleftrightarrow>
     (\<exists>suffix. hd_endpoint h = Dedicated wanted suffix) \<or>
     (\<exists>path n v. hd_endpoint h = Generic path \<and> hd_length h = Given n \<and> n \<le> max_body_bytes \<and>
        unat n \<le> length (st_bytes rest) \<and> js_parse (an_json sv) (take (unat n) (st_bytes rest)) = Inr v \<and>
        json_get v ''model'' = Some (JString wanted))"

definition asks_for :: "serving \<Rightarrow> head \<Rightarrow> stream \<Rightarrow> entry \<Rightarrow> bool" where
  "asks_for sv h rest e \<longleftrightarrow>
     (hd_method h = ''GET'' \<or> hd_method h = ''POST'') \<and> framing h = Inr () \<and>
     names_model sv h rest (e_id e) \<and> catalog_entry (an_catalog sv) (e_id e) = Some e"

lemma split_allowed:
  "split_text '', '' ''GET, POST, OPTIONS'' = [''GET'', ''POST'', ''OPTIONS'']"
  "split_text '', '' ''GET, HEAD, OPTIONS'' = [''GET'', ''HEAD'', ''OPTIONS'']"
  by code_simp+

lemma allows_model:
  "allows (Dedicated i suffix) m \<longleftrightarrow> m = ''GET'' \<or> m = ''POST'' \<or> m = ''OPTIONS''"
  "allows (Generic path) m \<longleftrightarrow> m = ''GET'' \<or> m = ''POST'' \<or> m = ''OPTIONS''"
  by (auto simp: allows_def split_allowed simp del: split_text.simps)

lemma catalog_entry_id: "catalog_entry c i = Some e \<Longrightarrow> e_id e = i"
  by (auto simp: catalog_entry_def find_Some_iff)

lemma json_text_Some [simp]: "json_text v = Some s \<longleftrightarrow> v = JString s"
  by (cases v) (auto simp: json_text_def)

lemma json_text_JString [simp]: "json_text (JString s) = Some s"
  by (simp add: json_text_def)

lemma body_read_Inr:
  "body_read js n st = Inr ((bytes, model), rest) \<longleftrightarrow>
     unat n \<le> length (st_bytes st) \<and> bytes = take (unat n) (st_bytes st) \<and>
     rest = st\<lparr>st_bytes := drop (unat n) (st_bytes st)\<rparr> \<and>
     (\<exists>v. js_parse js bytes = Inr v \<and> json_get v ''model'' = Some (JString model))"
  by (auto simp: body_read_def read_exact_def bind_eq_Some_conv split: sum.splits option.splits if_splits)

lemma declared_body_Inr: "declared_body len = Inr n \<longleftrightarrow> len = Given n \<and> n \<le> max_body_bytes"
  by (auto simp: declared_body_def split: length_said.splits if_splits)

definition interim_written :: "sink \<Rightarrow> sink \<Rightarrow> bool" where
  "interim_written sk sk' \<longleftrightarrow> sk' = sk \<or> (\<exists>ok. write_all proceed_line sk = (ok, sk'))"

lemma route_Routed:
  assumes "route sv h st sk = Routed wanted buffered rest sk'" and "own_reply sv h w = None"
  shows "names_model sv h st wanted \<and> interim_written sk sk' \<and>
    (case buffered of
       None \<Rightarrow> rest = st \<and> sk' = sk
     | Some bytes \<Rightarrow> bytes = take (unat (body_bytes h)) (st_bytes st))"
proof (cases "hd_endpoint h")
  case (Generic path)
  obtain n where n: "declared_body (hd_length h) = Inr n" using assms(1) Generic by (auto simp: route_def split: sum.splits)
  obtain ok sk1 where p: "(if hd_expects_continue h then write_all proceed_line sk else (True, sk)) = (ok, sk1)" by fastforce
  have "ok" using assms(1) Generic n p by (cases ok) (auto simp: route_def)
  then obtain bytes model st1 where b: "body_read (an_json sv) n st = Inr ((bytes, model), st1)"
    using assms(1) Generic n p by (auto simp: route_def split: sum.splits)
  have out: "wanted = model" "buffered = Some bytes" "rest = st1" "sk' = sk1"
    using assms(1) Generic n p b \<open>ok\<close> by (auto simp: route_def)
  have "interim_written sk sk1" using p by (auto simp: interim_written_def split: if_splits)
  then show ?thesis
    using b n Generic out unfolding body_read_Inr declared_body_Inr
    by (auto simp: names_model_def body_bytes_def)
qed (use assms in \<open>auto simp: route_def own_reply_def names_model_def interim_written_def Let_def\<close>)

text \<open>An answer the router gives on its own: no child is involved and the world stands.\<close>

definition said_in :: "serving \<Rightarrow> sink \<Rightarrow> answered \<Rightarrow> bool" where
  "said_in sv sk a \<longleftrightarrow> (\<exists>r. routers_own (an_json sv) r \<and> reply_write r sk = (aw_ok a, aw_caller a))"

definition answered_alone :: "serving \<Rightarrow> sink \<Rightarrow> world \<Rightarrow> answered \<Rightarrow> bool" where
  "answered_alone sv sk w a \<longleftrightarrow> aw_world a = w \<and> aw_relayed a = None \<and>
     (\<exists>sk1. interim_written sk sk1 \<and>
        (said_in sv sk1 a \<or>
         aw_caller a = sk1 \<and> \<not> aw_ok a \<and> write_all proceed_line sk = (False, sk1)))"

lemma interim_unwritten: "interim_written sk sk"
  by (simp add: interim_written_def)

text \<open>Only the router's own choice of methods is ever listed in a refusal.\<close>

definition method_free :: "http_refusal \<Rightarrow> bool" where
  "method_free r \<longleftrightarrow> (\<forall>methods. rf_cause r \<noteq> MethodNotAllowed methods)"

lemma head_read_free: "head_read st = Inl r \<Longrightarrow> method_free r"
proof -
  have "head_read_loop n ls st = Inl r \<Longrightarrow> method_free r" for n ls st
  proof (induction n ls st rule: head_read_loop.induct)
    case (1 already ls st)
    then show ?case
      by (subst (asm) (2) head_read_loop.simps)
        (auto simp: Let_def method_free_def unread_def refusal_new_def split: if_splits sum.splits; blast)
  qed
  then show "head_read st = Inl r \<Longrightarrow> method_free r" by (simp add: head_read_def)
qed

lemma endpoint_free: "endpoint_of path = Inl r \<Longrightarrow> method_free r"
  by (auto simp: endpoint_of_def dedicated_of_def path_not_served_def refusal_new_def method_free_def Let_def
      split: if_splits option.splits)

lemma head_parse_free: "head_parse ls = Inl r \<Longrightarrow> method_free r"
  using endpoint_free
  by (auto simp: head_parse_def malformed_def refusal_new_def method_free_def attempt_Inl split: list.splits)

lemma refusals_free:
  "framing h = Inl r \<Longrightarrow> method_free r" "declared_body len = Inl r \<Longrightarrow> method_free r"
  "body_read js n st = Inl r \<Longrightarrow> method_free r" "method_free (refusal_from f)"
  "method_free (refusal_new ModelNotFound message)"
  by (auto simp: framing_def declared_body_def body_read_def refusal_from_def refusal_new_def method_free_def
      split: if_splits length_said.splits sum.splits option.splits failure.splits)

lemma route_free: "route sv h rest sk = Misrouted r sk1 \<Longrightarrow> method_free r"
  by (auto simp: route_def dest: refusals_free(2,3) split: endpoint.splits sum.splits if_splits bool.splits prod.splits)

lemma turned_away_said: "method_free r \<Longrightarrow> said_in sv sk (turn_away sv r sk w)"
  unfolding said_in_def turn_away_def refuse_def routers_own_def method_free_def
  by (intro exI [of _ "refusal_reply (an_json sv) r"]) (auto split: prod.splits)

lemma turned_away_alone: "interim_written sk sk1 \<Longrightarrow> method_free r \<Longrightarrow> answered_alone sv sk w (turn_away sv r sk1 w)"
  using turned_away_said [of r sv sk1 w] by (auto simp: answered_alone_def turn_away_def split: prod.splits)

lemma wrong_method_alone:
  "answered_alone sv sk w (turn_away sv (refusal_new (MethodNotAllowed (allowed ep)) message) sk w)"
proof -
  let ?r = "refusal_new (MethodNotAllowed (allowed ep)) message"
  have "rf_cause ?r = MethodNotAllowed methods \<longrightarrow> methods = allowed ep" for methods by (simp add: refusal_new_def)
  then have "routers_own (an_json sv) (refusal_reply (an_json sv) ?r)" unfolding routers_own_def by blast
  then have "said_in sv sk (turn_away sv ?r sk w)"
    by (auto simp: said_in_def turn_away_def refuse_def split: prod.splits)
  then show ?thesis
    using interim_unwritten [of sk] by (auto simp: answered_alone_def turn_away_def split: prod.splits)
qed

lemma said_alone: "routers_own (an_json sv) r \<Longrightarrow> answered_alone sv sk w (say r sk w)"
  by (auto simp: answered_alone_def said_in_def say_def interim_unwritten intro!: exI [of _ sk] split: prod.splits)

lemma own_reply_own: "own_reply sv h w = Some r \<Longrightarrow> routers_own (an_json sv) r"
  by (auto simp: own_reply_def routers_own_def Let_def split: endpoint.splits)

lemma preflight_own: "routers_own js (preflight_reply ep)"
  by (auto simp: routers_own_def)

lemma misrouted_interim: "route sv h rest sk = Misrouted r sk1 \<Longrightarrow> interim_written sk sk1"
  by (auto simp: route_def interim_written_def split: endpoint.splits sum.splits if_splits bool.splits prod.splits)

lemma hung_up_unwritten: "route sv h rest sk = Hung_up sk1 \<Longrightarrow> write_all proceed_line sk = (False, sk1)"
  by (auto simp: route_def split: endpoint.splits sum.splits if_splits bool.splits prod.splits)

text \<open>A request for a model: the router looked it up, or answered on its own.\<close>

lemma answer_routed:
  assumes "own_reply sv h w = None" and "framing h = Inr ()"
    and "hd_method h \<noteq> ''OPTIONS''" and "allows (hd_endpoint h) (hd_method h)"
    and run: "answer_request sv h rest sk w = Done a"
  shows "answered_alone sv sk w a \<or>
    (\<exists>e buffered rest1 sk1. asks_for sv h rest e \<and> interim_written sk sk1 \<and>
       (case buffered of None \<Rightarrow> rest1 = rest \<and> sk1 = sk | Some bytes \<Rightarrow> bytes = take (unat (body_bytes h)) (st_bytes rest)) \<and>
       answer_model sv h (e_id e) buffered rest1 sk1 w = Done a)" (is "_ \<or> ?model")
proof (cases "route sv h rest sk")
  case (Misrouted r sk1)
  then show ?thesis using assms turned_away_alone [OF misrouted_interim [OF Misrouted] route_free [OF Misrouted]]
    by (auto simp: answer_request_def)
next
  case (Hung_up sk1)
  from hung_up_unwritten [OF this] show ?thesis
    using assms Hung_up by (auto simp: answer_request_def answered_alone_def interim_written_def)
next
  case (Routed wanted buffered rest1 sk1)
  note routed = route_Routed [OF Routed assms(1)]
  have model: "answer_model sv h wanted buffered rest1 sk1 w = Done a"
    using assms Routed by (simp add: answer_request_def)
  show ?thesis
  proof (cases "catalog_entry (an_catalog sv) wanted")
    case None
    then show ?thesis using model turned_away_alone [OF _ refusals_free(5)] routed by (auto simp: answer_model_def)
  next
    case (Some e)
    have "(\<exists>i s. hd_endpoint h = Dedicated i s) \<or> (\<exists>p. hd_endpoint h = Generic p)"
      using assms(1) by (cases "hd_endpoint h") (auto simp: own_reply_def)
    then have "hd_method h = ''GET'' \<or> hd_method h = ''POST''" using assms(3,4) allows_model by auto
    moreover have "e_id e = wanted" using Some by (rule catalog_entry_id)
    ultimately have "?model" using Some routed model assms(2) by (auto simp: asks_for_def)
    then show ?thesis ..
  qed
qed

lemma answer_request_to_model:
  assumes "answer_request sv h rest sk w = Done a"
  shows "answered_alone sv sk w a \<or>
    (\<exists>e buffered rest1 sk1. asks_for sv h rest e \<and> interim_written sk sk1 \<and>
       (case buffered of None \<Rightarrow> rest1 = rest \<and> sk1 = sk | Some bytes \<Rightarrow> bytes = take (unat (body_bytes h)) (st_bytes rest)) \<and>
       answer_model sv h (e_id e) buffered rest1 sk1 w = Done a)"
proof -
  consider "hd_method h = ''OPTIONS''" | "hd_method h \<noteq> ''OPTIONS''" "\<not> allows (hd_endpoint h) (hd_method h)"
    | r where "hd_method h \<noteq> ''OPTIONS''" "allows (hd_endpoint h) (hd_method h)" "framing h = Inl r"
    | r where "hd_method h \<noteq> ''OPTIONS''" "allows (hd_endpoint h) (hd_method h)" "framing h = Inr ()" "own_reply sv h w = Some r"
    | "hd_method h \<noteq> ''OPTIONS''" "allows (hd_endpoint h) (hd_method h)" "framing h = Inr ()" "own_reply sv h w = None"
    by (cases "framing h"; cases "own_reply sv h w") auto
  then show ?thesis
  proof cases
    case 5
    from answer_routed [OF 5(4,3,1,2) assms] show ?thesis .
  qed (use assms turned_away_alone [OF interim_unwritten refusals_free(1)] wrong_method_alone said_alone preflight_own
      own_reply_own in \<open>auto simp: answer_request_def\<close>)
qed

lemma answer_to_modelled:
  assumes "answer_to sv st sk w = Done a"
  shows "answered_alone sv sk w a \<or>
    (\<exists>ls rest h e buffered rest1 sk1. head_read st = Inr (ls, rest) \<and> head_parse ls = Inr h \<and> asks_for sv h rest e \<and>
       interim_written sk sk1 \<and>
       (case buffered of None \<Rightarrow> rest1 = rest \<and> sk1 = sk | Some bytes \<Rightarrow> bytes = take (unat (body_bytes h)) (st_bytes rest)) \<and>
       answer_model sv h (e_id e) buffered rest1 sk1 w = Done a)"
proof (cases "head_read st")
  case (Inl r)
  then show ?thesis using assms turned_away_alone [OF interim_unwritten head_read_free] by (auto simp: answer_to_def)
next
  case (Inr lr)
  obtain ls rest where lr: "lr = (ls, rest)" by (cases lr)
  show ?thesis
  proof (cases "head_parse ls")
    case (Inl r)
    then show ?thesis using assms turned_away_alone [OF interim_unwritten head_parse_free] Inr lr by (auto simp: answer_to_def)
  next
    case h: (Inr h)
    have "answer_request sv h rest sk w = Done a" using assms Inr lr h by (simp add: answer_to_def)
    from answer_request_to_model [OF this] show ?thesis using Inr lr h by blast
  qed
qed

lemmas answer_to_model = answer_to_modelled [unfolded answered_alone_def]

lemma relay_caller:
  assumes "relay_run pieces connect h c body st down = r"
  shows "if rr_ok r
    then (\<exists>server. connect c = Some server \<and>
      sk_written (rr_caller r) = sk_written down @ accepted down (st_bytes (up_answer server (rr_sent r))))
    else rr_caller r = down"
proof (cases "connect c")
  case (Some server)
  obtain ok up where w: "write_all (rewrite h (child_endpoint c)) \<lparr>sk_written = [], sk_takes = up_takes server\<rparr> = (ok, up)"
    by fastforce
  show ?thesis
  proof (cases ok)
    case True
    obtain ok2 st2 up2 where b: "(case body of
          Some bytes \<Rightarrow> (case write_all bytes up of (ok, up) \<Rightarrow> (ok, st, up))
        | None \<Rightarrow> forward_body pieces 0 (unat (body_bytes h)) st up) = (ok2, st2, up2)"
      by (metis prod_cases3)
    obtain trace down2 where c: "copy_response pieces 0 (up_answer server (sk_written up2)) down = (trace, down2)" by fastforce
    show ?thesis using assms Some w True b copy_response_exact [OF c] c
      by (cases ok2) (auto simp: relay_run_def)
  next
    case False
    then show ?thesis using assms Some w by (auto simp: relay_run_def)
  qed
qed (use assms in \<open>auto simp: relay_run_def\<close>)

lemma answer_model_cases:
  assumes "answer_model sv h (e_id e) buffered rest sk w = Done a" and "catalog_entry (an_catalog sv) (e_id e) = Some e"
  obtains (failed) f w1 where "child_for (an_fuel sv) (an_surroundings sv) (an_launcher sv) (an_slots sv)
        (c_entries (an_catalog sv)) e (an_now sv) w = Done (Inl f, w1)" "a = turn_away sv (refusal_from f) sk w1"
    | (hung) c w1 sk1 where "child_for (an_fuel sv) (an_surroundings sv) (an_launcher sv) (an_slots sv)
        (c_entries (an_catalog sv)) e (an_now sv) w = Done (Inr c, w1)" "write_all proceed_line sk = (False, sk1)"
        "a = \<lparr>aw_ok = False, aw_caller = sk1, aw_world = drop_child c w1, aw_relayed = None\<rparr>"
    | (relayed) c w1 sk1 r where "child_for (an_fuel sv) (an_surroundings sv) (an_launcher sv) (an_slots sv)
        (c_entries (an_catalog sv)) e (an_now sv) w = Done (Inr c, w1)" "interim_written sk sk1"
        "buffered \<noteq> None \<longrightarrow> sk1 = sk"
        "relay_run (an_pieces sv) (an_connect sv) h c buffered rest sk1 = r"
        "a = \<lparr>aw_ok = rr_ok r, aw_caller = rr_caller r,
           aw_world = drop_child c (touch (e_id e) (an_after sv) (an_meanwhile sv w1)), aw_relayed = Some (c, r)\<rparr>"
proof (cases "child_for (an_fuel sv) (an_surroundings sv) (an_launcher sv) (an_slots sv)
        (c_entries (an_catalog sv)) e (an_now sv) w")
  case (Done cw)
  obtain fc w1 where cw: "cw = (fc, w1)" by (cases cw)
  show ?thesis
  proof (cases fc)
    case (Inl f)
    then show ?thesis using assms Done cw failed by (simp add: answer_model_def)
  next
    case (Inr c)
    obtain ok sk1 where p: "(if buffered = None \<and> hd_expects_continue h \<and> 0 < body_bytes h
        then write_all proceed_line sk else (True, sk)) = (ok, sk1)" by fastforce
    show ?thesis
    proof (cases ok)
      case False
      then have "write_all proceed_line sk = (False, sk1)" using p by (simp split: if_splits)
      moreover have "a = \<lparr>aw_ok = False, aw_caller = sk1, aw_world = drop_child c w1, aw_relayed = None\<rparr>"
        using assms Done cw Inr p False by (simp add: answer_model_def)
      ultimately show ?thesis using hung Done cw Inr by simp
    next
      case True
      have "interim_written sk sk1" "buffered \<noteq> None \<longrightarrow> sk1 = sk"
        using p by (auto simp: interim_written_def split: if_splits)
      moreover have "a = \<lparr>aw_ok = rr_ok (relay_run (an_pieces sv) (an_connect sv) h c buffered rest sk1),
          aw_caller = rr_caller (relay_run (an_pieces sv) (an_connect sv) h c buffered rest sk1),
          aw_world = drop_child c (touch (e_id e) (an_after sv) (an_meanwhile sv w1)),
          aw_relayed = Some (c, relay_run (an_pieces sv) (an_connect sv) h c buffered rest sk1)\<rparr>"
        using assms Done cw Inr p True by (simp add: answer_model_def Let_def)
      ultimately show ?thesis using relayed Done cw Inr by simp
    qed
  qed
qed (use assms in \<open>simp_all add: answer_model_def\<close>)

lemma relayed_run:
  assumes "answer_to sv st sk w = Done a" and "aw_relayed a = Some (c, r)"
  obtains ls rest h e buffered rest1 sk1 w1 where "head_read st = Inr (ls, rest)" "head_parse ls = Inr h"
    "asks_for sv h rest e" "child_for (an_fuel sv) (an_surroundings sv) (an_launcher sv) (an_slots sv)
      (c_entries (an_catalog sv)) e (an_now sv) w = Done (Inr c, w1)"
    "interim_written sk sk1" "relay_run (an_pieces sv) (an_connect sv) h c buffered rest1 sk1 = r"
    "case buffered of None \<Rightarrow> rest1 = rest | Some bytes \<Rightarrow> bytes = take (unat (body_bytes h)) (st_bytes rest)"
    "aw_ok a = rr_ok r" "aw_caller a = rr_caller r"
proof -
  obtain ls rest h e buffered rest1 sk1 where m: "head_read st = Inr (ls, rest)" "head_parse ls = Inr h" "asks_for sv h rest e"
      "interim_written sk sk1"
      "(case buffered of None \<Rightarrow> rest1 = rest \<and> sk1 = sk | Some bytes \<Rightarrow> bytes = take (unat (body_bytes h)) (st_bytes rest))"
      "answer_model sv h (e_id e) buffered rest1 sk1 w = Done a"
    using answer_to_model [OF assms(1)] assms(2) by fastforce
  have entry: "catalog_entry (an_catalog sv) (e_id e) = Some e" using m(3) by (simp add: asks_for_def)
  from m(6) entry show ?thesis
  proof (cases rule: answer_model_cases)
    case (failed f w1)
    then show ?thesis using assms(2) by (auto simp: turn_away_def split: prod.splits)
  next
    case (hung c1 w1 sk2)
    then show ?thesis using assms(2) by simp
  next
    case (relayed c1 w1 sk2 r1)
    then have cr: "c1 = c" "r1 = r" using assms(2) by simp_all
    have "interim_written sk sk2" using relayed(2,3) m(4,5) by (cases buffered) auto
    moreover have "case buffered of None \<Rightarrow> rest1 = rest | Some bytes \<Rightarrow> bytes = take (unat (body_bytes h)) (st_bytes rest)"
      using m(5) by (cases buffered) auto
    ultimately show ?thesis using that [OF m(1-3)] relayed(1,4,5) cr by simp
  qed
qed

text \<open>A connection that is not relayed is written one reply of the router's own, or nothing when the caller is gone.\<close>

lemma unrelayed_own:
  assumes "answer_to sv st sk w = Done a" and "aw_relayed a = None"
  obtains sk1 where "interim_written sk sk1"
    "said_in sv sk1 a \<or> (\<exists>sk2. write_all proceed_line sk2 = (False, aw_caller a) \<and> interim_written sk sk2)"
proof -
  from answer_to_model [OF assms(1)] show ?thesis
  proof (elim disjE exE conjE)
    fix ls rest h e buffered rest1 sk1
    assume asks: "asks_for sv h rest e" and interim: "interim_written sk sk1"
      and model: "answer_model sv h (e_id e) buffered rest1 sk1 w = Done a"
    have "catalog_entry (an_catalog sv) (e_id e) = Some e" using asks by (simp add: asks_for_def)
    with model show ?thesis
    proof (cases rule: answer_model_cases)
      case (failed f w1)
      then have "said_in sv sk1 a" using turned_away_said [OF refusals_free(4)] by simp
      then show ?thesis using that interim by blast
    next
      case (hung c w1 sk2)
      then show ?thesis using that interim by auto
    next
      case (relayed c w1 sk2 r)
      then show ?thesis using assms(2) by simp
    qed
  next
    fix sk1
    assume "interim_written sk sk1" "aw_caller a = sk1" "write_all proceed_line sk = (False, sk1)"
    then show ?thesis using that [of sk1] by (auto simp: interim_written_def)
  qed (use that in blast)
qed

lemma interim_unlimited:
  "interim_written sk sk' \<Longrightarrow> sk_takes sk = None \<Longrightarrow> \<exists>interim. interim \<in> {[], proceed_line} \<and>
     sk' = sk\<lparr>sk_written := sk_written sk @ interim\<rparr>"
  by (auto simp: interim_written_def)

text \<open>
  C21: A model is touched only for a request that is one for it. When answering a connection changes
  anything about the slots, what arrived on it was a head this router reads, a \<open>GET\<close> or a \<open>POST\<close> with framing
  it implements, naming an entry of the catalog: in its path, or in the \<open>model\<close> field of a
  body of at most 8 MiB that arrived whole. Nothing else starts, unloads or even marks a model.
\<close>

theorem touched_only_for_request:
  assumes "answer_to sv st sk w = Done a" and "aw_world a \<noteq> w"
  shows "\<exists>ls rest h e. head_read st = Inr (ls, rest) \<and> head_parse ls = Inr h \<and> asks_for sv h rest e"
  using answer_to_model [OF assms(1)] assms(2) by blast

text \<open>
  C10: What a model is sent is what was asked of it. A request that is relayed is relayed to the child
  the slots gave for the entry it names; a child that keeps reading is sent the rewritten head and then the body
  the head declares, as it arrived, whether or not it was read on the way to learn the model's name.
\<close>

theorem relayed_as_asked:
  assumes "answer_to sv st sk w = Done a" and "aw_relayed a = Some (c, r)"
    and "\<forall>server. an_connect sv c = Some server \<longrightarrow> up_takes server = None" and "rr_ok r"
  shows "\<exists>ls rest h e w1. head_read st = Inr (ls, rest) \<and> head_parse ls = Inr h \<and> asks_for sv h rest e \<and>
    child_for (an_fuel sv) (an_surroundings sv) (an_launcher sv) (an_slots sv)
      (c_entries (an_catalog sv)) e (an_now sv) w = Done (Inr c, w1) \<and>
    rr_sent r = rewrite h (child_endpoint c) @ take (unat (body_bytes h)) (st_bytes rest) \<and> prompt (rr_trace r)"
proof -
  obtain ls rest h e buffered rest1 sk1 w1 where run: "head_read st = Inr (ls, rest)" "head_parse ls = Inr h"
      "asks_for sv h rest e" "child_for (an_fuel sv) (an_surroundings sv) (an_launcher sv) (an_slots sv)
        (c_entries (an_catalog sv)) e (an_now sv) w = Done (Inr c, w1)"
      "relay_run (an_pieces sv) (an_connect sv) h c buffered rest1 sk1 = r"
      "case buffered of None \<Rightarrow> rest1 = rest | Some bytes \<Rightarrow> bytes = take (unat (body_bytes h)) (st_bytes rest)"
    by (rule relayed_run [OF assms(1,2)])
  obtain server where server: "an_connect sv c = Some server" using relay_caller [OF run(5)] assms(4) by auto
  have "rr_sent r = rewrite h (child_endpoint c) @ take (unat (body_bytes h)) (st_bytes rest) \<and> prompt (rr_trace r)"
    using relay_exact [OF server assms(3) [rule_format, OF server] run(5)] run(6) by (cases buffered) auto
  then show ?thesis using run(1-4) by blast
qed

text \<open>
  C9: One connection is written one answer. To a caller that keeps listening the router writes, beside an
  interim line before it, one reply of its own and nothing of a child's, or what the child
  answered and nothing of its own; when the child's connection fails before the answer begins it
  writes nothing more, not even a status. Its own reply is a refusal, a JSON answer or a preflight, and what was
  written is that one and no more: header lines that nothing in a message ends early, one of them the length of the body,
  a blank line, and the body or, where only the head was asked for, nothing.
\<close>

theorem one_answer:
  assumes "answer_to sv st sk w = Done a" and "sk_takes sk = None"
  shows "\<exists>interim. interim \<in> {[], proceed_line} \<and>
    (case aw_relayed a of
       None \<Rightarrow> aw_ok a \<and> (\<exists>r. routers_own (an_json sv) r \<and>
         sk_written (aw_caller a) = sk_written sk @ interim @ reply_text r \<and>
         (length (rp_body r) < 2 ^ 64 \<longrightarrow> read_as_one (reply_text r) r))
     | Some (c, r) \<Rightarrow>
         if aw_ok a
         then \<exists>server. an_connect sv c = Some server \<and>
           sk_written (aw_caller a) = sk_written sk @ interim @ st_bytes (up_answer server (rr_sent r))
         else sk_written (aw_caller a) = sk_written sk @ interim)"
proof (cases "aw_relayed a")
  case None
  obtain sk1 where sk1: "interim_written sk sk1"
      "said_in sv sk1 a \<or> (\<exists>sk2. write_all proceed_line sk2 = (False, aw_caller a) \<and> interim_written sk sk2)"
    by (rule unrelayed_own [OF assms(1) None])
  obtain i where i: "i \<in> {[], proceed_line}" "sk1 = sk\<lparr>sk_written := sk_written sk @ i\<rparr>"
    using interim_unlimited [OF sk1(1) assms(2)] by blast
  have "said_in sv sk1 a" using sk1(2) interim_unlimited [OF _ assms(2)] assms(2) by fastforce
  then obtain r where r: "routers_own (an_json sv) r" "reply_write r sk1 = (aw_ok a, aw_caller a)"
    by (auto simp: said_in_def)
  then have "aw_ok a" "aw_caller a = sk\<lparr>sk_written := sk_written sk @ i @ reply_text r\<rparr>"
    using i(2) assms(2) by (auto simp: reply_write_def)
  then show ?thesis using i(1) None r(1) own_read_as_one [OF r(1)] by (intro exI [of _ i]) auto
next
  case (Some cr)
  obtain c r where cr: "cr = (c, r)" by (cases cr)
  obtain h buffered rest1 sk1 where run: "interim_written sk sk1" "relay_run (an_pieces sv) (an_connect sv) h c buffered rest1 sk1 = r"
      "aw_ok a = rr_ok r" "aw_caller a = rr_caller r"
    using relayed_run [OF assms(1) Some [unfolded cr]] by metis
  obtain i where "i \<in> {[], proceed_line}" "sk1 = sk\<lparr>sk_written := sk_written sk @ i\<rparr>"
    using interim_unlimited [OF run(1) assms(2)] by blast
  then show ?thesis using relay_caller [OF run(2)] run(3,4) Some cr assms(2)
    by (intro exI [of _ i]) (auto simp: accepted_def split: if_splits)
qed

lemma route_asked:
  assumes "names_model sv h rest wanted" and "sk_takes sk = None"
  shows "own_reply sv h w = None \<and>
    (\<exists>buffered rest1 sk1. route sv h rest sk = Routed wanted buffered rest1 sk1 \<and> sk_takes sk1 = None)"
  using assms(1) unfolding names_model_def
proof (elim disjE exE conjE)
  fix suffix
  assume "hd_endpoint h = Dedicated wanted suffix"
  then show ?thesis using assms(2) by (simp add: own_reply_def route_def)
next
  fix path n v
  assume g: "hd_endpoint h = Generic path" "hd_length h = Given n" "n \<le> max_body_bytes" "unat n \<le> length (st_bytes rest)"
    "js_parse (an_json sv) (take (unat n) (st_bytes rest)) = Inr v" "json_get v ''model'' = Some (JString wanted)"
  have "declared_body (hd_length h) = Inr n" using g(2,3) by (simp add: declared_body_Inr)
  moreover have "body_read (an_json sv) n rest = Inr ((take (unat n) (st_bytes rest), wanted),
      rest\<lparr>st_bytes := drop (unat n) (st_bytes rest)\<rparr>)"
    using g by (simp add: body_read_Inr)
  ultimately show ?thesis using g(1) assms(2) by (auto simp: own_reply_def route_def)
qed

text \<open>What a request for a model comes to, once everything before the slots has let it through.\<close>

lemma asked_answer:
  assumes "head_read st = Inr (ls, rest)" and "head_parse ls = Inr h" and "asks_for sv h rest e" and "sk_takes sk = None"
  obtains buffered rest1 sk1 where "answer_to sv st sk w = answer_model sv h (e_id e) buffered rest1 sk1 w"
    and "interim_written sk sk1" and "sk_takes sk1 = None" and "catalog_entry (an_catalog sv) (e_id e) = Some e"
proof -
  have asks: "hd_method h = ''GET'' \<or> hd_method h = ''POST''" "framing h = Inr ()" "names_model sv h rest (e_id e)"
      "catalog_entry (an_catalog sv) (e_id e) = Some e"
    using assms(3) by (simp_all add: asks_for_def)
  obtain buffered rest1 sk1 where r: "own_reply sv h w = None"
      "route sv h rest sk = Routed (e_id e) buffered rest1 sk1" "sk_takes sk1 = None"
    using route_asked [OF asks(3) assms(4)] by blast
  have "hd_method h \<noteq> ''OPTIONS'' \<and> allows (hd_endpoint h) (hd_method h)"
    using asks(1,3) allows_model by (auto simp: names_model_def)
  then have "answer_to sv st sk w = answer_model sv h (e_id e) buffered rest1 sk1 w"
    using assms(1,2) asks(2) r by (simp add: answer_to_def answer_request_def)
  moreover have "interim_written sk sk1" using route_Routed [OF r(2,1)] by blast
  ultimately show ?thesis using that r(3) asks(4) by blast
qed

text \<open>Once the slots gave a child, what is left is the relay, the touch and the handle.\<close>

lemma answer_served:
  assumes "catalog_entry (an_catalog sv) (e_id e) = Some e" and "sk_takes sk = None"
    and "child_for (an_fuel sv) (an_surroundings sv) (an_launcher sv) (an_slots sv) (c_entries (an_catalog sv)) e
      (an_now sv) w = Done (Inr c, w1)"
  shows "\<exists>a r. answer_model sv h (e_id e) buffered rest sk w = Done a \<and> aw_relayed a = Some (c, r) \<and>
    aw_world a = drop_child c (touch (e_id e) (an_after sv) (an_meanwhile sv w1))"
  unfolding answer_model_def
  by (cases "buffered = None \<and> hd_expects_continue h \<and> 0 < body_bytes h")
    (use assms in \<open>auto simp: Let_def write_all_unlimited\<close>)

lemma lend_and_return:
  assumes "wd_slots w i = Some held" and "exited w held = None" and "1 \<le> wd_strong w (ch_handle (sc_child held))"
  shows "live_child i now w = (Some (sc_child held), clone_child (sc_child held) (put_slot i (Some (held\<lparr>sc_last_used := now\<rparr>)) w))"
    and "drop_child (sc_child held) (touch i after
        (clone_child (sc_child held) (put_slot i (Some (held\<lparr>sc_last_used := now\<rparr>)) w)))
      = put_slot i (Some (held\<lparr>sc_last_used := after\<rparr>)) w"
  using assms by (auto simp: live_child_def touch_def put_slot_def clone_child_def drop_child_def Let_def fun_upd_idem)

text \<open>
  Answering a request for a loaded model costs the slots nothing. Whoever the caller is and however the relay
  ends, the model answers from the child it has, that child's handle is given back, no process is started or
  ended, and all that is left of the request is when it was over: the model was last used then.
\<close>

theorem answering_gives_back:
  assumes "head_read st = Inr (ls, rest)" and "head_parse ls = Inr h" and "asks_for sv h rest e"
    and "wd_slots w (e_id e) = Some held" and "exited w held = None"
    and "1 \<le> wd_strong w (ch_handle (sc_child held))"
    and "an_meanwhile sv = (\<lambda>w. w)" and "sk_takes sk = None"
  shows "\<exists>a r. answer_to sv st sk w = Done a \<and> aw_relayed a = Some (sc_child held, r) \<and>
    aw_world a = put_slot (e_id e) (Some (held\<lparr>sc_last_used := an_after sv\<rparr>)) w"
proof -
  obtain buffered rest1 sk1 where run: "answer_to sv st sk w = answer_model sv h (e_id e) buffered rest1 sk1 w"
      "sk_takes sk1 = None" "catalog_entry (an_catalog sv) (e_id e) = Some e"
    using asked_answer [OF assms(1,2,3,8)] by metis
  note lent = lend_and_return [OF assms(4,5,6)]
  have lend: "child_for (an_fuel sv) (an_surroundings sv) (an_launcher sv) (an_slots sv) (c_entries (an_catalog sv)) e
      (an_now sv) w = Done (Inr (sc_child held), clone_child (sc_child held)
        (put_slot (e_id e) (Some (held\<lparr>sc_last_used := an_now sv\<rparr>)) w))"
    using lent(1) [of "an_now sv"] by (simp add: child_for_def)
  from answer_served [OF run(3,2) lend] show ?thesis unfolding run(1) using lent(2) assms(7) by fastforce
qed

section \<open>A concrete connection\<close>

definition sample_model :: entry where
  "sample_model = \<lparr>e_id = ''m'', e_path = RelativePath ''m.gguf'', e_draft_path = None,
     e_projector_path = None, e_context_size = 4096, e_residency = OnDemand, e_memory_estimate_mib = 100,
     e_reasoning_format = None, e_reasoning_effort = None, e_startup_timeout_seconds = 1,
     e_runtime = None, e_flags = []\<rparr>"

definition sample_json :: json_crate where
  "sample_json = \<lparr>js_print = (\<lambda>_. ''{}''),
     js_parse = (\<lambda>s. if s = ''M'' then Inr (JObject [(''model'', JString ''m'')]) else Inl ''expected value'')\<rparr>"

definition sample_held :: slot_child where
  "sample_held = \<lparr>sc_child = \<lparr>ch_id = ''m'', ch_port = 80, ch_pid = 1, ch_handle = 7\<rparr>, sc_last_used = Instant 0,
     sc_measured = unknown_measurement\<rparr>"

definition sample_world :: world where
  "sample_world = \<lparr>wd_slots = [''m'' \<mapsto> sample_held], wd_strong = (\<lambda>_. 1), wd_process = (\<lambda>_. Running), wd_ended = []\<rparr>"

definition sample_upstream :: upstream where
  "sample_upstream = \<lparr>up_takes = None, up_answer = (\<lambda>_. \<lparr>st_bytes = ''HTTP/1.1 200 OK'', st_end = None\<rparr>)\<rparr>"

definition sample_serving :: serving where
  "sample_serving =
     \<lparr>an_json = sample_json,
      an_catalog = \<lparr>c_version = 1, c_entries = [sample_model], c_derived = {}, c_discovered = {}\<rparr>,
      an_slots = \<lparr>sl_budget = budget_new None, sl_wait = Wait 0\<rparr>,
      an_launcher = \<lparr>la_model_file = (\<lambda>_. Inr ()), la_start = (\<lambda>_. Inl (Unavailable ''no server'')),
        la_measure = (\<lambda>_. unknown_measurement)\<rparr>,
      an_surroundings = \<lparr>su_clock = Instant, su_device_free = (\<lambda>_. None), su_others = (\<lambda>_ w. w)\<rparr>, an_fuel = 1,
      an_now = Instant 5, an_connect = (\<lambda>_. Some sample_upstream), an_pieces = (\<lambda>_. 3),
      an_meanwhile = (\<lambda>w. w), an_after = Instant 9\<rparr>"

definition sample_caller :: sink where "sample_caller = \<lparr>sk_written = [], sk_takes = None\<rparr>"

definition generic_lines :: "string list" where
  "generic_lines = [''POST /v1/chat/completions HTTP/1.1'', ''Content-Length: 1'']"

definition generic_head :: head where
  "generic_head =
     \<lparr>hd_method = ''POST'', hd_endpoint = Generic ''/v1/chat/completions'',
      hd_headers = [(''Content-Length'', ''1'')], hd_length = Given 1, hd_chunked = False, hd_expects_continue = False\<rparr>"

definition sample_stream :: stream where
  "sample_stream = \<lparr>st_bytes = head_text generic_lines @ ''M'', st_end = None\<rparr>"

lemma sample_request:
  "head_read sample_stream = Inr (generic_lines, \<lparr>st_bytes = ''M'', st_end = None\<rparr>)"
  "head_parse generic_lines = Inr generic_head"
  "asks_for sample_serving generic_head \<lparr>st_bytes = ''M'', st_end = None\<rparr> sample_model"
proof -
  have "list_all plain_line generic_lines" "list_all (list_all (\<lambda>c. code c < 0x80)) generic_lines" by code_simp+
  then have "\<forall>l \<in> set generic_lines. plain_line l \<and> utf8_valid l" by (auto simp: list_all_iff [of _ generic_lines] intro: utf8_valid_ascii)
  then show "head_read sample_stream = Inr (generic_lines, \<lparr>st_bytes = ''M'', st_end = None\<rparr>)"
    unfolding sample_stream_def by (intro head_read_text) (simp_all add: generic_lines_def head_text_def)
  show "head_parse generic_lines = Inr generic_head" by code_simp
  show "asks_for sample_serving generic_head \<lparr>st_bytes = ''M'', st_end = None\<rparr> sample_model"
    by (simp add: asks_for_def names_model_def generic_head_def sample_serving_def sample_json_def framing_def
        max_body_bytes_def json_get_def catalog_entry_def sample_model_def)
qed

lemma sample_loaded:
  "wd_slots sample_world (e_id sample_model) = Some sample_held" "exited sample_world sample_held = None"
  "1 \<le> wd_strong sample_world (ch_handle (sc_child sample_held))"
  "an_meanwhile sample_serving = (\<lambda>w. w)" "sk_takes sample_caller = None"
  by (simp_all add: sample_world_def sample_model_def exited_def sample_serving_def sample_caller_def)

theorem answering_gives_back_witness:
  "\<exists>a r. answer_to sample_serving sample_stream sample_caller sample_world = Done a \<and>
     aw_relayed a = Some (sc_child sample_held, r) \<and>
     aw_world a = put_slot ''m'' (Some (sample_held\<lparr>sc_last_used := Instant 9\<rparr>)) sample_world"
  using answering_gives_back [OF sample_request sample_loaded]
  by (simp add: sample_serving_def [THEN arg_cong [of _ _ an_after]] sample_model_def [THEN arg_cong [of _ _ e_id]])

lemma sample_answer:
  "\<exists>a c r. answer_to sample_serving sample_stream sample_caller sample_world = Done a \<and> aw_relayed a = Some (c, r) \<and> rr_ok r"
proof -
  have "case answer_to sample_serving sample_stream sample_caller sample_world of
      Done a \<Rightarrow> (case aw_relayed a of Some (c, r) \<Rightarrow> rr_ok r | None \<Rightarrow> False) | _ \<Rightarrow> False"
    by code_simp
  then show ?thesis by (auto split: run.splits option.splits prod.splits)
qed

lemma sample_upstream_keeps_reading:
  "\<forall>server. an_connect sample_serving c = Some server \<longrightarrow> up_takes server = None"
  by (auto simp: sample_serving_def sample_upstream_def)

theorem relayed_as_asked_witness:
  "\<exists>a c r h (rest :: stream). answer_to sample_serving sample_stream sample_caller sample_world = Done a \<and> aw_relayed a = Some (c, r) \<and>
     rr_sent r = rewrite h (child_endpoint c) @ take (unat (body_bytes h)) (st_bytes rest)"
proof -
  obtain a c r where a: "answer_to sample_serving sample_stream sample_caller sample_world = Done a"
      "aw_relayed a = Some (c, r)" "rr_ok r"
    using sample_answer by blast
  obtain rest :: stream and h where "rr_sent r = rewrite h (child_endpoint c) @ take (unat (body_bytes h)) (st_bytes rest)"
    using relayed_as_asked [OF a(1,2) sample_upstream_keeps_reading a(3)] by (elim exE conjE) simp
  with a(1,2) show ?thesis by (intro exI conjI)
qed

text \<open>A caller that asks for nothing the router serves is told so, in one reply.\<close>

definition stray_stream :: stream where
  "stray_stream = \<lparr>st_bytes = ''GET /nowhere HTTP/1.1'' @ crlf @ crlf, st_end = None\<rparr>"

lemma stray_answer:
  "\<exists>a. answer_to sample_serving stray_stream sample_caller sample_world = Done a \<and> aw_relayed a = None"
proof -
  have "case answer_to sample_serving stray_stream sample_caller sample_world of
      Done a \<Rightarrow> aw_relayed a = None | _ \<Rightarrow> False"
    by code_simp
  then show ?thesis by (auto split: run.splits)
qed

theorem one_answer_witness:
  "\<exists>a r. answer_to sample_serving stray_stream sample_caller sample_world = Done a \<and>
     routers_own (an_json sample_serving) r \<and> (\<exists>interim. sk_written (aw_caller a) = interim @ reply_text r) \<and>
     (length (rp_body r) < 2 ^ 64 \<longrightarrow> read_as_one (reply_text r) r)"
proof -
  obtain a where a: "answer_to sample_serving stray_stream sample_caller sample_world = Done a" "aw_relayed a = None"
    using stray_answer by blast
  have empty: "sk_takes sample_caller = None" "sk_written sample_caller = []" by (simp_all add: sample_caller_def)
  from one_answer [OF a(1) empty(1)] show ?thesis unfolding a(2) option.case empty(2) using a(1) by auto
qed

theorem touched_only_for_request_witness:
  "\<exists>a ls rest h e. answer_to sample_serving sample_stream sample_caller sample_world = Done a \<and>
     head_read sample_stream = Inr (ls, rest) \<and> head_parse ls = Inr h \<and> asks_for sample_serving h rest e"
proof -
  have "case answer_to sample_serving sample_stream sample_caller sample_world of
      Done a \<Rightarrow> (case wd_slots (aw_world a) ''m'' of Some held \<Rightarrow> sc_last_used held = Instant 9 | None \<Rightarrow> False) | _ \<Rightarrow> False"
    by code_simp
  then obtain a where a: "answer_to sample_serving sample_stream sample_caller sample_world = Done a"
      "case wd_slots (aw_world a) ''m'' of Some held \<Rightarrow> sc_last_used held = Instant 9 | None \<Rightarrow> False"
    by (cases "answer_to sample_serving sample_stream sample_caller sample_world") auto
  have "wd_slots sample_world ''m'' = Some sample_held" "sc_last_used sample_held = Instant 0"
    by (simp_all add: sample_world_def sample_held_def)
  then have "aw_world a \<noteq> sample_world" using a(2) by auto
  from touched_only_for_request [OF a(1) this] a(1) show ?thesis by blast
qed

theorem relay_transparent_witness:
  "rr_sent (relay_run (\<lambda>_. 3) (\<lambda>_. Some sample_upstream) generic_head (sc_child sample_held) (Some ''M'')
      \<lparr>st_bytes = [], st_end = None\<rparr> sample_caller) = rewrite generic_head (child_endpoint (sc_child sample_held)) @ ''M''"
  using relay_transparent [of "\<lambda>_. Some sample_upstream" "sc_child sample_held" sample_upstream "\<lambda>_. 3" generic_head
      "Some ''M''" "\<lparr>st_bytes = [], st_end = None\<rparr>" sample_caller, OF refl _ refl]
  by (simp add: sample_upstream_def)

theorem replies_framed_witness:
  "\<exists>status_line field_lines. reply_text (json_reply sample_json (JString ''a'') False)
      = head_text (status_line # field_lines) @ ''{}'' \<and>
    length_declared (header_pairs field_lines) = Given 2"
  using replies_framed [of "json_reply sample_json (JString ''a'') False" sample_json "refusal_new NoRoom ''full''" Listing "JString ''a''" False]
  by (fastforce simp: json_reply_def sample_json_def)

end
