(* ===== verification/Reaper.thy ===== *)
theory Reaper
  imports Slots Launch
begin

text \<open>
  The threads beside the accept loop: the reaper that unloads what the idle window expired
  (\<open>src/src/proxy/reaper.rs\<close>), the loader of residents (\<open>proxy/residents.rs\<close>), and what the
  router itself answers (\<open>src/src/proxy.rs\<close>). Of a tick of the reaper the machine decides how long each
  part of it takes, when the stop flag is raised, and what other threads did to the slots meanwhile; when a
  sweep happens follows from the deadlines and timeouts the code computes.
\<close>

section \<open>The reaper (reaper.rs)\<close>

definition min_interval :: duration where "min_interval = from_millis 100"

definition reaper_interval :: "duration \<Rightarrow> duration" where
  "reaper_interval d = max (d div 2) min_interval"

text \<open>
  \<open>Stop::wait\<close>, when the flag is raised at some moment or never: whether it is up when the wait is over, and when that
  is. A wait that nothing ends early is over when its timeout is, and whatever later the machine wakes the thread.
\<close>

definition stop_wait :: "instant option \<Rightarrow> instant \<Rightarrow> duration \<Rightarrow> duration \<Rightarrow> bool \<times> instant" where
  "stop_wait raised now timeout overshoot =
     (let over = Instant (nanos now + timeout + overshoot) in
      case raised of
        None \<Rightarrow> (False, over)
      | Some t \<Rightarrow> if t \<le> over then (True, min over (max now t)) else (False, over))"

text \<open>
  What the machine decides of the ticks: how long the thread takes where it does not wait, and what the others do. Every
  moment the reaper acts at follows from these and from the timeouts it computes.
\<close>

record ticks =
  tk_alive :: "nat \<Rightarrow> bool" \<comment> \<open>the router is still there at the start of the tick\<close>
  tk_first :: instant \<comment> \<open>the clock, when the first deadline is set\<close>
  tk_round :: "nat \<Rightarrow> duration" \<comment> \<open>from there, or from the sweep before, to working out how long to wait\<close>
  tk_overshoot :: "nat \<Rightarrow> duration" \<comment> \<open>how late the wait wakes up\<close>
  tk_sweeping :: "nat \<Rightarrow> duration" \<comment> \<open>from waking up to reading the clock for the idle sweep\<close>
  tk_raised :: "instant option" \<comment> \<open>when the stop flag is raised\<close>
  tk_others :: "nat \<Rightarrow> world \<Rightarrow> world"

record sweep =
  sp_deadline :: instant
  sp_timeout :: duration
  sp_at :: instant
  sp_exited :: "(string \<times> string) list"
  sp_idle :: "string list"
  sp_said :: "string list"

datatype reaper_end = Signalled | Router_gone | No_window | Clock_past_end | Still_sweeping

definition exit_line :: "string \<times> string \<Rightarrow> string" where
  "exit_line p = fst p @ '' exited on its own ('' @ snd p
     @ ''); its slot was emptied, and the next request for it starts it again''"

definition idle_line :: "string \<Rightarrow> string" where
  "idle_line i = i @ '' unloaded after sitting idle past its configured window''"

text \<open>What one tick does to the slots once its wait is over.\<close>

definition reaper_sweep :: "entry list \<Rightarrow> idle_window \<Rightarrow> instant \<Rightarrow> instant \<Rightarrow> duration \<Rightarrow> world \<Rightarrow> sweep \<times> world" where
  "reaper_sweep es window deadline now timeout w =
     (case sweep_exited es w of
        (dead, w) \<Rightarrow>
          (case sweep_idle es window now w of
             (gone, w) \<Rightarrow>
               (\<lparr>sp_deadline = deadline, sp_timeout = timeout, sp_at = now, sp_exited = dead, sp_idle = gone,
                 sp_said = map exit_line dead @ map idle_line gone\<rparr>, w)))"

fun reaper_loop ::
    "nat \<Rightarrow> ticks \<Rightarrow> entry list \<Rightarrow> idle_window \<Rightarrow> nat \<Rightarrow> instant option \<Rightarrow> instant \<Rightarrow> world \<Rightarrow> sweep list \<times> reaper_end" where
  "reaper_loop 0 tk es window n deadline clock w = ([], Still_sweeping)"
| "reaper_loop (Suc fuel) tk es window n deadline clock w =
     (if \<not> tk_alive tk n then ([], Router_gone)
      else
        (case window_duration window of
           None \<Rightarrow> ([], No_window)
         | Some d \<Rightarrow>
             (case instant_plus (unwrap_or deadline (tk_first tk)) (reaper_interval d) of
                None \<Rightarrow> ([], Clock_past_end)
              | Some next_deadline \<Rightarrow>
                  (let now = Instant (nanos clock + tk_round tk n);
                       timeout = duration_since next_deadline now in
                   case stop_wait (tk_raised tk) now timeout (tk_overshoot tk n) of
                     (True, _) \<Rightarrow> ([], Signalled)
                   | (False, woken) \<Rightarrow>
                       (let swept_at = Instant (nanos woken + tk_sweeping tk n) in
                        case reaper_sweep es window next_deadline swept_at timeout (tk_others tk n w) of
                          (s, w) \<Rightarrow>
                            (case reaper_loop fuel tk es window (Suc n) (Some next_deadline) swept_at w of
                               (trace, ending) \<Rightarrow> (s # trace, ending)))))))"

definition reaper_run :: "nat \<Rightarrow> ticks \<Rightarrow> entry list \<Rightarrow> idle_window \<Rightarrow> world \<Rightarrow> sweep list \<times> reaper_end" where
  "reaper_run fuel tk es window w = reaper_loop fuel tk es window 0 None (tk_first tk) w"

section \<open>Loading the residents (residents.rs)\<close>

text \<open>
  \<open>child_of\<close> is \<open>Shared::child\<close>; the handle it gives is dropped at once, the slot keeps its own.
\<close>

fun load_each ::
    "(entry \<Rightarrow> world \<Rightarrow> ((failure + child) \<times> world) run) \<Rightarrow> entry list \<Rightarrow> world \<Rightarrow> (string list \<times> world) run" where
  "load_each child_of [] w = Done ([], w)"
| "load_each child_of (e # es) w =
     (case child_of e w of
        Panicked \<Rightarrow> Panicked
      | Out_of_fuel \<Rightarrow> Out_of_fuel
      | Done (Inr c, w) \<Rightarrow> load_each child_of es (drop_child c w)
      | Done (Inl failure, w) \<Rightarrow>
          (case load_each child_of es w of
             Done (failures, w) \<Rightarrow> Done ((e_id e @ '': '' @ failure_text failure) # failures, w)
           | Panicked \<Rightarrow> Panicked
           | Out_of_fuel \<Rightarrow> Out_of_fuel))"

definition load_residents ::
    "(entry \<Rightarrow> world \<Rightarrow> ((failure + child) \<times> world) run) \<Rightarrow> entry list \<Rightarrow> world \<Rightarrow> (string list \<times> world) run" where
  "load_residents child_of es w = load_each child_of (filter (\<lambda>e. e_residency e = Resident) es) w"

section \<open>The router (proxy.rs)\<close>

record socket_address =
  sa_shown :: string
  sa_loopback :: bool

record router =
  rt_bound :: socket_address
  rt_catalog :: catalog
  rt_root :: string
  rt_server :: server
  rt_slots :: slots
  rt_idle_window :: idle_window
  rt_world :: world
  rt_resident_failures :: "string list"
  rt_stopped :: bool

text \<open>The listener is the operating system's: what it bound, or why not.\<close>

definition router_bind ::
    "(socket_address \<Rightarrow> string + socket_address) \<Rightarrow> socket_address \<Rightarrow> catalog \<Rightarrow> string
       \<Rightarrow> server \<Rightarrow> limits \<Rightarrow> failure + router" where
  "router_bind listen address c root sv lm =
     (if \<not> sa_loopback address
      then Inl (Unavailable (''refusing to bind '' @ sa_shown address
        @ '': serving a network is a security design this repository has not written''))
      else
        (case listen address of
           Inl error \<Rightarrow> Inl (Unavailable (''cannot bind '' @ sa_shown address @ '': '' @ error))
         | Inr bound \<Rightarrow>
             Inr \<lparr>rt_bound = bound, rt_catalog = c, rt_root = root, rt_server = sv,
                   rt_slots = \<lparr>sl_budget = lm_budget lm, sl_wait = lm_wait lm\<rparr>,
                   rt_idle_window = lm_idle_window lm,
                   rt_world = \<lparr>wd_slots = Map.empty, wd_strong = (\<lambda>_. 0), wd_process = (\<lambda>_. Running), wd_ended = []\<rparr>,
                   rt_resident_failures = [], rt_stopped = False\<rparr>))"

definition router_loaded :: "router \<Rightarrow> string list" where
  "router_loaded r = loaded_ids (c_entries (rt_catalog r)) (rt_world r)"

text \<open>\<open>ids\<close> is the order the slots come in.\<close>

definition router_stop :: "string list \<Rightarrow> router \<Rightarrow> router" where
  "router_stop ids r = r\<lparr>rt_world := clear ids (rt_world r), rt_stopped := True\<rparr>"

end
