(* ===== verification/Reaper_Laws.thy ===== *)
theory Reaper_Laws
  imports Reaper Slots_Laws
begin

text \<open>
  An idle model is unloaded within one and a half windows, however long the reaper's own sweeps
  take; and after the residents were loaded each of them has a child or a recorded reason why not.
\<close>

section \<open>A sweep misses nothing\<close>

text \<open>One tick: the invariant stands, a stale model goes, and an untouched slot is untouched.\<close>

definition named_by :: "sweep \<Rightarrow> string \<Rightarrow> bool" where
  "named_by s i \<longleftrightarrow> i \<in> fst ` set (sp_exited s) \<or> i \<in> set (sp_idle s)"

lemma reaper_sweep_step:
  assumes "refs_ok ids ext w" and "reaper_sweep es window deadline now timeout w = (s, w')"
  shows "refs_ok ids ext w' \<and> sp_at s = now \<and>
    (\<forall>i. wd_slots w' i = (if named_by s i then None else wd_slots w i))"
proof -
  obtain dead w1 where dead: "sweep_exited es w = (dead, w1)" by fastforce
  obtain gone w2 where gone: "sweep_idle es window now w1 = (gone, w2)" by fastforce
  have s: "s = \<lparr>sp_deadline = deadline, sp_timeout = timeout, sp_at = now, sp_exited = dead, sp_idle = gone,
        sp_said = map exit_line dead @ map idle_line gone\<rparr>" "w' = w2"
    using assms(2) dead gone by (simp_all add: reaper_sweep_def)
  note first = reaping.swept_refs [OF assms(1) dead [unfolded sweep_exited_def]]
  have second: "refs_ok ids ext w2 \<and> (\<forall>i. wd_slots w2 i = (if i \<in> set gone then None else wd_slots w1 i))"
  proof (cases "window_duration window")
    case None
    then show ?thesis using gone first by (auto simp: sweep_idle_def)
  next
    case (Some d)
    then obtain pairs where "swept (take_stale now d) (expired window (held_now es w1) now) w1 = (pairs, w2)" "gone = map fst pairs"
      using gone by (auto simp: sweep_idle_def split: prod.splits)
    then show ?thesis using expiring.swept_refs [of ids ext w1] first by auto
  qed
  show ?thesis using first second by (auto simp: s named_by_def)
qed

lemma reaper_sweep_takes:
  assumes "refs_ok ids ext w" and "reaper_sweep es window deadline now timeout w = (s, w')"
    and "e \<in> set es" and "e_residency e = OnDemand" and "wd_slots w (e_id e) = Some held"
    and "ext (handle_of held) = 0" and "window_duration window = Some d" and "d \<le> duration_since now (sc_last_used held)"
  shows "named_by s (e_id e)"
proof -
  obtain dead w1 where dead: "sweep_exited es w = (dead, w1)" by fastforce
  obtain pairs w2 where pairs: "swept (take_stale now d) (expired window (held_now es w1) now) w1 = (pairs, w2)" by fastforce
  have s: "sp_exited s = dead" "sp_idle s = map fst pairs"
    using assms(2,7) dead pairs by (auto simp: reaper_sweep_def sweep_idle_def)
  note first = reaping.swept_refs [OF assms(1) dead [unfolded sweep_exited_def]]
  show ?thesis
  proof (cases "e_id e \<in> fst ` set dead")
    case True
    then show ?thesis by (simp add: named_by_def s)
  next
    case False
    then have slot: "wd_slots w1 (e_id e) = Some held" using first assms(5) by simp
    have refs: "refs_ok ids ext w1" using first by simp
    have "(e_id e, ()) \<in> set pairs"
      unfolding expiring.swept_exact [OF refs pairs]
      using expired_due [OF refs assms(7,3,4) slot assms(6,8)] slot assms(6,8) by auto
    then show ?thesis by (force simp: named_by_def s)
  qed
qed

section \<open>The reaper is on time\<close>

definition deadline_at :: "ticks \<Rightarrow> duration \<Rightarrow> nat \<Rightarrow> nat" where
  "deadline_at tk d n = nanos (tk_first tk) + (n + 1) * reaper_interval d"

text \<open>
  What is asked of the machine up to tick \<open>N\<close>: the router lives and is not stopped before then, its clock does not
  reach its end, waking up and clearing away the exited children take \<open>slack\<close> at most, and all the rest of a
  round what is left of the interval.
\<close>

definition ticking :: "ticks \<Rightarrow> duration \<Rightarrow> duration \<Rightarrow> nat \<Rightarrow> bool" where
  "ticking tk d slack N \<longleftrightarrow>
     (\<forall>n \<le> N. tk_alive tk n \<and> deadline_at tk d n < instant_limit \<and>
        tk_overshoot tk n + tk_sweeping tk n \<le> slack \<and> tk_round tk n + slack \<le> reaper_interval d) \<and>
     (\<forall>raised. tk_raised tk = Some raised \<longrightarrow> deadline_at tk d N + slack < nanos raised)"

text \<open>What is asked of the other threads: they keep the slot invariant and leave this slot alone.\<close>

definition leaving_alone :: "ticks \<Rightarrow> string set \<Rightarrow> (nat \<Rightarrow> nat) \<Rightarrow> string \<Rightarrow> bool" where
  "leaving_alone tk ids ext i \<longleftrightarrow>
     (\<forall>n w. refs_ok ids ext w \<longrightarrow> refs_ok ids ext (tk_others tk n w) \<and> wd_slots (tk_others tk n w) i = wd_slots w i)"

text \<open>A wait that begins before its deadline and that nothing ends early is over when the deadline is, but for the overshoot.\<close>

lemma waits_to_deadline:
  assumes "ticking tk d slack N" and "n \<le> N" and "nanos clock + reaper_interval d \<le> deadline_at tk d n + slack"
  shows "stop_wait (tk_raised tk) (Instant (nanos clock + tk_round tk n))
      (duration_since (Instant (deadline_at tk d n)) (Instant (nanos clock + tk_round tk n))) (tk_overshoot tk n) =
    (False, Instant (deadline_at tk d n + tk_overshoot tk n))"
proof -
  have t: "tk_overshoot tk n + tk_sweeping tk n \<le> slack" "tk_round tk n + slack \<le> reaper_interval d"
      "\<And>raised. tk_raised tk = Some raised \<Longrightarrow> deadline_at tk d N + slack < nanos raised"
    using assms(1,2) by (auto simp: ticking_def)
  have early: "nanos clock + tk_round tk n \<le> deadline_at tk d n" using assms(3) t(2) by linarith
  have "deadline_at tk d n \<le> deadline_at tk d N" using assms(2) by (simp add: deadline_at_def)
  then have "\<not> raised \<le> Instant (deadline_at tk d n + tk_overshoot tk n)" if "tk_raised tk = Some raised" for raised
    using t(1) t(3) [OF that] by (simp add: less_eq_instant_def)
  then show ?thesis using early by (auto simp: stop_wait_def duration_since_def Let_def split: option.split)
qed

lemma reaper_loop_names:
  assumes "ticking tk d slack N" and "leaving_alone tk ids ext (e_id e)"
    and "e \<in> set es" and "e_residency e = OnDemand" and "window_duration window = Some d"
    and "ext (handle_of held) = 0" and "nanos (sc_last_used held) + d \<le> deadline_at tk d N"
  shows "n \<le> N \<Longrightarrow> N - n < fuel \<Longrightarrow> refs_ok ids ext w \<Longrightarrow> wd_slots w (e_id e) = Some held \<Longrightarrow>
    nanos (unwrap_or deadline (tk_first tk)) + reaper_interval d = deadline_at tk d n \<Longrightarrow>
    nanos clock + reaper_interval d \<le> deadline_at tk d n + slack \<Longrightarrow>
    \<exists>s \<in> set (fst (reaper_loop fuel tk es window n deadline clock w)). named_by s (e_id e) \<and>
      nanos (sp_at s) \<le> deadline_at tk d N + slack"
proof (induction fuel arbitrary: n deadline clock w)
  case (Suc fuel)
  have t: "tk_alive tk n" "deadline_at tk d n < instant_limit" "tk_overshoot tk n + tk_sweeping tk n \<le> slack"
    using assms(1) Suc.prems(1) by (simp_all add: ticking_def)
  let ?next = "Instant (deadline_at tk d n)" and ?now = "Instant (nanos clock + tk_round tk n)"
  let ?at = "Instant (deadline_at tk d n + tk_overshoot tk n + tk_sweeping tk n)"
  have next_at: "instant_plus (unwrap_or deadline (tk_first tk)) (reaper_interval d) = Some ?next"
    using t(2) Suc.prems(5) by (simp add: instant_plus_def)
  note wait = waits_to_deadline [OF assms(1) Suc.prems(1,6)]
  obtain s w1 where s: "reaper_sweep es window ?next ?at (duration_since ?next ?now) (tk_others tk n w) = (s, w1)" by fastforce
  have others: "refs_ok ids ext (tk_others tk n w)" "wd_slots (tk_others tk n w) (e_id e) = Some held"
    using assms(2) Suc.prems(3,4) by (auto simp: leaving_alone_def)
  note step = reaper_sweep_step [OF others(1) s]
  obtain trace ending where rest: "reaper_loop fuel tk es window (Suc n) (Some ?next) ?at w1 = (trace, ending)" by fastforce
  have run: "fst (reaper_loop (Suc fuel) tk es window n deadline clock w) = s # trace"
    using t(1) next_at wait s rest assms(5) by (simp add: Let_def)
  have mono: "deadline_at tk d n \<le> deadline_at tk d N" using Suc.prems(1) by (simp add: deadline_at_def)
  show ?case
  proof (cases "named_by s (e_id e)")
    case True
    then show ?thesis unfolding run using step t(3) mono by auto
  next
    case False
    have "n \<noteq> N"
    proof
      assume "n = N"
      then have "d \<le> duration_since ?at (sc_last_used held)"
        using assms(7) by (simp add: duration_since_def)
      then show False using reaper_sweep_takes [OF others(1) s assms(3,4) others(2) assms(6,5)] False by blast
    qed
    then have "Suc n \<le> N" "N - Suc n < fuel" using Suc.prems(1,2) by linarith+
    moreover have "nanos (unwrap_or (Some ?next) (tk_first tk)) + reaper_interval d = deadline_at tk d (Suc n)"
      "nanos ?at + reaper_interval d \<le> deadline_at tk d (Suc n) + slack"
      using t(3) by (simp_all add: deadline_at_def)
    moreover have "wd_slots w1 (e_id e) = Some held" using step False others(2) by simp
    ultimately have "\<exists>s \<in> set trace. named_by s (e_id e) \<and> nanos (sp_at s) \<le> deadline_at tk d N + slack"
      using Suc.IH [of "Suc n" w1 "Some ?next" ?at] step rest by simp
    then show ?thesis unfolding run by auto
  qed
qed simp

section \<open>The stop ends it\<close>

text \<open>However late the thread is, a wait whose deadline is not before the signal ends with it.\<close>

lemma stop_heard:
  assumes "nanos raised \<le> deadline"
  shows "fst (stop_wait (Some raised) now (duration_since (Instant deadline) now) overshoot)"
  using assms by (auto simp: stop_wait_def duration_since_def less_eq_instant_def Let_def)

lemma reaper_loop_stopped:
  assumes raised: "tk_raised tk = Some raised" and "window_duration window = Some d"
    and "\<forall>n \<le> N. tk_alive tk n \<and> deadline_at tk d n < instant_limit" and "nanos raised \<le> deadline_at tk d N"
  shows "n \<le> N \<Longrightarrow> N - n < fuel \<Longrightarrow>
    nanos (unwrap_or deadline (tk_first tk)) + reaper_interval d = deadline_at tk d n \<Longrightarrow>
    (\<exists>trace. reaper_loop fuel tk es window n deadline clock w = (trace, Signalled) \<and> length trace \<le> N - n \<and>
       (\<forall>s \<in> set trace. sp_deadline s < raised))"
proof (induction fuel arbitrary: n deadline clock w)
  case (Suc fuel)
  have t: "tk_alive tk n" "deadline_at tk d n < instant_limit" using assms(3) Suc.prems(1) by simp_all
  let ?next = "Instant (deadline_at tk d n)" and ?now = "Instant (nanos clock + tk_round tk n)"
  have next_at: "instant_plus (unwrap_or deadline (tk_first tk)) (reaper_interval d) = Some ?next"
    using t(2) Suc.prems(3) by (simp add: instant_plus_def)
  obtain up woken where wait: "stop_wait (Some raised) ?now (duration_since ?next ?now) (tk_overshoot tk n) = (up, woken)"
    by fastforce
  show ?case
  proof (cases up)
    case True
    then show ?thesis using t(1) next_at assms(2) wait raised by (simp add: Let_def)
  next
    case False
    then have "\<not> nanos raised \<le> deadline_at tk d n" using stop_heard [of raised "deadline_at tk d n"] wait by (metis fst_conv)
    then have before: "?next < raised" unfolding less_instant_def by simp
    let ?at = "Instant (nanos woken + tk_sweeping tk n)"
    obtain s w1 where s: "reaper_sweep es window ?next ?at (duration_since ?next ?now) (tk_others tk n w) = (s, w1)" by fastforce
    have "n \<noteq> N" using \<open>\<not> nanos raised \<le> deadline_at tk d n\<close> assms(4) by blast
    then have "Suc n \<le> N" "N - Suc n < fuel" using Suc.prems(1,2) by linarith+
    moreover have "nanos (unwrap_or (Some ?next) (tk_first tk)) + reaper_interval d = deadline_at tk d (Suc n)"
      by (simp add: deadline_at_def)
    ultimately obtain trace where rest: "reaper_loop fuel tk es window (Suc n) (Some ?next) ?at w1 = (trace, Signalled)"
        "length trace \<le> N - Suc n" "\<forall>s \<in> set trace. sp_deadline s < raised"
      using Suc.IH [of "Suc n" "Some ?next" ?at w1] by blast
    have "sp_deadline s = ?next" using s by (auto simp: reaper_sweep_def split: prod.splits)
    then show ?thesis using False t(1) next_at s rest assms(2) before \<open>Suc n \<le> N\<close> wait raised by (auto simp: Let_def)
  qed
qed simp

text \<open>
  Once the stop is signalled the reaper sweeps no more: it ends at the first deadline that is not before the signal,
  and every sweep it made was due before it.
\<close>

theorem stop_ends_reaper:
  assumes "tk_raised tk = Some raised" and "window_duration window = Some d"
    and "\<forall>n \<le> N. tk_alive tk n \<and> deadline_at tk d n < instant_limit" and "nanos raised \<le> deadline_at tk d N"
    and "N < fuel"
  shows "\<exists>trace. reaper_run fuel tk es window w = (trace, Signalled) \<and> length trace \<le> N \<and>
    (\<forall>s \<in> set trace. sp_deadline s < raised)"
proof -
  have "nanos (unwrap_or None (tk_first tk)) + reaper_interval d = deadline_at tk d 0" by (simp add: deadline_at_def)
  from reaper_loop_stopped [OF assms(1-4) _ _ this, of fuel es "tk_first tk" w] assms(5) show ?thesis by (simp add: reaper_run_def)
qed

section \<open>Residents\<close>

text \<open>
  Loading the residents goes through all of them, whatever becomes of one: each is asked for once, in the order of the
  catalog, and exactly those whose load failed are recorded, with why.
\<close>

inductive loads :: "(entry \<Rightarrow> world \<Rightarrow> ((failure + child) \<times> world) run) \<Rightarrow> entry list \<Rightarrow> world
    \<Rightarrow> (entry \<times> failure option) list \<Rightarrow> world \<Rightarrow> bool" for child_of where
  none: "loads child_of [] w [] w"
| loaded: "child_of e w = Done (Inr c, w1) \<Longrightarrow> loads child_of es (drop_child c w1) told w' \<Longrightarrow>
     loads child_of (e # es) w ((e, None) # told) w'"
| failed: "child_of e w = Done (Inl f, w1) \<Longrightarrow> loads child_of es w1 told w' \<Longrightarrow>
     loads child_of (e # es) w ((e, Some f) # told) w'"

lemma loads_all: "loads child_of es w told w' \<Longrightarrow> map fst told = es"
  by (induction rule: loads.induct) auto

lemma load_each_loads:
  "load_each child_of es w = Done (failures, w') \<Longrightarrow> \<exists>told. loads child_of es w told w' \<and>
     failures = List.map_filter (\<lambda>(e, failed). map_option (\<lambda>f. e_id e @ '': '' @ failure_text f) failed) told"
proof (induction child_of es w arbitrary: failures w' rule: load_each.induct)
  case (1 child_of w)
  then show ?case by (auto simp: List.map_filter_simps intro: none)
next
  case (2 child_of e es w)
  obtain r w1 where r: "child_of e w = Done (r, w1)" using "2.prems" by (auto split: run.splits)
  show ?case
  proof (cases r)
    case (Inl f)
    with r "2.prems" obtain later where "load_each child_of es w1 = Done (later, w')"
        "failures = (e_id e @ '': '' @ failure_text f) # later" by (auto split: run.splits prod.splits)
    with "2.IH" r Inl show ?thesis
      by (fastforce simp: List.map_filter_simps intro: failed [of child_of e w f w1])
  next
    case (Inr c)
    with r "2.prems" have "load_each child_of es (drop_child c w1) = Done (failures, w')" by simp
    with "2.IH" r Inr show ?thesis
      by (fastforce simp: List.map_filter_simps intro: loaded [of child_of e w c w1])
  qed
qed

theorem residents_accounted:
  assumes "load_residents child_of es w = Done (failures, w')"
  shows "\<exists>told. loads child_of (filter (\<lambda>e. e_residency e = Resident) es) w told w' \<and>
    map fst told = filter (\<lambda>e. e_residency e = Resident) es \<and>
    failures = List.map_filter (\<lambda>(e, failed). map_option (\<lambda>f. e_id e @ '': '' @ failure_text f) failed) told"
  using load_each_loads [OF assms [unfolded load_residents_def]] loads_all by blast

section \<open>On time\<close>

text \<open>
  C23: An idle model is unloaded on time. Of an on-demand model that nobody holds and that was last used at
  some moment, as long as the router lives and no other thread touches its slot, some sweep names it no
  later than half a window (or the floor of 100 ms) after its window is over, plus what waking up and the sweep of
  exited children take. Rounds that take less than the interval do not add up: each wait is worked out from the
  deadline, and when each sweep happens follows from that.
\<close>

theorem reaper_on_time:
  assumes "refs_ok ids ext w" and "wd_slots w (e_id e) = Some held" and "ext (handle_of held) = 0"
    and "e \<in> set es" and "e_residency e = OnDemand" and "window_duration window = Some d"
    and "N = (nanos (sc_last_used held) + d - nanos (tk_first tk)) div reaper_interval d" and "N < fuel"
    and "ticking tk d slack N" and "leaving_alone tk ids ext (e_id e)"
  shows "\<exists>s \<in> set (fst (reaper_run fuel tk es window w)). named_by s (e_id e) \<and>
    nanos (sp_at s) \<le> max (nanos (sc_last_used held) + d) (nanos (tk_first tk)) + max (d div 2) 100000000 + slack"
proof -
  let ?due = "nanos (sc_last_used held) + d" and ?first = "nanos (tk_first tk)" and ?i = "reaper_interval d"
  have i: "0 < ?i" "?i = max (d div 2) 100000000"
    by (simp_all add: reaper_interval_def min_interval_def from_millis_def max_def)
  have split: "?due - ?first = N * ?i + (?due - ?first) mod ?i" unfolding assms(7) by (simp add: div_mult_mod_eq)
  have "(?due - ?first) mod ?i < ?i" using i(1) by simp
  then have due: "?due \<le> deadline_at tk d N" and late: "deadline_at tk d N \<le> max ?due ?first + ?i"
    using split by (auto simp: deadline_at_def max_def algebra_simps)
  have "nanos (unwrap_or None (tk_first tk)) + ?i = deadline_at tk d 0" by (simp add: deadline_at_def)
  from reaper_loop_names [OF assms(9,10,4,5,6,3) due, of 0 fuel w None "tk_first tk"] assms(1,2,8) this
  obtain s where "s \<in> set (fst (reaper_run fuel tk es window w))" "named_by s (e_id e)"
      "nanos (sp_at s) \<le> deadline_at tk d N + slack" by (auto simp: reaper_run_def)
  moreover from this(3) have "nanos (sp_at s) \<le> max ?due ?first + max (d div 2) 100000000 + slack"
    using late unfolding i(2) by linarith
  ultimately show ?thesis by blast
qed

section \<open>A concrete reaper\<close>

definition sample_ticks :: ticks where
  "sample_ticks = \<lparr>tk_alive = (\<lambda>_. True), tk_first = Instant 0, tk_round = (\<lambda>_. 2000),
     tk_overshoot = (\<lambda>_. 3), tk_sweeping = (\<lambda>_. 4), tk_raised = None, tk_others = (\<lambda>_ w. w)\<rparr>"

lemma sample_ticking: "ticking sample_ticks 3 7 0" "leaving_alone sample_ticks ids ext i"
  by (simp_all add: ticking_def leaving_alone_def sample_ticks_def deadline_at_def reaper_interval_def min_interval_def
      from_millis_def instant_limit_def)

definition sample_held :: slot_child where
  "sample_held = \<lparr>sc_child = sample_child 0, sc_last_used = Instant 5,
     sc_measured = \<lparr>resident_mib = Some 100, device_mib = Some 600\<rparr>\<rparr>"

theorem reaper_on_time_witness:
  "\<exists>s \<in> set (fst (reaper_run 2 sample_ticks [small_entry ''m'' 500] (IdleWindow (Some 3)) sample_world)).
     named_by s (e_id (small_entry ''m'' 500)) \<and>
     nanos (sp_at s) \<le> max (nanos (sc_last_used sample_held) + 3) (nanos (tk_first sample_ticks)) + max (3 div 2) 100000000 + 7"
proof (rule reaper_on_time [OF sample_world_refs])
  show "wd_slots sample_world (e_id (small_entry ''m'' 500)) = Some sample_held"
    by (simp add: sample_world_def small_entry_def sample_held_def)
  show "e_residency (small_entry ''m'' 500) = OnDemand" by code_simp
  show "(0 :: nat) = (nanos (sc_last_used sample_held) + 3 - nanos (tk_first sample_ticks)) div reaper_interval 3"
    by (simp add: sample_held_def sample_ticks_def reaper_interval_def min_interval_def from_millis_def)
qed (simp_all add: sample_ticking)

end
