(* ===== verification/Commands.thy ===== *)
theory Commands
  imports Discover Reaper
begin

text \<open>
  What the commands say and in which order they give up: the lines about memory at startup
  (\<open>src/src/startup.rs\<close>), \<open>check\<close> (\<open>src/src/check.rs\<close>), and reading a catalog, serving it and
  launching one entry of it (\<open>src/src/main.rs\<close>). A text file is its text or why it cannot be read;
  parsing an address and binding it are the standard library's and the operating system's.
\<close>

section \<open>Startup (startup.rs)\<close>

definition startup_budget :: "u32 option \<Rightarrow> string \<Rightarrow> string" where
  "startup_budget limit_mib source =
     (case limit_mib of
        Some limit \<Rightarrow> ''memory budget: '' @ show_word limit @ '' MiB '' @ source @ '', so models are unloaded to make room''
      | None \<Rightarrow> ''memory budget: none set, so nothing is ever unloaded (set MAESTRO_MEMORY_BUDGET_MIB)'')"

definition startup_idle_window :: "nat option \<Rightarrow> string" where
  "startup_idle_window seconds =
     (case seconds of
        Some seconds \<Rightarrow> ''idle window: '' @ show_nat seconds
          @ '' seconds, so an unused on-demand model is unloaded after that long''
      | None \<Rightarrow> ''idle window: none set, so nothing is ever unloaded for sitting idle (set MAESTRO_IDLE_UNLOAD_SECONDS)'')"

definition startup_reservation :: "u32 option \<Rightarrow> u64 \<Rightarrow> string" where
  "startup_reservation limit_mib promised =
     (case limit_mib of
        None \<Rightarrow> ''residents reserve '' @ show_word promised @ '' MiB, against no budget''
      | Some limit \<Rightarrow>
          (let limit = ucast limit :: u64 in
           case checked_sub limit promised of
             Some left \<Rightarrow> ''residents reserve '' @ show_word promised @ '' MiB of '' @ show_word limit
               @ '' MiB, leaving '' @ show_word left @ '' MiB for everything else''
           | None \<Rightarrow> ''residents reserve '' @ show_word promised @ '' MiB, more than the '' @ show_word limit
               @ '' MiB budget: what does not fit is refused''))"

definition startup_admission_wait :: "bool \<Rightarrow> string" where
  "startup_admission_wait waiting =
     (if waiting then ''a request whose room is held by a busy model waits for it rather than being refused''
      else ''a request whose room is held is refused at once (set MAESTRO_ADMISSION_WAIT_SECONDS to wait for it)'')"

section \<open>What every command is given\<close>

record console =
  co_env :: environment
  co_disk :: disk
  co_files :: "string \<Rightarrow> string + string"
  co_toml :: "string \<Rightarrow> string + toml_table"

record said =
  sd_out :: "string list"
  sd_err :: "string list"
  sd_success :: bool

section \<open>check (check.rs)\<close>

definition complain :: "string \<Rightarrow> report \<Rightarrow> said" where
  "complain path r =
     \<lparr>sd_out = [], sd_err = (path @ '' is not usable:'') # map (\<lambda>p. ''  '' @ p) (problems r), sd_success = False\<rparr>"

definition usable_root :: "console \<Rightarrow> string option" where
  "usable_root co =
     (case models_root (co_env co) of
        Inr root \<Rightarrow> if disk_is_dir (co_disk co) root then Some root else None
      | Inl _ \<Rightarrow> None)"

definition check :: "console \<Rightarrow> string \<Rightarrow> said" where
  "check co path =
     (case co_files co path of
        Inl error \<Rightarrow>
          \<lparr>sd_out = [], sd_err = [''cannot read '' @ from_utf8_lossy path @ '': '' @ error], sd_success = False\<rparr>
      | Inr content \<Rightarrow>
          (case usable_root co of
             Some root \<Rightarrow>
               (case catalog_read (co_disk co) (co_toml co) content root of
                  Inr r \<Rightarrow>
                    \<lparr>sd_out = (from_utf8_lossy path @ '' is valid: '' @ show_nat (length (c_entries (rd_catalog r)))
                        @ '' models, '' @ show_nat (rd_declared r) @ '' declared and '' @ show_nat (rd_discovered r)
                        @ '' found under the root'') # map (\<lambda>n. ''  '' @ n) (rd_notes r),
                      sd_err = [], sd_success = True\<rparr>
                | Inl r \<Rightarrow> complain (from_utf8_lossy path) r)
           | None \<Rightarrow>
               (case catalog_parse (co_toml co) content of
                  Inr c \<Rightarrow>
                    \<lparr>sd_out = [from_utf8_lossy path @ '' is valid: '' @ show_nat (length (c_entries c))
                        @ '' models (shape only -- no models root on this machine, so nothing was checked against its files)''],
                      sd_err = [], sd_success = True\<rparr>
                | Inl r \<Rightarrow> complain (from_utf8_lossy path) r)))"

section \<open>serve and launch (main.rs)\<close>

definition default_address :: string where "default_address = ''127.0.0.1:8080''"

definition main_read :: "console \<Rightarrow> string \<Rightarrow> string + catalog" where
  "main_read co path =
     (case co_files co path of
        Inl error \<Rightarrow> Inl (''cannot read '' @ from_utf8_lossy path @ '': '' @ error)
      | Inr content \<Rightarrow>
          (case catalog_parse (co_toml co) content of
             Inl r \<Rightarrow> Inl (from_utf8_lossy path @ '' is not usable:'' @ [newline] @ report_text r)
           | Inr c \<Rightarrow> Inr c))"

definition or_complaint :: "failure + 'a \<Rightarrow> string + 'a" where
  "or_complaint r = (case r of Inl f \<Rightarrow> Inl (failure_text f) | Inr x \<Rightarrow> Inr x)"

definition serve ::
    "console \<Rightarrow> machine \<Rightarrow> (string \<Rightarrow> string + socket_address) \<Rightarrow> (socket_address \<Rightarrow> string + socket_address)
       \<Rightarrow> string \<Rightarrow> string option \<Rightarrow> string + (router \<times> string list)" where
  "serve co m parse_address listen path address =
     attempt (main_read co path) (\<lambda>c.
     attempt (or_complaint (models_root (co_env co))) (\<lambda>root.
     attempt (or_complaint (located (co_env co) (co_disk co) None)) (\<lambda>sv.
       (let wanted = unwrap_or address default_address in
        attempt (case parse_address wanted of
                   Inl error \<Rightarrow> Inl (quoted wanted @ '' is not an address to bind: '' @ error) | Inr a \<Rightarrow> Inr a) (\<lambda>wanted.
        attempt (or_complaint (budget_configured (co_env co) m)) (\<lambda>b.
        attempt (or_complaint (idle_configured (co_env co))) (\<lambda>window.
        attempt (or_complaint (wait_configured (co_env co))) (\<lambda>waiting.
        attempt (or_complaint (router_bind listen wanted c root sv
                   \<lparr>lm_budget = b, lm_idle_window = window, lm_wait = waiting\<rparr>)) (\<lambda>r.
          (let bound = sa_shown (rt_bound r); promised = resident_reservation_mib c in
           Inr (r,
             [''serving on http://'' @ bound,
              ''  http://'' @ bound @ ''/models/<model>/v1/chat/completions'',
              ''  http://'' @ bound @ ''/v1/chat/completions   (routed by the body'' @ [CHR 0x27] @ ''s model)'',
              startup_budget (b_limit_mib b) (b_source b),
              startup_admission_wait (waits waiting)]
             @ (if 0 < promised then [startup_reservation (b_limit_mib b) promised] else [])
             @ [startup_idle_window (window_seconds window),
                ''a streamed reply is passed through as it arrives''])))))))))))"

definition children_text :: "nat \<Rightarrow> string" where
  "children_text n = (if n = 1 then ''1 child'' else show_nat n @ '' children'')"

text \<open>\<open>started\<close> is the start of the entry on this machine, \<open>took\<close> the text of the seconds it took.\<close>

definition launch ::
    "console \<Rightarrow> (server \<Rightarrow> entry \<Rightarrow> string \<Rightarrow> failure + child) \<Rightarrow> string \<Rightarrow> string \<Rightarrow> string \<Rightarrow> string + string list" where
  "launch co started took path i =
     attempt (main_read co path) (\<lambda>c.
     attempt (case catalog_entry c i of
                None \<Rightarrow> Inl (from_utf8_lossy path @ '' carries no model called '' @ quoted i) | Some e \<Rightarrow> Inr e) (\<lambda>e.
     attempt (or_complaint (models_root (co_env co))) (\<lambda>root.
     attempt (or_complaint (located (co_env co) (co_disk co) None)) (\<lambda>sv.
     attempt (or_complaint (started sv e root)) (\<lambda>c.
       Inr [i @ '' is ready at http://127.0.0.1:'' @ show_word (ch_port c) @ '' after '' @ took @ '' seconds'',
            i @ '' stopped''])))))"

end
