(* ===== verification/Commands_Laws.thy ===== *)
theory Commands_Laws
  imports Commands Discover_Laws
begin

text \<open>
  What \<open>check\<close> finds usable is not what is served: it reads a catalog against its root, and every other
  command reads the text alone.
\<close>

lemma undeclared_refused:
  assumes "read_drafts toml_parse s = Inr d" and "i \<in> dr_undeclared d"
  shows "\<exists>r. catalog_parse toml_parse s = Inl r"
proof -
  obtain table where "dr_undeclared d = undeclared_of table"
    using assms(1) by (auto simp: read_drafts_eq split: sum.splits)
  then have "undeclared_problems (dr_undeclared d) \<noteq> []" using undeclared_problems_Nil assms(2) by auto
  then show ?thesis using assms(1) by (simp add: catalog_parse_def)
qed

text \<open>
  A catalog \<open>check\<close> calls valid may be one no other command takes. As soon as one entry leaves its estimate
  to be derived, \<open>check\<close> on a machine with the models succeeds and \<open>serve\<close> and \<open>launch\<close> refuse the
  catalog as unusable; and no model that was only discovered is ever served or launched.
\<close>

theorem checked_not_served:
  assumes "usable_root co = Some root" and "co_files co path = Inr content"
    and "catalog_read (co_disk co) (co_toml co) content root = Inr r"
  shows "sd_success (check co path) \<and>
    (c_derived (rd_catalog r) \<noteq> c_discovered (rd_catalog r) \<longrightarrow>
       (\<exists>why. main_read co path = Inl why \<and> serve co m parse_address listen path address = Inl why \<and>
          launch co started took path i = Inl why)) \<and>
    (\<forall>c. main_read co path = Inr c \<longrightarrow> c_discovered c = {} \<and>
       (\<forall>e \<in> set (c_entries c). e_id e \<notin> c_discovered (rd_catalog r)))"
proof -
  obtain d kept l found said where d: "read_drafts (co_toml co) content = Inr d"
    "settle_all (co_disk co) root (dr_undeclared d) (dr_entries d)
       \<lparr>lg_notes = [], lg_problems = dr_problems d, lg_derived = {}\<rparr> = (kept, l)"
    "underivable (co_disk co) root (dr_undeclared d) (dr_entries d) = []"
    "discover_under (co_disk co) root kept (dr_defaults d) (lg_notes l) = (found, said)"
    "c_derived (rd_catalog r) = lg_derived l \<union> e_id ` set found" "c_discovered (rd_catalog r) = e_id ` set found"
    by (rule catalog_read_parts [OF assms(3)]) auto
  note settled = settle_all_eq [OF d(2)]
  have parsed: "main_read co path = (case catalog_parse (co_toml co) content of
      Inl r \<Rightarrow> Inl (from_utf8_lossy path @ '' is not usable:'' @ [newline] @ report_text r) | Inr c \<Rightarrow> Inr c)"
    using assms(2) by (simp add: main_read_def)
  show ?thesis
  proof (intro conjI impI allI)
    show "sd_success (check co path)" using assms by (simp add: check_def)
  next
    assume "c_derived (rd_catalog r) \<noteq> c_discovered (rd_catalog r)"
    then obtain i where "i \<in> dr_undeclared d" using d(5,6) settled by auto
    from undeclared_refused [OF d(1) this] obtain rr where "catalog_parse (co_toml co) content = Inl rr" by blast
    then obtain why where "main_read co path = Inl why" using parsed by simp
    then show "\<exists>why. main_read co path = Inl why \<and> serve co m parse_address listen path address = Inl why \<and>
          launch co started took path i = Inl why" for i
      by (simp add: serve_def launch_def)
  next
    fix c assume c: "main_read co path = Inr c"
    then have p: "catalog_parse (co_toml co) content = Inr c" using parsed by (auto split: sum.splits)
    then have entries: "c_entries c = dr_entries d" "c_discovered c = {}" "undeclared_problems (dr_undeclared d) = []"
      using d(1) by (auto simp: catalog_parse_def Let_def split: if_splits)
    show "c_discovered c = {}" by (rule entries(2))
    obtain table where table: "dr_undeclared d = undeclared_of table"
      using d(1) by (auto simp: read_drafts_eq split: sum.splits)
    have "dr_undeclared d = {}" using entries(3) undeclared_problems_Nil unfolding table by blast
    then have "kept = dr_entries d" using settled settled_declared by simp
    moreover have "e_id ` set found \<inter> e_id ` set kept = {}"
      using discover_apart(2) [OF d(4)] by blast
    ultimately show "\<forall>e \<in> set (c_entries c). e_id e \<notin> c_discovered (rd_catalog r)"
      using entries(1) d(6) by auto
  qed
qed

section \<open>A concrete machine\<close>

definition bare_table :: toml_table where
  "bare_table =
     [(''models'', TTable [(''m'', TTable [(''context_size'', TInteger 4096), (''path'', TString ''x.gguf'')])]),
      (''version'', TInteger 1)]"

definition sample_console :: console where
  "sample_console = \<lparr>co_env = [''MAESTRO_MODELS_ROOT'' \<mapsto> ''/m/a''], co_disk = sample_tree,
     co_files = (\<lambda>_. Inr []), co_toml = (\<lambda>_. Inr bare_table)\<rparr>"

lemma sample_console_root: "usable_root sample_console = Some ''/m/a''" "co_files sample_console ''c.toml'' = Inr []"
  by code_simp+

lemma sample_console_reading:
  "\<exists>r. catalog_read (co_disk sample_console) (co_toml sample_console) [] ''/m/a'' = Inr r \<and>
     c_derived (rd_catalog r) \<noteq> c_discovered (rd_catalog r)"
proof -
  have faults: "walk_faults bare_table = []"
      "underivable sample_tree ''/m/a'' (undeclared_of bare_table) (entries_of bare_table) = []" by code_simp+
  then have "\<nexists>f. catalog_read sample_tree (\<lambda>_. Inr bare_table) [] ''/m/a'' = Inl f"
    unfolding catalog_read_faults by (simp add: read_drafts_eq)
  then obtain r where r: "catalog_read sample_tree (\<lambda>_. Inr bare_table) [] ''/m/a'' = Inr r"
    by (cases "catalog_read sample_tree (\<lambda>_. Inr bare_table) [] ''/m/a''") auto
  then obtain d kept l found said where d: "read_drafts (\<lambda>_. Inr bare_table) [] = Inr d"
    "settle_all sample_tree ''/m/a'' (dr_undeclared d) (dr_entries d)
       \<lparr>lg_notes = [], lg_problems = dr_problems d, lg_derived = {}\<rparr> = (kept, l)"
    "discover_under sample_tree ''/m/a'' kept (dr_defaults d) (lg_notes l) = (found, said)"
    "c_derived (rd_catalog r) = lg_derived l \<union> e_id ` set found" "c_discovered (rd_catalog r) = e_id ` set found"
    by (rule catalog_read_parts) auto
  have parts: "dr_undeclared d = undeclared_of bare_table" "dr_entries d = entries_of bare_table"
    using d(1) by (auto simp: read_drafts_eq)
  note settled = settle_all_eq [OF d(2)]
  have one: "map e_id (entries_of bare_table) = [''m'']" by code_simp
  have two: "''m'' \<in> undeclared_of bare_table" by code_simp
  have three: "list_all (\<lambda>e. ok (derive sample_tree e ''/m/a'') \<noteq> None) (entries_of bare_table)" by code_simp
  from one obtain e where e: "entries_of bare_table = [e]" "e_id e = ''m''" by auto
  then obtain dv where "derive sample_tree e ''/m/a'' = Inr dv" using three by (cases "derive sample_tree e ''/m/a''") auto
  then have "''m'' \<in> lg_derived l" "''m'' \<in> e_id ` set kept"
    using settled two e parts by (auto simp: settled_entry_def List.map_filter_simps)
  moreover have "''m'' \<notin> e_id ` set found" using discover_apart(2) [OF d(3)] calculation(2) by blast
  ultimately have "c_derived (rd_catalog r) \<noteq> c_discovered (rd_catalog r)" using d(4,5) by blast
  then show ?thesis using r by (auto simp: sample_console_def)
qed

theorem checked_not_served_witness:
  "sd_success (check sample_console ''c.toml'') \<and> (\<exists>why. main_read sample_console ''c.toml'' = Inl why)"
proof -
  obtain r where r: "catalog_read (co_disk sample_console) (co_toml sample_console) [] ''/m/a'' = Inr r"
      "c_derived (rd_catalog r) \<noteq> c_discovered (rd_catalog r)"
    using sample_console_reading by blast
  from checked_not_served [OF sample_console_root r(1)] r(2) show ?thesis by blast
qed

end
