(* ===== verification/Bench.thy ===== *)
theory Bench
  imports Commands Answer
begin

text \<open>
  Measuring what entries cost and how fast they answer: one entry loaded alone
  (\<open>src/src/bench.rs\<close>), the request it is timed with (\<open>bench/rate.rs\<close>), the table over a catalog and
  the estimates the readings support (\<open>bench/report.rs\<close>). Floating point is a parameter: what a JSON
  number, a duration and a count are as a float, dividing, and printing one digit after the point.
\<close>

section \<open>How fast an entry answers (rate.rs)\<close>

record 'f floats =
  fl_of_json :: "json \<Rightarrow> 'f option"
  fl_secs :: "duration \<Rightarrow> 'f"
  fl_of_u32 :: "u32 \<Rightarrow> 'f"
  fl_positive :: "'f \<Rightarrow> bool"
  fl_div :: "'f \<Rightarrow> 'f \<Rightarrow> 'f"
  fl_tenths :: "'f \<Rightarrow> string"

definition bench_tokens :: u32 where "bench_tokens = 128"

definition bench_prompt :: string where
  "bench_prompt = ''Write a short paragraph explaining what a memory budget ''
     @ ''is and why a program might need one.''"

definition bench_passages :: u32 where "bench_passages = 32"

datatype 'f throughput = Generated 'f | Scored 'f

fun throughput_parts :: "'f throughput \<Rightarrow> 'f \<times> string" where
  "throughput_parts (Generated rate) = (rate, ''tok/s'')"
| "throughput_parts (Scored rate) = (rate, ''seq/s'')"

datatype answers_by = Completions | Embeddings | Reranking

definition flag_set :: "flags \<Rightarrow> string \<Rightarrow> bool" where
  "flag_set flags name \<longleftrightarrow>
     (case map_of flags name of None \<Rightarrow> False | Some v \<Rightarrow> to_ascii_lowercase (trim v) \<notin> {''false'', ''0''})"

definition answers :: "flags \<Rightarrow> answers_by" where
  "answers flags =
     (if flag_set flags ''reranking'' \<or> flag_set flags ''rerank'' then Reranking
      else if flag_set flags ''embeddings'' \<or> flag_set flags ''embedding'' then Embeddings
      else Completions)"

definition ask_text :: "string \<Rightarrow> string \<Rightarrow> string \<Rightarrow> string" where
  "ask_text at path body =
     ''POST '' @ path @ '' HTTP/1.1'' @ crlf
     @ ''Host: '' @ at @ crlf
     @ ''Content-Type: application/json'' @ crlf
     @ ''Content-Length: '' @ show_nat (length body) @ crlf
     @ ''Connection: close'' @ crlf
     @ crlf @ body"

text \<open>What the server gives back to a request, until it closes, and how long that took.\<close>

type_synonym exchange = "string \<Rightarrow> (io_error + string) \<times> duration"

definition ask :: "exchange \<Rightarrow> string \<Rightarrow> string \<Rightarrow> string \<Rightarrow> string option \<times> duration" where
  "ask ex at path body =
     (case ex (ask_text at path body) of
        (Inl _, took) \<Rightarrow> (None, took)
      | (Inr reply, took) \<Rightarrow> (if utf8_valid reply then Some reply else None, took))"

definition body_of :: "string \<Rightarrow> string option" where
  "body_of reply = map_option snd (split_once (crlf @ crlf) reply)"

definition passages :: "string list" where
  "passages = map (\<lambda>k. ''Passage '' @ show_nat k @ ''. '' @ bench_prompt) [0..<unat bench_passages]"

definition chat_body :: "json_crate \<Rightarrow> string \<Rightarrow> string" where
  "chat_body js i =
     js_print js (JObject
       [(''model'', JString i),
        (''messages'', JArray [JObject [(''role'', JString ''user''), (''content'', JString bench_prompt)]]),
        (''max_tokens'', JNumber (show_word bench_tokens)),
        (''stream'', JBool False),
        (''temperature'', JNumber ''0.0'')])"

definition embeddings_body :: "json_crate \<Rightarrow> string \<Rightarrow> string" where
  "embeddings_body js i =
     js_print js (JObject [(''model'', JString i), (''input'', JArray (map JString passages))])"

definition reranking_body :: "json_crate \<Rightarrow> string \<Rightarrow> string" where
  "reranking_body js i =
     js_print js (JObject
       [(''model'', JString i), (''query'', JString ''what is a memory budget''),
        (''documents'', JArray (map JString passages))])"

definition parsed_reply :: "json_crate \<Rightarrow> string option \<Rightarrow> json option" where
  "parsed_reply js reply =
     Option.bind reply (\<lambda>text. Option.bind (body_of text) (\<lambda>b.
       case js_parse js b of Inl _ \<Rightarrow> None | Inr v \<Rightarrow> Some v))"

definition generated :: "'f floats \<Rightarrow> json_crate \<Rightarrow> exchange \<Rightarrow> string \<Rightarrow> string \<Rightarrow> 'f throughput option" where
  "generated fl js ex at i =
     Option.bind (parsed_reply js (fst (ask ex at ''/v1/chat/completions'' (chat_body js i)))) (\<lambda>parsed.
     Option.bind (json_get parsed ''timings'') (\<lambda>timings.
     Option.bind (json_get timings ''predicted_per_second'') (\<lambda>n.
     map_option Generated (fl_of_json fl n))))"

definition scored :: "'f floats \<Rightarrow> json_crate \<Rightarrow> exchange \<Rightarrow> string \<Rightarrow> string \<Rightarrow> string \<Rightarrow> 'f throughput option" where
  "scored fl js ex at path body =
     (case ask ex at path body of
        (reply, elapsed) \<Rightarrow>
          Option.bind (parsed_reply js reply) (\<lambda>parsed.
            if json_get parsed ''error'' \<noteq> None then None
            else (let seconds = fl_secs fl elapsed in
                  if fl_positive fl seconds
                  then Some (Scored (fl_div fl (fl_of_u32 fl bench_passages) seconds)) else None)))"

definition rate_of :: "'f floats \<Rightarrow> json_crate \<Rightarrow> exchange \<Rightarrow> string \<Rightarrow> entry \<Rightarrow> 'f throughput option" where
  "rate_of fl js ex at e =
     (case answers (e_flags e) of
        Completions \<Rightarrow> generated fl js ex at (e_id e)
      | Embeddings \<Rightarrow> scored fl js ex at ''/v1/embeddings'' (embeddings_body js (e_id e))
      | Reranking \<Rightarrow> scored fl js ex at ''/v1/rerank'' (reranking_body js (e_id e)))"

section \<open>One entry (bench.rs)\<close>

record 'f bench_measurement =
  bm_id :: string
  bm_declared_mib :: u32
  bm_measured_mib :: "u32 option"
  bm_load :: duration
  bm_throughput :: "'f throughput option"

definition recommended_of :: "u32 \<Rightarrow> u32" where
  "recommended_of measured =
     (let with_room = measured + measured div 20 in div_ceil with_room 256 * 256)"

definition recommended_mib :: "'f bench_measurement \<Rightarrow> u32 option" where
  "recommended_mib m = map_option recommended_of (bm_measured_mib m)"

text \<open>
  The machine before the load, when the process is measured, and when the device is read again; the
  start of an entry with how long it took; and the server it leaves, to talk to.
\<close>

record 'f bench_os =
  bo_before :: machine
  bo_loaded :: machine
  bo_after :: machine
  bo_start :: "server \<Rightarrow> entry \<Rightarrow> string \<Rightarrow> failure + (child \<times> duration)"
  bo_exchange :: exchange
  bo_json :: json_crate
  bo_floats :: "'f floats"

definition grown_mib :: "u64 option \<Rightarrow> u64 option \<Rightarrow> u64 option" where
  "grown_mib before after =
     (case (before, after) of
        (Some b, Some a) \<Rightarrow> (case checked_sub a b of Some grown \<Rightarrow> if 0 < grown then Some grown else None | None \<Rightarrow> None)
      | _ \<Rightarrow> None)"

definition bench_measured :: "'f bench_os \<Rightarrow> u32 \<Rightarrow> u32 option" where
  "bench_measured bo pid =
     (let probe = probe_detect (bo_before bo);
          before = map_option used_mib (probe_device (bo_before bo) probe)
      in Option.bind
           (or_else (device_mib (probe_measure (bo_loaded bo) probe pid))
              (grown_mib before (map_option used_mib (probe_device (bo_after bo) probe))))
           try_u32)"

definition bench_entry :: "'f bench_os \<Rightarrow> server \<Rightarrow> entry \<Rightarrow> string \<Rightarrow> failure + 'f bench_measurement" where
  "bench_entry bo sv e root =
     attempt (bo_start bo sv e root) (\<lambda>(c, load).
       Inr \<lparr>bm_id = e_id e, bm_declared_mib = e_memory_estimate_mib e, bm_measured_mib = bench_measured bo (ch_pid c),
         bm_load = load, bm_throughput = rate_of (bo_floats bo) (bo_json bo) (bo_exchange bo) (child_endpoint c) e\<rparr>)"

section \<open>The report (report.rs)\<close>

text \<open>Padding counts characters, so not the continuation bytes of one.\<close>

definition chars :: "string \<Rightarrow> nat" where
  "chars s = length (filter (\<lambda>c. \<not> (128 \<le> code c \<and> code c < 192)) s)"

definition pad_right :: "nat \<Rightarrow> string \<Rightarrow> string" where
  "pad_right n s = s @ replicate (n - chars s) (CHR '' '')"

definition pad_left :: "nat \<Rightarrow> string \<Rightarrow> string" where
  "pad_left n s = replicate (n - chars s) (CHR '' '') @ s"

definition leap :: "nat \<Rightarrow> bool" where
  "leap year \<longleftrightarrow> year mod 4 = 0 \<and> year mod 100 \<noteq> 0 \<or> year mod 400 = 0"

text \<open>The years are counted up from 1970, the days down: neither comes near a bound of its type.\<close>

function year_loop :: "nat \<Rightarrow> nat \<Rightarrow> nat \<times> nat" where
  "year_loop year remaining =
     (let len = (if leap year then 366 else 365)
      in if remaining < len then (year, remaining) else year_loop (year + 1) (remaining - len))"
  by pat_completeness auto
termination by (relation "measure snd") auto

declare year_loop.simps [simp del]

definition month_lengths :: "nat \<Rightarrow> nat list" where
  "month_lengths year = [31, if leap year then 29 else 28, 31, 30, 31, 30, 31, 31, 30, 31, 30, 31]"

text \<open>Indexing past the last month panics.\<close>

fun month_loop :: "nat list \<Rightarrow> nat \<Rightarrow> nat \<Rightarrow> (nat \<times> nat) option" where
  "month_loop [] month remaining = None"
| "month_loop (len # ls) month remaining =
     (if len \<le> remaining then month_loop ls (month + 1) (remaining - len) else Some (month, remaining))"

definition today :: "u64 \<Rightarrow> string option" where
  "today seconds =
     (case year_loop 1970 (unat seconds div 86400) of
        (year, remaining) \<Rightarrow>
          map_option (\<lambda>(month, remaining).
            zero_padded 4 (show_nat year) @ ''-'' @ zero_padded 2 (show_nat (month + 1)) @ ''-''
              @ zero_padded 2 (show_nat (remaining + 1)))
            (month_loop (month_lengths year) 0 remaining))"

definition corrections :: "'f bench_measurement list \<Rightarrow> ('f bench_measurement \<times> u32) list" where
  "corrections measured =
     filter (\<lambda>(m, wants). wants \<noteq> bm_declared_mib m)
       (List.map_filter (\<lambda>m. map_option (\<lambda>wants. (m, wants)) (recommended_mib m)) measured)"

definition recommendations :: "string \<Rightarrow> 'f bench_measurement list \<Rightarrow> string list" where
  "recommendations day measured =
     (if corrections measured = [] then []
      else ([newline] @ ''estimates these measurements support:'' @ [newline])
        # concat (map (\<lambda>(m, wants).
            [''[models.'' @ bm_id m @ '']'',
             ''# Measured '' @ show_word (unwrap_or (bm_measured_mib m) 0) @ '' MiB resident on '' @ day
               @ ''; a twentieth over,'' @ [newline] @ ''# to a quarter gibibyte. Was ''
               @ show_word (bm_declared_mib m) @ '' MiB.'',
             ''memory_estimate_mib = '' @ show_word wants @ [newline]]) (corrections measured)))"

definition bench_row :: "'f floats \<Rightarrow> entry \<Rightarrow> failure + 'f bench_measurement \<Rightarrow> string" where
  "bench_row fl e outcome =
     pad_right 20 (e_id e) @ '' '' @ pad_left 9 (show_word (e_memory_estimate_mib e)) @ '' ''
     @ (case outcome of
          Inr m \<Rightarrow>
            pad_left 9 (case bm_measured_mib m of None \<Rightarrow> ''--'' | Some mib \<Rightarrow> show_word mib)
            @ '' '' @ pad_left 7 (fl_tenths fl (fl_secs fl (bm_load m))) @ ''s ''
            @ pad_left 10 (case bm_throughput m of None \<Rightarrow> ''--''
                           | Some rate \<Rightarrow> fl_tenths fl (fst (throughput_parts rate)) @ '' '' @ snd (throughput_parts rate))
        | Inl failure \<Rightarrow>
            pad_left 9 ''--'' @ '' '' @ pad_left 8 ''--'' @ '' '' @ pad_left 10 ''--'' @ ''  '' @ failure_text failure)"

definition bench_heading :: string where
  "bench_heading = pad_right 20 ''entry'' @ '' '' @ pad_left 9 ''declared'' @ '' '' @ pad_left 9 ''measured'' @ '' ''
     @ pad_left 8 ''load'' @ '' '' @ pad_left 10 ''rate''"

text \<open>\<open>day\<close> is what \<^const>\<open>today\<close> gives; each entry meets a machine of its own, one after the other.\<close>

definition bench_command ::
    "console \<Rightarrow> (entry \<Rightarrow> 'f bench_os) \<Rightarrow> 'f floats \<Rightarrow> string \<Rightarrow> string \<Rightarrow> string option \<Rightarrow> string + string list" where
  "bench_command co os fl day path wanted =
     attempt (case co_files co path of
                Inl error \<Rightarrow> Inl (''cannot read '' @ from_utf8_lossy path @ '': '' @ error) | Inr content \<Rightarrow> Inr content) (\<lambda>content.
     attempt (case catalog_parse (co_toml co) content of Inl r \<Rightarrow> Inl (report_text r) | Inr c \<Rightarrow> Inr c) (\<lambda>c.
     attempt (or_complaint (models_root (co_env co))) (\<lambda>root.
     attempt (or_complaint (located (co_env co) (co_disk co) None)) (\<lambda>sv.
       (let es = filter (\<lambda>e. case wanted of None \<Rightarrow> True | Some i \<Rightarrow> e_id e = i) (c_entries c) in
        if es = []
        then Inl (''no entry called '' @ quoted (unwrap_or wanted []) @ '' in '' @ from_utf8_lossy path)
        else (let outcomes = map (\<lambda>e. (e, bench_entry (os e) sv e root)) es in
              Inr (bench_heading # map (\<lambda>(e, outcome). bench_row fl e outcome) outcomes
                @ recommendations day
                    (List.map_filter (\<lambda>(_, outcome). case outcome of Inr m \<Rightarrow> Some m | Inl _ \<Rightarrow> None) outcomes))))))))"

end
