(* ===== verification/Bench_Laws.thy ===== *)
theory Bench_Laws
  imports Bench
begin

text \<open>
  The date a measurement carries is the calendar's, the estimate it supports leaves the room it says,
  and an entry is timed as what the catalog lists it as.
\<close>

section \<open>The date\<close>

text \<open>
  The Gregorian calendar, said without the loop: how many days come before a year, how long a month is,
  and the number of a day.
\<close>

definition days_before :: "nat \<Rightarrow> nat" where
  "days_before y = 365 * (y - 1) + ((y - 1) div 4 + (y - 1) div 400) - (y - 1) div 100"

definition month_days :: "nat \<Rightarrow> nat \<Rightarrow> nat" where
  "month_days y m =
     (if m = 2 then (if leap y then 29 else 28) else if m \<in> {4, 6, 9, 11} then 30 else 31)"

definition day_number :: "nat \<Rightarrow> nat \<Rightarrow> nat \<Rightarrow> nat" where
  "day_number y m d = days_before y + sum_list (map (month_days y) [1..<m]) + d"

lemma unat_numeral_256: "unat (256 :: u32) = 256"
  by simp

lemma days_before_Suc:
  assumes "1 \<le> y"
  shows "days_before (Suc y) = days_before y + (if leap y then 366 else 365)"
proof -
  obtain k where k: "y = Suc k" using assms by (cases y) auto
  have le: "k div 100 \<le> k div 4" by (rule div_le_mono2) simp_all
  have "4 dvd (100 :: nat)" and "100 dvd (400 :: nat)" by simp_all
  then have nested: "Suc k mod 100 = 0 \<Longrightarrow> Suc k mod 4 = 0" "Suc k mod 400 = 0 \<Longrightarrow> Suc k mod 100 = 0"
    by (meson dvd_eq_mod_eq_0 dvd_trans)+
  obtain j where j: "k div 4 = k div 100 + j" using le le_iff_add by blast
  define c where "c = k div 100"
  define f where "f = k div 400"
  define p4 where "p4 \<longleftrightarrow> Suc k mod 4 = 0"
  define p100 where "p100 \<longleftrightarrow> Suc k mod 100 = 0"
  define p400 where "p400 \<longleftrightarrow> Suc k mod 400 = 0"
  have "(p100 \<longrightarrow> p4) \<and> (p400 \<longrightarrow> p100)" using nested unfolding p4_def p100_def p400_def by blast
  moreover have "leap y \<longleftrightarrow> p4 \<and> \<not> p100 \<or> p400" by (simp only: leap_def k p4_def p100_def p400_def)
  moreover have "days_before y = 365 * k + j + f" by (simp add: days_before_def k j f_def)
  moreover have "days_before (Suc y) = 365 * Suc k + (Suc k div 4 + Suc k div 400) - Suc k div 100"
    by (simp add: days_before_def k)
  moreover have "Suc k div 4 = c + j + of_bool p4" "Suc k div 100 = c + of_bool p100" "Suc k div 400 = f + of_bool p400"
    by (simp_all only: div_Suc p4_def p100_def p400_def c_def f_def j) auto
  ultimately show ?thesis by (cases p4; cases p100; cases p400) simp_all
qed

lemma year_loop_days:
  assumes "1 \<le> y" and "year_loop y r = (y', r')"
  shows "days_before y' + r' = days_before y + r \<and> r' < (if leap y' then 366 else 365) \<and> y \<le> y'"
  using assms
proof (induction y r rule: year_loop.induct)
  case (1 y r)
  then show ?case
  proof (cases "r < (if leap y then 366 else 365)")
    case True
    then show ?thesis using "1.prems" by (simp add: year_loop.simps [of y r])
  next
    case False
    then have "year_loop (y + 1) (r - (if leap y then 366 else 365)) = (y', r')"
      using "1.prems"(2) by (simp add: year_loop.simps [of y r])
    then have "days_before y' + r' = days_before (y + 1) + (r - (if leap y then 366 else 365)) \<and>
        r' < (if leap y' then 366 else 365) \<and> y + 1 \<le> y'"
      using "1.IH" [OF refl False] "1.prems"(1) by simp
    then show ?thesis using days_before_Suc [OF "1.prems"(1)] False by (auto split: if_splits)
  qed
qed

lemma month_loop_sum:
  assumes "r < sum_list ls"
  shows "\<exists>k r'. month_loop ls m r = Some (m + k, r') \<and> k < length ls \<and> r' < ls ! k \<and>
    r = sum_list (take k ls) + r'"
  using assms
proof (induction ls arbitrary: m r)
  case Nil
  then show ?case by simp
next
  case (Cons len ls)
  show ?case
  proof (cases "len \<le> r")
    case True
    then have "r - len < sum_list ls" using Cons.prems by simp
    from Cons.IH [OF this, of "Suc m"] obtain k r' where
      "month_loop ls (Suc m) (r - len) = Some (Suc m + k, r')" "k < length ls" "r' < ls ! k"
      "r - len = sum_list (take k ls) + r'" by blast
    then show ?thesis using True by (intro exI [of _ "Suc k"] exI [of _ r']) auto
  next
    case False
    then show ?thesis by (intro exI [of _ 0] exI [of _ r]) simp
  qed
qed

lemma month_lengths_days: "month_lengths y = map (month_days y) [1..<13]"
  by (simp add: month_lengths_def month_days_def upt_conv_Cons)

lemma year_sum: "sum_list (month_lengths y) = (if leap y then 366 else 365)"
  by (simp add: month_lengths_def)

text \<open>
  The date printed beside a measurement is the calendar's: whatever the clock says, the loops end at a month and a
  day of that month, and the number of that day in the Gregorian calendar is as many days past the first of
  January 1970 as there are whole days in the seconds. The table of months is never read past its end.
\<close>

theorem today_exact:
  "\<exists>y m d. today seconds = Some (zero_padded 4 (show_nat y) @ ''-'' @ zero_padded 2 (show_nat m) @ ''-''
       @ zero_padded 2 (show_nat d)) \<and>
     1970 \<le> y \<and> m \<in> {1..12} \<and> d \<in> {1..month_days y m} \<and>
     day_number y m d = day_number 1970 1 1 + unat seconds div 86400"
proof -
  obtain y r where year: "year_loop 1970 (unat seconds div 86400) = (y, r)" by fastforce
  have y: "days_before y + r = days_before 1970 + unat seconds div 86400" "r < sum_list (month_lengths y)" "1970 \<le> y"
    using year_loop_days [OF _ year] by (simp_all add: year_sum)
  obtain k r' where month: "month_loop (month_lengths y) 0 r = Some (k, r')" "k < 12" "r' < month_lengths y ! k"
      "r = sum_list (take k (month_lengths y)) + r'"
    using month_loop_sum [OF y(2), of 0] by (auto simp: month_lengths_days)
  have "r' < month_days y (k + 1)" using month(2,3) by (simp add: month_lengths_days nth_append)
  moreover have "take k [1..<13] = [1..<k + 1]" using month(2) by (simp add: take_upt)
  then have "r = sum_list (map (month_days y) [1..<k + 1]) + r'"
    using month(4) by (simp add: month_lengths_days take_map del: upt_Suc)
  then have "day_number y (k + 1) (r' + 1) = day_number 1970 1 1 + unat seconds div 86400"
    using y(1) by (simp add: day_number_def del: upt_Suc)
  ultimately show ?thesis using year month(1,2) y(3)
    by (intro exI [of _ y] exI [of _ "k + 1"] exI [of _ "r' + 1"]) (simp add: today_def)
qed

section \<open>The estimate a measurement supports\<close>

text \<open>
  The estimate recommended for a measurement is a twentieth over it, rounded up to a quarter gibibyte and by less
  than one, for every measurement short of the last few terabytes a word can hold; and it says nothing
  where nothing was measured.
\<close>

theorem recommended_exact:
  assumes "unat measured + unat measured div 20 + 256 \<le> 2 ^ 32"
  shows "256 dvd unat (recommended_of measured) \<and>
    unat measured + unat measured div 20 \<le> unat (recommended_of measured) \<and>
    unat (recommended_of measured) < unat measured + unat measured div 20 + 256"
proof -
  define w where "w = measured + measured div 20"
  have w: "unat w = unat measured + unat measured div 20"
    using assms unat_plus_exact [of measured "measured div 20"] by (simp add: w_def unat_div_distrib)
  define d where "d = unat w div 256"
  define m where "m = unat w mod 256"
  have split: "unat w = d * 256 + m" "m < 256" by (simp_all add: d_def m_def)
  have lim: "unat w \<le> 4294967040" using assms w by simp
  then have limit: "d < 16777216" using split by linarith
  define q where "q = (if m = 0 then d else d + 1)"
  have q: "q * 256 < 2 ^ 32" "unat w \<le> q * 256" "q * 256 < unat w + 256"
  proof -
    have "m \<noteq> 0 \<Longrightarrow> d < 16777215" using split lim by linarith
    then show "q * 256 < 2 ^ 32" using limit by (simp add: q_def)
    show "unat w \<le> q * 256" "q * 256 < unat w + 256" using split by (simp_all add: q_def)
  qed
  have "w mod 256 = 0 \<longleftrightarrow> m = 0"
    unfolding m_def using unat_mod_distrib [of w 256] unat_eq_zero [of "w mod 256"] by simp
  moreover have small: "unat (w div 256) = d" by (simp add: d_def unat_div_distrib)
  moreover have "unat (w div 256 + 1) = d + 1"
    using unat_plus_exact [of "w div 256" 1] limit unfolding small by simp
  ultimately have "unat (div_ceil w 256) = q" by (simp add: div_ceil_def Let_def q_def)
  then have "unat (recommended_of measured) = q * 256"
    using unat_mult_exact [of "div_ceil w 256" 256] q(1) by (simp add: recommended_of_def w_def [symmetric])
  then show ?thesis using w q(2,3) by simp
qed

theorem recommended_exact_witness:
  "unat (recommended_of 28715) = 30208 \<and> 28715 + 28715 div 20 \<le> unat (recommended_of 28715)"
proof -
  have "unat (28715 :: u32) = 28715" by simp
  then have "unat (28715 :: u32) + unat (28715 :: u32) div 20 + 256 \<le> 2 ^ 32" by simp
  from recommended_exact [OF this] show ?thesis by (auto simp: dvd_def)
qed

section \<open>What an entry is asked\<close>

lemma flag_set_member: "flag_set flags name \<longleftrightarrow> (\<exists>v. map_of flags name = Some v \<and> switched_on v)"
  by (auto simp: flag_set_def switched_on_def split: option.splits)

text \<open>
  An entry is timed as what the catalogue lists it as: the bench asks it to generate exactly when it is offered as
  something to talk to, and an entry charged without a cache is never one of those.
\<close>

theorem timed_as_listed:
  "(answers (e_flags e) = Completions \<longleftrightarrow> generates e) \<and> \<not> (keeps_no_cache (e_flags e) \<and> generates e)"
  by (auto simp: answers_def flag_set_member generates_def keeps_no_cache_def find_flag_def switched_on_def
      List.map_filter_simps split: option.splits)

text \<open>
  The other way round it fails: the estimator believes the first spelling it finds, the other two any of them.
\<close>

lemma cache_charged_unkept:
  "map_of (e_flags e) ''embeddings'' = Some ''false'' \<Longrightarrow> map_of (e_flags e) ''reranking'' = Some ''true'' \<Longrightarrow>
     \<not> generates e \<and> answers (e_flags e) = Reranking \<and> \<not> keeps_no_cache (e_flags e)"
proof -
  have t: "switched_on ''true''" "\<not> switched_on ''false''" by code_simp+
  assume "map_of (e_flags e) ''embeddings'' = Some ''false''" "map_of (e_flags e) ''reranking'' = Some ''true''"
  then show ?thesis using t
    by (auto simp: answers_def flag_set_member generates_def keeps_no_cache_def find_flag_def switched_on_def
      List.map_filter_simps split: option.splits)
qed

end
