(* ===== verification/Process.thy ===== *)
theory Process
  imports Slots_Machine Bench
begin

text \<open>
  The process around the router (\<open>src/src/main.rs\<close>): the argument table, and what happens between a
  termination signal and the exit. The threads of the router go on while the process stops, so the
  stop is one more thread of the machine of \<open>Slots_Machine\<close>, the last; what the process adds is the
  handler's flag, how far the stopping thread is, and the exit.
\<close>

section \<open>The argument table\<close>

definition usage :: string where
  "usage = ''usage: model-router check <catalog>'' @ [newline]
     @ ''       model-router bench <catalog> [model]'' @ [newline]
     @ ''       model-router launch <catalog> <model>'' @ [newline]
     @ ''       model-router serve <catalog> [address]''"

definition main_report :: "string + string list \<Rightarrow> said" where
  "main_report outcome =
     (case outcome of
        Inr ls \<Rightarrow> \<lparr>sd_out = ls, sd_err = [], sd_success = True\<rparr>
      | Inl complaint \<Rightarrow> \<lparr>sd_out = [], sd_err = [complaint], sd_success = False\<rparr>)"

text \<open>
  What \<open>serve\<close> has said when it serves: once its lines are out the handler of termination signals is
  registered, and a refusal of that is its complaint. It then serves until it is signalled.
\<close>

definition serve_said :: "string + unit \<Rightarrow> string + (router \<times> string list) \<Rightarrow> said" where
  "serve_said handled outcome =
     (case outcome of
        Inl complaint \<Rightarrow> main_report (Inl complaint)
      | Inr (_, ls) \<Rightarrow>
          (case handled of
             Inl error \<Rightarrow> \<lparr>sd_out = ls, sd_err = [''cannot handle termination signals: '' @ error], sd_success = False\<rparr>
           | Inr _ \<Rightarrow> main_report (Inr ls)))"

text \<open>The commands on this machine.\<close>

record commands =
  cm_check :: "string \<Rightarrow> said"
  cm_bench :: "string \<Rightarrow> string option \<Rightarrow> string + string list"
  cm_launch :: "string \<Rightarrow> string \<Rightarrow> string + string list"
  cm_serve :: "string \<Rightarrow> string option \<Rightarrow> said"

definition main_run :: "commands \<Rightarrow> string list \<Rightarrow> said" where
  "main_run cm args =
     (let refused = \<lparr>sd_out = [], sd_err = [usage], sd_success = False\<rparr> in
      case args of
        [command, path] \<Rightarrow>
          if command = ''check'' then cm_check cm path
          else if command = ''bench'' then main_report (cm_bench cm path None)
          else if command = ''serve'' then cm_serve cm path None
          else refused
      | [command, path, operand] \<Rightarrow>
          if command = ''bench'' then main_report (cm_bench cm path (Some operand))
          else if command = ''launch'' then main_report (cm_launch cm path operand)
          else if command = ''serve'' then cm_serve cm path (Some operand)
          else refused
      | _ \<Rightarrow> refused)"

section \<open>From a signal to the exit\<close>

text \<open>
  How far the stopping thread is: not started, counting the loaded entries one slot at a time, or in
  \<open>Router::stop\<close> with the count it will print.
\<close>

datatype stopper = Waiting | Counting "entry list" nat | Emptying nat

record process =
  pr_machine :: machine_state
  pr_signalled :: bool
  pr_stopper :: stopper
  pr_stop_flag :: bool \<comment> \<open>\<open>reaper::Stop\<close>\<close>
  pr_printed :: "string list"
  pr_exit :: "int option"

definition exit_process :: "int \<Rightarrow> string \<Rightarrow> process \<Rightarrow> process" where
  "exit_process status line p = p\<lparr>pr_printed := pr_printed p @ [line], pr_exit := Some status\<rparr>"

text \<open>
  The stopping thread is number \<open>n\<close>. Nothing happens after the exit: no other thread is waited for, and no
  destructor of theirs runs.
\<close>

inductive process_step :: "budget \<Rightarrow> entry list \<Rightarrow> idle_window \<Rightarrow> nat \<Rightarrow> process \<Rightarrow> process \<Rightarrow> bool"
  for b es window n where
  others: "pr_exit p = None \<Longrightarrow> step b es window (pr_machine p) m \<Longrightarrow>
     ms_threads m ! n = ms_threads (pr_machine p) ! n \<Longrightarrow>
     process_step b es window n p (p\<lparr>pr_machine := m\<rparr>)"
| signal: "pr_exit p = None \<Longrightarrow> \<not> pr_signalled p \<Longrightarrow>
     process_step b es window n p (p\<lparr>pr_signalled := True, pr_stopper := Counting es 0\<rparr>)"
| signal_again: "pr_exit p = None \<Longrightarrow> pr_signalled p \<Longrightarrow>
     process_step b es window n p
       (exit_process 1 ''signalled again: exiting without waiting for the children'' p)"
| counting: "pr_exit p = None \<Longrightarrow> pr_stopper p = Counting (x # todo) k \<Longrightarrow>
     process_step b es window n p
       (p\<lparr>pr_stopper := Counting todo (k + length (read_slot x (ms_world (pr_machine p))))\<rparr>)"
| stopping: "pr_exit p = None \<Longrightarrow> pr_stopper p = Counting [] k \<Longrightarrow> step b es window (pr_machine p) m \<Longrightarrow>
     ms_threads (pr_machine p) ! n = Resting \<Longrightarrow> slot_order es ids \<Longrightarrow>
     ms_threads m ! n = Clearing ids [] \<Longrightarrow>
     process_step b es window n p (p\<lparr>pr_machine := m, pr_stopper := Emptying k\<rparr>)"
| emptying: "pr_exit p = None \<Longrightarrow> pr_stopper p = Emptying k \<Longrightarrow> step b es window (pr_machine p) m \<Longrightarrow>
     ms_threads (pr_machine p) ! n \<noteq> Resting \<Longrightarrow> ms_threads m ! n \<noteq> ms_threads (pr_machine p) ! n \<Longrightarrow>
     process_step b es window n p (p\<lparr>pr_machine := m\<rparr>)"
| stopped: "pr_exit p = None \<Longrightarrow> pr_stopper p = Emptying k \<Longrightarrow> ms_threads (pr_machine p) ! n = Resting \<Longrightarrow>
     process_step b es window n p
       (exit_process 0 (''stopping: ended '' @ children_text k) (p\<lparr>pr_stop_flag := True\<rparr>))"

text \<open>Before a signal: the machine with one more thread, for the stop.\<close>

definition calm :: "machine_state \<Rightarrow> process" where
  "calm m = \<lparr>pr_machine = m, pr_signalled = False, pr_stopper = Waiting, pr_stop_flag = False,
     pr_printed = [], pr_exit = None\<rparr>"

inductive process_reachable :: "budget \<Rightarrow> entry list \<Rightarrow> idle_window \<Rightarrow> nat \<Rightarrow> process \<Rightarrow> bool"
  for b es window n where
  starts: "process_reachable b es window n (calm (at_rest (Suc n)))"
| continues: "process_reachable b es window n p \<Longrightarrow> process_step b es window n p p' \<Longrightarrow>
     process_reachable b es window n p'"

end
