(* ===== verification/Process_Laws.thy ===== *)
theory Process_Laws
  imports Process Slots_Safety
begin

text \<open>
  What a signal does to the children. The process is the interleaved machine, so its invariants hold
  until the exit; a child that sat in a slot when the signal came is ended unless a request holds
  it, the stop needs no other thread to move, and a child that was being started is left behind.
\<close>

section \<open>The machine inside the process\<close>

lemma process_machine:
  assumes "process_reachable b es window n p"
  shows "reachable b es window (Suc n) (pr_machine p)"
  using assms
proof induction
  case starts
  then show ?case using begins by (simp add: calm_def)
next
  case (continues p p')
  from continues.hyps(2) continues.IH show ?case
    by cases (auto simp: exit_process_def intro: goes_on)
qed

lemma step_length: "step b es window m m' \<Longrightarrow> length (ms_threads m') = length (ms_threads m)"
  by (induction rule: step.induct) auto

lemma reachable_length: "reachable b es window n m \<Longrightarrow> length (ms_threads m) = n"
  by (induction rule: reachable.induct) (auto simp: at_rest_def step_length)

section \<open>The stopping thread\<close>

fun left_to_clear :: "activity \<Rightarrow> string list" where
  "left_to_clear (Clearing ids taken) = ids"
| "left_to_clear (Dropping c a) = left_to_clear a"
| "left_to_clear _ = []"

fun stop_work :: "activity \<Rightarrow> nat" where
  "stop_work (Clearing ids taken) = 1 + 3 * length ids + 2 * length taken"
| "stop_work (Dropping c a) = Suc (stop_work a)"
| "stop_work _ = 0"

lemma clearing_moves:
  assumes "clearing_now a"
  shows "\<exists>a' w'. moves b es window a w a' w' \<and> stop_work a' < stop_work a \<and> (clearing_now a' \<or> a' = Resting)"
  using assms
proof (cases a rule: clearing_now.cases)
  case (1 ids taken)
  show ?thesis
  proof (cases ids)
    case Nil
    show ?thesis
    proof (cases taken)
      case Nil
      then show ?thesis using cleared 1 \<open>ids = []\<close> by (intro exI [of _ Resting] exI [of _ w]) auto
    next
      case (Cons held rest)
      then show ?thesis using clear_drop [of b es window held rest w] 1 \<open>ids = []\<close>
        by (intro exI [of _ "Dropping (sc_child held) (Clearing [] rest)"] exI [of _ w]) auto
    qed
  next
    case (Cons i rest)
    show ?thesis
    proof (cases "wd_slots w i")
      case None
      then show ?thesis using clear_none [OF None] 1 Cons by (intro exI [of _ "Clearing rest taken"] exI [of _ w]) auto
    next
      case (Some held)
      then show ?thesis using clear_one [OF Some] 1 Cons
        by (intro exI [of _ "Clearing rest (taken @ [held])"] exI [of _ "put_slot i None w"]) auto
    qed
  qed
next
  case (2 c a')
  then show ?thesis using drop assms by (intro exI [of _ a'] exI [of _ "drop_child c w"]) auto
qed (use assms in auto)

lemma clearing_admits: "clearing_now a \<Longrightarrow> \<not> admitting_now a"
  by (induction a rule: clearing_now.induct) auto

lemma clearing_goes:
  assumes "moves b es window a w a' w'" and "clearing_now a" and "a' \<noteq> a"
  shows "clearing_now a' \<or> a' = Resting"
  using assms by (induction rule: moves.induct) auto

lemma clearing_clears:
  assumes "moves b es window a w a' w'" and "clearing_now a"
  shows "(left_to_clear a' = left_to_clear a \<and> wd_slots w' = wd_slots w) \<or>
    (\<exists>i. left_to_clear a = i # left_to_clear a' \<and> wd_slots w' i = None)"
  using assms by (induction rule: moves.induct) (auto simp: drop_child_def put_slot_def Let_def)

text \<open>Where the stopping thread is agrees with how far the process is.\<close>

definition stage_ok :: "entry list \<Rightarrow> nat \<Rightarrow> process \<Rightarrow> bool" where
  "stage_ok es n p \<longleftrightarrow>
     (let a = ms_threads (pr_machine p) ! n in
      case pr_stopper p of
        Emptying k \<Rightarrow> clearing_now a \<or> a = Resting
      | _ \<Rightarrow> a = Resting) \<and>
     (pr_signalled p \<longleftrightarrow> pr_stopper p \<noteq> Waiting)"

lemma step_other:
  assumes "step b es window m m'" and "ms_threads m' ! n \<noteq> ms_threads m ! n"
  shows "\<exists>a w. moves b es window (ms_threads m ! n) (ms_world m) a w \<and> ms_threads m' ! n = a \<and> ms_world m' = w"
  using assms by cases (auto simp: nth_list_update split: if_splits)

lemma stage_step:
  assumes "process_step b es window n p p'" and "stage_ok es n p"
  shows "stage_ok es n p'"
  using assms
proof cases
  case (emptying k m)
  obtain a w where "moves b es window (ms_threads (pr_machine p) ! n) (ms_world (pr_machine p)) a w" "ms_threads m ! n = a"
    using step_other [OF emptying(4,6)] by blast
  then show ?thesis using clearing_goes emptying assms(2) by (fastforce simp: stage_ok_def)
qed (auto simp: stage_ok_def exit_process_def split: stopper.splits)

lemma reachable_stage: "process_reachable b es window n p \<Longrightarrow> stage_ok es n p"
proof (induction rule: process_reachable.induct)
  case starts
  then show ?case by (simp add: stage_ok_def calm_def at_rest_def nth_append del: replicate_Suc)
next
  case (continues p p')
  then show ?case using stage_step by blast
qed

section \<open>What was idle is ended\<close>

fun inserting :: "nat \<Rightarrow> activity \<Rightarrow> bool" where
  "inserting h (Inserting e held) \<longleftrightarrow> handle_of held = h"
| "inserting h (Dropping c a) = inserting h a"
| "inserting h _ = False"

text \<open>
  A child that has been started and is in no thread's hands to be inserted never comes back into a slot it
  left; and the slots the stopping thread is past do not hold it.
\<close>

definition settled_in :: "entry list \<Rightarrow> nat \<Rightarrow> nat \<Rightarrow> process \<Rightarrow> bool" where
  "settled_in es n h p \<longleftrightarrow>
     (let m = pr_machine p in
      h \<in> set (ms_launched m) \<and> (\<forall>a \<in> set (ms_threads m). \<not> inserting h a) \<and>
      (\<forall>k. pr_stopper p = Emptying k \<longrightarrow>
         (\<forall>i \<in> e_id ` set es - set (left_to_clear (ms_threads m ! n)).
            \<forall>held. wd_slots (ms_world m) i = Some held \<longrightarrow> handle_of held \<noteq> h)))"

lemma moves_inserting:
  assumes "moves b es window a w a' w'" and "\<not> inserting h a" and "\<not> fresh_handle h w"
  shows "\<not> inserting h a'"
  using assms by (induction rule: moves.induct) auto

lemma moves_not_back:
  assumes "moves b es window a w a' w'" and "\<not> inserting h a"
    and "wd_slots w' i = Some held'" and "handle_of held' = h"
  shows "\<exists>held. wd_slots w i = Some held \<and> handle_of held = h"
proof (cases "\<exists>e held. a = Inserting e held")
  case True
  then obtain e held where a: "a = Inserting e held" by blast
  with assms(1) have "wd_slots w' = (wd_slots w)(e_id e \<mapsto> held)"
    by (auto elim!: insert_moves dest: inserted_slots)
  then show ?thesis using assms(2-4) a by (auto split: if_splits)
next
  case False
  then have "shrunk (wd_slots w) (wd_slots w')" using moves_shrunk [OF assms(1)] by blast
  then show ?thesis using assms(3,4) unfolding shrunk_def by fastforce
qed

lemma launched_grows: "step b es window m m' \<Longrightarrow> set (ms_launched m) \<subseteq> set (ms_launched m')"
  by (induction rule: step.induct) auto

lemma step_not_back:
  assumes "step b es window m m'" and "accounted m" and "h \<in> set (ms_launched m)"
    and "\<forall>a \<in> set (ms_threads m). \<not> inserting h a"
  shows "(\<forall>a \<in> set (ms_threads m'). \<not> inserting h a) \<and>
    (\<forall>i held'. wd_slots (ms_world m') i = Some held' \<longrightarrow> handle_of held' = h \<longrightarrow>
       (\<exists>held. wd_slots (ms_world m) i = Some held \<and> handle_of held = h))"
  using assms(1)
proof cases
  case (thread k a w)
  have old: "\<not> fresh_handle h (ms_world m)" using assms(2,3) by (auto simp: accounted_def fresh_handle_def)
  have k: "\<not> inserting h (ms_threads m ! k)" using assms(4) thread(2) by simp
  have "\<not> inserting h a" using moves_inserting [OF thread(3) k old] .
  then show ?thesis
    using thread(1) assms(4) set_update_subset_insert [of "ms_threads m" k a] moves_not_back [OF thread(3) k] by auto
qed (use assms(4) in auto)

lemma step_stays:
  assumes "step b es window m m'" and "k < length (ms_threads m)" and "ms_threads m' ! k \<noteq> ms_threads m ! k"
    and "clearing_now (ms_threads m ! k)" and "i \<notin> set (left_to_clear (ms_threads m' ! k))"
    and "i \<in> set (left_to_clear (ms_threads m ! k))"
  shows "wd_slots (ms_world m') i = None"
proof -
  obtain a w where "moves b es window (ms_threads m ! k) (ms_world m) a w" "ms_threads m' ! k = a" "ms_world m' = w"
    using step_other [OF assms(1,3)] by blast
  with clearing_clears [OF this(1) assms(4)] assms(5,6) show ?thesis by fastforce
qed

lemma settled_step:
  assumes "process_step b es window n p p'" and "settled_in es n h p" and "accounted (pr_machine p)"
    and "stage_ok es n p" and "n < length (ms_threads (pr_machine p))"
  shows "settled_in es n h p'"
proof -
  have h: "h \<in> set (ms_launched (pr_machine p))" "\<forall>a \<in> set (ms_threads (pr_machine p)). \<not> inserting h a"
    and cleared: "\<And>k i held. pr_stopper p = Emptying k \<Longrightarrow> i \<in> e_id ` set es \<Longrightarrow>
      i \<notin> set (left_to_clear (ms_threads (pr_machine p) ! n)) \<Longrightarrow>
      wd_slots (ms_world (pr_machine p)) i = Some held \<Longrightarrow> handle_of held \<noteq> h"
    using assms(2) by (auto simp: settled_in_def Let_def)
  have kept: "h \<in> set (ms_launched m)" "\<forall>a \<in> set (ms_threads m). \<not> inserting h a"
    "\<And>i held'. wd_slots (ms_world m) i = Some held' \<Longrightarrow> handle_of held' = h \<Longrightarrow>
       \<exists>held. wd_slots (ms_world (pr_machine p)) i = Some held \<and> handle_of held = h"
    if "step b es window (pr_machine p) m" for m
    using step_not_back [OF that assms(3) h] launched_grows [OF that] h(1) by auto
  from assms(1) show ?thesis
  proof cases
    case (others m)
    then show ?thesis using kept [OF others(3)] cleared unfolding settled_in_def Let_def by fastforce
  next
    case (stopping k m ids)
    then show ?thesis using kept [OF stopping(4)] by (auto simp: settled_in_def slot_order_set [OF stopping(6)])
  next
    case (emptying k m)
    have clearing: "clearing_now (ms_threads (pr_machine p) ! n)"
      using assms(4) emptying(3,5) by (simp add: stage_ok_def)
    have "handle_of held' \<noteq> h" if i: "i \<in> e_id ` set es" "i \<notin> set (left_to_clear (ms_threads m ! n))"
      and slot: "wd_slots (ms_world m) i = Some held'" for i held'
    proof (cases "i \<in> set (left_to_clear (ms_threads (pr_machine p) ! n))")
      case True
      then show ?thesis using step_stays [OF emptying(4) assms(5) emptying(6) clearing i(2)] slot by simp
    next
      case False
      then show ?thesis using kept(3) [OF emptying(4) slot] cleared [OF emptying(3) i(1)] by blast
    qed
    then show ?thesis using emptying(1) kept [OF emptying(4)] by (auto simp: settled_in_def)
  qed (use assms(2) in \<open>auto simp: settled_in_def exit_process_def Let_def\<close>)
qed

lemma exit_stage:
  assumes "process_step b es window n p p'" and "pr_exit p' = Some 0"
  shows "\<exists>k. pr_stopper p' = Emptying k \<and> ms_threads (pr_machine p') ! n = Resting"
  using assms by cases (auto simp: exit_process_def)

lemma not_running_stays: "process_step b es window n p p' \<Longrightarrow> pr_exit p = None"
  by (induction rule: process_step.induct) auto

lemma settled_run:
  assumes "(process_step b es window n)\<^sup>*\<^sup>* p0 p" and "process_reachable b es window n p0"
    and "settled_in es n h p0" and "distinct (map e_id es)" and "length es < 2 ^ 30" and "pr_exit p0 = None"
  shows "process_reachable b es window n p \<and> settled_in es n h p \<and>
    (pr_exit p = Some 0 \<longrightarrow> (\<exists>k. pr_stopper p = Emptying k \<and> ms_threads (pr_machine p) ! n = Resting))"
  using assms(1)
proof induction
  case base
  then show ?case using assms(2,3,6) by simp
next
  case (step q q')
  have q: "process_reachable b es window n q" "settled_in es n h q" using step.IH by auto
  have "accounted (pr_machine q)"
    using reachable_safe [OF process_machine [OF q(1)] assms(4,5)] by (simp add: safe_def machine_ok_def)
  moreover have "n < length (ms_threads (pr_machine q))" using reachable_length [OF process_machine [OF q(1)]] by simp
  ultimately have "settled_in es n h q'" using settled_step [OF step.hyps(2) q(2)] reachable_stage [OF q(1)] by blast
  then show ?case using continues [OF q(1) step.hyps(2)] exit_stage [OF step.hyps(2)] by blast
qed

lemma sound_not_inserting:
  "sound b es slots a \<Longrightarrow> slots i = Some x \<Longrightarrow> \<not> inserting (handle_of x) a"
  by (induction a) fastforce+

text \<open>
  C18: A router that is asked to end takes its idle children with it. Whatever the threads do meanwhile, a child that
  was in a slot at any moment before the signal and is not there for a request to read from when the process exits
  cleanly has been ended; nothing but a thread that still holds it can keep it.
\<close>

theorem stop_ends_what_is_idle:
  assumes "process_reachable b es window n p0" and "pr_exit p0 = None" and "pr_stopper p0 = Waiting"
    and "distinct (map e_id es)" and "length es < 2 ^ 30"
    and "wd_slots (ms_world (pr_machine p0)) i = Some held"
    and "(process_step b es window n)\<^sup>*\<^sup>* p0 p" and "pr_exit p = Some 0"
  shows "handle_of held \<in> set (wd_ended (ms_world (pr_machine p))) \<or>
    (\<exists>k < n. 0 < holds (ms_threads (pr_machine p) ! k) (handle_of held))"
proof -
  let ?h = "handle_of held"
  note safe = reachable_safe [OF process_machine [OF assms(1)] assms(4,5)]
  have refs: "refs_ok (e_id ` set es) (readers (ms_threads (pr_machine p0))) (ms_world (pr_machine p0))"
    and acc: "accounted (pr_machine p0)"
    and sound: "\<forall>a \<in> set (ms_threads (pr_machine p0)). sound b es (wd_slots (ms_world (pr_machine p0))) a"
    using safe by (simp_all add: safe_def machine_ok_def counted_def relied_on_def)
  have slot: "in_slot (ms_world (pr_machine p0)) ?h" using assms(6) by (auto simp: in_slot_def)
  then have launched: "?h \<in> set (ms_launched (pr_machine p0))"
    using acc refs_okD(3) [OF refs, of ?h] by (auto simp: accounted_def)
  have "settled_in es n ?h p0"
    using launched assms(3) sound sound_not_inserting [where slots = "wd_slots (ms_world (pr_machine p0))"] assms(6)
    by (auto simp: settled_in_def Let_def)
  from settled_run [OF assms(7,1) this assms(4,5,2)] assms(8) obtain k where p: "process_reachable b es window n p"
      "settled_in es n ?h p" "pr_stopper p = Emptying k" "ms_threads (pr_machine p) ! n = Resting" by blast
  have refs': "refs_ok (e_id ` set es) (readers (ms_threads (pr_machine p))) (ms_world (pr_machine p))"
    and acc': "accounted (pr_machine p)"
    using reachable_safe [OF process_machine [OF p(1)] assms(4,5)]
    by (simp_all add: safe_def machine_ok_def counted_def)
  have "\<not> in_slot (ms_world (pr_machine p)) ?h"
    using p(2,3,4) refs_okD(1) [OF refs'] by (fastforce simp: settled_in_def Let_def in_slot_def)
  then have "wd_strong (ms_world (pr_machine p)) ?h = readers (ms_threads (pr_machine p)) ?h"
    using refs_okD(3) [OF refs', of ?h] by simp
  moreover have "?h \<in> set (ms_launched (pr_machine p))" using p(2) by (simp add: settled_in_def Let_def)
  ultimately have "?h \<in> set (wd_ended (ms_world (pr_machine p))) \<or> 0 < readers (ms_threads (pr_machine p)) ?h"
    using acc' by (auto simp: accounted_def)
  moreover have "\<exists>k < n. 0 < holds (ms_threads (pr_machine p) ! k) ?h" if "0 < readers (ms_threads (pr_machine p)) ?h"
  proof -
    have "length (ms_threads (pr_machine p)) = Suc n" by (rule reachable_length [OF process_machine [OF p(1)]])
    moreover from that have "\<exists>a \<in> set (ms_threads (pr_machine p)). 0 < holds a ?h"
      unfolding readers_def zero_less_iff_neq_zero sum_list_eq_0_iff by simp
    then obtain a where "a \<in> set (ms_threads (pr_machine p))" "0 < holds a ?h" by blast
    ultimately obtain j where "j < Suc n" "0 < holds (ms_threads (pr_machine p) ! j) ?h" by (metis in_set_conv_nth)
    then show ?thesis using p(4) by (metis holds.simps less_Suc_eq less_irrefl)
  qed
  ultimately show ?thesis by blast
qed

section \<open>The stop waits for nobody\<close>

text \<open>How much the stopping thread has left to do.\<close>

definition stop_left :: "entry list \<Rightarrow> nat \<Rightarrow> process \<Rightarrow> nat" where
  "stop_left es n p = (case pr_stopper p of
     Counting todo k \<Rightarrow> length todo + length es * 3 + 3 | _ \<Rightarrow> stop_work (ms_threads (pr_machine p) ! n))"

text \<open>A step in which only the stopping thread moves: the others stay where they are, with the admission lock in the same hands.\<close>

definition stopper_only :: "budget \<Rightarrow> entry list \<Rightarrow> idle_window \<Rightarrow> nat \<Rightarrow> process \<Rightarrow> process \<Rightarrow> bool" where
  "stopper_only b es window n p p' \<longleftrightarrow>
     process_step b es window n p p' \<and>
     (\<forall>k. k \<noteq> n \<longrightarrow> ms_threads (pr_machine p') ! k = ms_threads (pr_machine p) ! k) \<and>
     ms_admission (pr_machine p') = ms_admission (pr_machine p)"

lemma stopper_step:
  assumes "n < length (ms_threads m)" and "moves b es window (ms_threads m ! n) (ms_world m) a w"
    and "\<not> admitting_now a" and "\<not> admitting_now (ms_threads m ! n)"
  obtains m' where "step b es window m m'" "ms_threads m' = (ms_threads m)[n := a]" "ms_admission m' = ms_admission m"
  using thread [OF assms(1,2)] assms(3,4) that by (fastforce simp: lock_after_def)

lemma stopper_begins:
  assumes "n < length (ms_threads (pr_machine p))" and "stage_ok es n p" and "pr_exit p = None"
    and "pr_stopper p = Counting [] k"
  obtains p' where "stopper_only b es window n p p'" "pr_exit p' = None" "pr_signalled p' = pr_signalled p" "stop_left es n p' < stop_left es n p"
proof -
  let ?m = "pr_machine p"
  have rest: "ms_threads ?m ! n = Resting" using assms(2,4) by (simp add: stage_ok_def)
  have "moves b es window (ms_threads ?m ! n) (ms_world ?m) (Clearing (map e_id es) []) (ms_world ?m)"
    unfolding rest by (rule stop [OF slot_order_refl])
  from stopper_step [OF assms(1) this] rest obtain m' where m: "step b es window ?m m'"
      "ms_threads m' = (ms_threads ?m)[n := Clearing (map e_id es) []]" "ms_admission m' = ms_admission ?m" by auto
  have "process_step b es window n p (p\<lparr>pr_machine := m', pr_stopper := Emptying k\<rparr>)"
    by (rule stopping [OF assms(3,4) m(1) rest slot_order_refl]) (simp add: m(2) assms(1))
  then show ?thesis
    by (intro that [of "p\<lparr>pr_machine := m', pr_stopper := Emptying k\<rparr>"])
      (use m(2,3) assms in \<open>simp_all add: stop_left_def stopper_only_def\<close>)
qed

lemma stopper_clears:
  assumes "n < length (ms_threads (pr_machine p))" and "stage_ok es n p" and "pr_exit p = None"
    and "pr_stopper p = Emptying k" and "ms_threads (pr_machine p) ! n \<noteq> Resting"
  obtains p' where "stopper_only b es window n p p'" "pr_exit p' = None" "pr_signalled p' = pr_signalled p" "stop_left es n p' < stop_left es n p"
proof -
  let ?m = "pr_machine p"
  have clearing: "clearing_now (ms_threads ?m ! n)" using assms(2,4,5) by (simp add: stage_ok_def)
  from clearing_moves [OF this] obtain a w where a: "moves b es window (ms_threads ?m ! n) (ms_world ?m) a w"
      "stop_work a < stop_work (ms_threads ?m ! n)" "clearing_now a \<or> a = Resting" by blast
  then have "\<not> admitting_now a" using clearing_admits by auto
  from stopper_step [OF assms(1) a(1) this clearing_admits [OF clearing]] obtain m' where m: "step b es window ?m m'"
      "ms_threads m' = (ms_threads ?m)[n := a]" "ms_admission m' = ms_admission ?m" .
  have "ms_threads m' ! n \<noteq> ms_threads ?m ! n" using m(2) a(2) assms(1) by auto
  from emptying [OF assms(3,4) m(1) assms(5) this] show ?thesis
    by (intro that [of "p\<lparr>pr_machine := m'\<rparr>"])
      (use m(2,3) a(2) assms in \<open>simp_all add: stop_left_def stopper_only_def\<close>)
qed

lemma stopper_runs:
  assumes "process_reachable b es window n p" and "pr_exit p = None" and "pr_signalled p"
  shows "\<exists>p' j. (stopper_only b es window n ^^ j) p p' \<and> j \<le> Suc (stop_left es n p) \<and> pr_exit p' = Some 0"
  using assms
proof (induction "stop_left es n p" arbitrary: p rule: less_induct)
  case less
  note p = reachable_length [OF process_machine [OF less.prems(1)]] reachable_stage [OF less.prems(1)]
  then have n: "n < length (ms_threads (pr_machine p))" by simp
  have on: ?case if "stopper_only b es window n p p'" "pr_exit p' = None" "pr_signalled p' = pr_signalled p"
      "stop_left es n p' < stop_left es n p" for p'
  proof -
    have "process_step b es window n p p'" using that(1) by (simp add: stopper_only_def)
    from less.hyps [OF that(4) continues [OF less.prems(1) this] that(2)] that(3) less.prems(3)
    obtain q j where q: "(stopper_only b es window n ^^ j) p' q" "j \<le> Suc (stop_left es n p')" "pr_exit q = Some 0" by auto
    have "(stopper_only b es window n ^^ Suc j) p q" using that(1) q(1) by (rule relpowp_Suc_I2)
    then show ?thesis using q(2,3) that(4) by (intro exI [of _ q] exI [of _ "Suc j"]) auto
  qed
  consider "pr_stopper p = Waiting" | k where "pr_stopper p = Counting [] k"
    | x todo k where "pr_stopper p = Counting (x # todo) k"
    | k where "pr_stopper p = Emptying k" "ms_threads (pr_machine p) ! n = Resting"
    | k where "pr_stopper p = Emptying k" "ms_threads (pr_machine p) ! n \<noteq> Resting"
    by (metis list.exhaust stopper.exhaust)
  then show ?case
  proof cases
    case 1
    then show ?thesis using p(2) less.prems(3) by (simp add: stage_ok_def)
  next
    case 2
    from stopper_begins [OF n p(2) less.prems(2) 2] show ?thesis using on by blast
  next
    case (3 x todo k)
    show ?thesis
      by (rule on [of "p\<lparr>pr_stopper := Counting todo (k + length (read_slot x (ms_world (pr_machine p))))\<rparr>"])
        (use less.prems 3 counting [OF less.prems(2) 3, of b es window n] in \<open>simp_all add: stop_left_def stopper_only_def\<close>)
  next
    case (4 k)
    from stopped [OF less.prems(2) 4]
    have one: "stopper_only b es window n p (exit_process 0 (''stopping: ended '' @ children_text k) (p\<lparr>pr_stop_flag := True\<rparr>))"
      by (simp add: stopper_only_def exit_process_def)
    have "(stopper_only b es window n ^^ 1) p (exit_process 0 (''stopping: ended '' @ children_text k) (p\<lparr>pr_stop_flag := True\<rparr>))"
      unfolding relpowp_1 by (rule one)
    moreover have "pr_exit (exit_process 0 (''stopping: ended '' @ children_text k) (p\<lparr>pr_stop_flag := True\<rparr>)) = Some 0"
      by (simp add: exit_process_def)
    ultimately show ?thesis by (metis Suc_le_mono One_nat_def le0)
  next
    case 5
    from stopper_clears [OF n p(2) less.prems(2) 5] show ?thesis using on by blast
  qed
qed


lemma stopper_only_steps: "(stopper_only b es window n ^^ j) p p' \<Longrightarrow> (process_step b es window n)\<^sup>*\<^sup>* p p'"
proof (induction j arbitrary: p')
  case (Suc j)
  from Suc.prems obtain q where q: "(stopper_only b es window n ^^ j) p q" "stopper_only b es window n q p'" by auto
  from q(2) have "process_step b es window n q p'" by (simp add: stopper_only_def)
  with Suc.IH [OF q(1)] show ?case by (rule rtranclp.rtrancl_into_rtrancl)
qed simp

section \<open>What is left behind\<close>

text \<open>Every run of the machine is one of a process that was not signalled, with the stopping thread at rest.\<close>

definition with_stopper :: "machine_state \<Rightarrow> machine_state" where
  "with_stopper m = m\<lparr>ms_threads := ms_threads m @ [Resting]\<rparr>"

lemma step_with_stopper:
  assumes "step b es window m m'"
  shows "step b es window (with_stopper m) (with_stopper m')"
  using assms
proof cases
  case (thread k a w)
  then show ?thesis
    using step.thread [of k "with_stopper m" b es window a w]
    by (simp add: with_stopper_def nth_append list_update_append)
next
  case (exits h status)
  then show ?thesis using step.exits [of b es window "with_stopper m" h status]
    by (cases m) (simp add: with_stopper_def)
qed

lemma calm_reachable:
  assumes "reachable b es window n m"
  shows "process_reachable b es window n (calm (with_stopper m))"
  using assms
proof induction
  case begins
  have "with_stopper (at_rest n) = at_rest (Suc n)"
    by (simp add: with_stopper_def at_rest_def replicate_append_same [symmetric])
  then show ?case using starts by metis
next
  case (goes_on m m')
  have len: "length (ms_threads m) = n" "length (ms_threads m') = n"
    using reachable_length [OF goes_on.hyps(1)] step_length [OF goes_on.hyps(2)] by simp_all
  have "process_step b es window n (calm (with_stopper m))
      ((calm (with_stopper m))\<lparr>pr_machine := with_stopper m'\<rparr>)"
    by (rule others) (use step_with_stopper [OF goes_on.hyps(2)] len in \<open>simp_all add: calm_def with_stopper_def nth_append\<close>)
  then show ?case using continues [OF goes_on.IH] by (simp add: calm_def)
qed

text \<open>A router with one thread that is about to start a model's server, signalled, and its stop over.\<close>

definition loading :: process where
  "loading = calm (with_stopper (lone (Starting sample_entry) (Some 0) empty_world []))"

lemma loading_reachable: "process_reachable sample_budget [sample_entry] sample_window 1 loading"
  unfolding loading_def by (rule calm_reachable [OF reaches_starting])

text \<open>That router once the signal came: its one request, the stopping thread, and how far the stop is.\<close>

definition stranding :: "activity \<Rightarrow> activity \<Rightarrow> world \<Rightarrow> nat list \<Rightarrow> stopper \<Rightarrow> process" where
  "stranding a stop w l st =
     \<lparr>pr_machine = \<lparr>ms_threads = [a, stop], ms_admission = Some 0, ms_world = w, ms_launched = l,
        ms_stopping = (stop \<noteq> Resting \<or> st = Emptying 0)\<rparr>,
      pr_signalled = True, pr_stopper = st, pr_stop_flag = False, pr_printed = [], pr_exit = None\<rparr>"

abbreviation strands :: "process \<Rightarrow> process \<Rightarrow> bool" where
  "strands \<equiv> process_step sample_budget [sample_entry] sample_window 1"

lemma stranding_stops: "strands\<^sup>*\<^sup>* loading (stranding (Starting sample_entry) Resting empty_world [] (Emptying 0))"
proof -
  have "strands loading (stranding (Starting sample_entry) Resting empty_world [] (Counting [sample_entry] 0))"
    using signal [of loading sample_budget "[sample_entry]" sample_window 1]
    by (simp add: stranding_def loading_def calm_def with_stopper_def lone_def)
  moreover have "strands (stranding (Starting sample_entry) Resting empty_world [] (Counting [sample_entry] 0))
      (stranding (Starting sample_entry) Resting empty_world [] (Counting [] 0))"
    using counting [of "stranding (Starting sample_entry) Resting empty_world [] (Counting [sample_entry] 0)" sample_entry "[]" 0
        sample_budget "[sample_entry]" sample_window 1]
    by (simp add: stranding_def read_slot_def empty_world_def)
  moreover have "strands (stranding (Starting sample_entry) Resting empty_world [] (Counting [] 0))
      (stranding (Starting sample_entry) (Clearing [''n''] []) empty_world [] (Emptying 0))"
    using stopping [of "stranding (Starting sample_entry) Resting empty_world [] (Counting [] 0)" 0 sample_budget "[sample_entry]" sample_window _ 1]
      thread [of 1 "pr_machine (stranding (Starting sample_entry) Resting empty_world [] (Counting [] 0))" sample_budget "[sample_entry]"
        sample_window "Clearing [''n''] []" empty_world]
      stop [of "[sample_entry]" "[''n'']" sample_budget sample_window empty_world]
    by (simp add: slot_order_def stranding_def lock_after_def sample_entry_def small_entry_def)
  moreover have "strands (stranding (Starting sample_entry) (Clearing [''n''] []) empty_world [] (Emptying 0))
      (stranding (Starting sample_entry) (Clearing [] []) empty_world [] (Emptying 0))"
    using emptying [of "stranding (Starting sample_entry) (Clearing [''n''] []) empty_world [] (Emptying 0)" 0 sample_budget "[sample_entry]" sample_window _ 1]
      thread [of 1 "pr_machine (stranding (Starting sample_entry) (Clearing [''n''] []) empty_world [] (Emptying 0))" sample_budget "[sample_entry]"
        sample_window "Clearing [] []" empty_world]
      clear_none [of empty_world "''n''" sample_budget "[sample_entry]" sample_window "[]" "[]"]
    by (simp add: stranding_def lock_after_def empty_world_def)
  moreover have "strands (stranding (Starting sample_entry) (Clearing [] []) empty_world [] (Emptying 0))
      (stranding (Starting sample_entry) Resting empty_world [] (Emptying 0))"
    using emptying [of "stranding (Starting sample_entry) (Clearing [] []) empty_world [] (Emptying 0)" 0 sample_budget "[sample_entry]" sample_window _ 1]
      thread [of 1 "pr_machine (stranding (Starting sample_entry) (Clearing [] []) empty_world [] (Emptying 0))" sample_budget "[sample_entry]"
        sample_window Resting empty_world]
      cleared [of sample_budget "[sample_entry]" sample_window empty_world]
    by (simp add: stranding_def lock_after_def)
  ultimately show ?thesis by (meson converse_rtranclp_into_rtranclp rtranclp.rtrancl_refl)
qed

lemma stranding_exits:
  "strands\<^sup>*\<^sup>* (stranding (Starting sample_entry) Resting empty_world [] (Emptying 0))
     (exit_process 0 ''stopping: ended 0 children''
       ((stranding (Inserting sample_entry sample_held) Resting started_world [7] (Emptying 0))\<lparr>pr_stop_flag := True\<rparr>))"
proof -
  have "strands (stranding (Starting sample_entry) Resting empty_world [] (Emptying 0))
      (stranding (Inserting sample_entry sample_held) Resting started_world [7] (Emptying 0))"
    using others [of "stranding (Starting sample_entry) Resting empty_world [] (Emptying 0)" sample_budget "[sample_entry]" sample_window _ 1]
      thread [of 0 "pr_machine (stranding (Starting sample_entry) Resting empty_world [] (Emptying 0))" sample_budget "[sample_entry]"
        sample_window "Inserting sample_entry sample_held" started_world]
      start [OF sample_start, of sample_budget "[sample_entry]" sample_window]
    by (simp add: stranding_def lock_after_def sample_held_def sample_child_def)
  moreover have "strands (stranding (Inserting sample_entry sample_held) Resting started_world [7] (Emptying 0))
      (exit_process 0 ''stopping: ended 0 children''
        ((stranding (Inserting sample_entry sample_held) Resting started_world [7] (Emptying 0))\<lparr>pr_stop_flag := True\<rparr>))"
  proof -
    have "''stopping: ended '' @ children_text 0 = ''stopping: ended 0 children''" by code_simp
    then show ?thesis
      using stopped [of "stranding (Inserting sample_entry sample_held) Resting started_world [7] (Emptying 0)" 0 1
          sample_budget "[sample_entry]" sample_window] by (simp add: stranding_def)
  qed
  ultimately show ?thesis by (meson converse_rtranclp_into_rtranclp rtranclp.rtrancl_refl)
qed

text \<open>
  C20: A model that is loading when the signal comes outlives the router. There is a run in which, when the signal
  arrives, no child was ever started and no request is being answered, and yet the router says it ended no children,
  exits with success, and leaves behind a server it started: the stop empties the slots without the admission lock, and
  the exit does not wait for the thread that is starting the child.
\<close>

theorem stop_strands_a_start:
  "\<exists>p. (process_step sample_budget [sample_entry] sample_window 1)\<^sup>*\<^sup>* loading p \<and>
     process_reachable sample_budget [sample_entry] sample_window 1 loading \<and>
     ms_launched (pr_machine loading) = [] \<and> pr_exit p = Some 0 \<and>
     pr_printed p = [''stopping: ended 0 children''] \<and>
     7 \<in> set (ms_launched (pr_machine p)) \<and> 7 \<notin> set (wd_ended (ms_world (pr_machine p)))"
  using rtranclp_trans [OF stranding_stops stranding_exits] loading_reachable
  by (intro exI [of _ "exit_process 0 ''stopping: ended 0 children''
        ((stranding (Inserting sample_entry sample_held) Resting started_world [7] (Emptying 0))\<lparr>pr_stop_flag := True\<rparr>)"])
    (simp add: stranding_def exit_process_def loading_def calm_def with_stopper_def lone_def started_world_def empty_world_def)

text \<open>The same router a little later, relaying an answer of the model it loaded.\<close>

definition relaying :: process where
  "relaying = calm (with_stopper (lone (Serving sample_entry (sample_child 7)) None served_world [7]))"

lemma relaying_reachable: "process_reachable sample_budget [sample_entry] sample_window 1 relaying"
  unfolding relaying_def by (rule calm_reachable [OF reaches_serving])

lemma calm_fields: "pr_exit (calm m) = None" "pr_stopper (calm m) = Waiting" "\<not> pr_signalled (calm m)" "pr_machine (calm m) = m"
  by (simp_all add: calm_def)

lemma signalled_ends:
  assumes "process_reachable b es window n p" and "pr_exit p = None" and "\<not> pr_signalled p"
  shows "\<exists>p'. (process_step b es window n)\<^sup>*\<^sup>* p p' \<and> pr_exit p' = Some 0"
proof -
  let ?p = "p\<lparr>pr_signalled := True, pr_stopper := Counting es 0\<rparr>"
  have first: "process_step b es window n p ?p" by (rule signal [OF assms(2,3)])
  have "process_reachable b es window n ?p" using continues [OF assms(1) first] .
  from stopper_runs [OF this] obtain p' j where j: "(stopper_only b es window n ^^ j) ?p p'" "pr_exit p' = Some 0"
    using assms(2) by auto
  then have "(process_step b es window n)\<^sup>*\<^sup>* ?p p'" using stopper_only_steps by blast
  with j(2) obtain p' where "(process_step b es window n)\<^sup>*\<^sup>* ?p p'" "pr_exit p' = Some 0" by blast
  then show ?thesis using first by (meson converse_rtranclp_into_rtranclp)
qed

theorem stop_ends_what_is_idle_witness:
  "\<exists>p. (process_step sample_budget [sample_entry] sample_window 1)\<^sup>*\<^sup>* relaying p \<and> pr_exit p = Some 0 \<and>
     (7 \<in> set (wd_ended (ms_world (pr_machine p))) \<or> 0 < holds (ms_threads (pr_machine p) ! 0) 7)"
proof -
  have calm: "pr_exit relaying = None" "pr_stopper relaying = Waiting" "\<not> pr_signalled relaying"
    by (simp_all add: relaying_def calm_fields)
  obtain p where p: "(process_step sample_budget [sample_entry] sample_window 1)\<^sup>*\<^sup>* relaying p" "pr_exit p = Some 0"
    using signalled_ends [OF relaying_reachable calm(1,3)] by blast
  have slot: "wd_slots (ms_world (pr_machine relaying)) (e_id sample_entry) = Some sample_held"
    using sample_slot by (simp add: relaying_def calm_fields with_stopper_def lone_def)
  have "handle_of sample_held = 7" by (simp add: sample_held_def sample_child_def)
  with stop_ends_what_is_idle [OF relaying_reachable calm(1,2) sample_entries(1,2) slot p] p show ?thesis by auto
qed


end
