(* ===== verification/Shared.thy ===== *)
theory Shared
  imports Answer Launch
begin

text \<open>
  What every connection thread shares, put together (\<open>Shared::child\<close> of \<open>src/src/proxy/shared.rs\<close>): the
  slots are given the server and the models root, so the file they ask for before they make room is the one
  that server would be started on, and the start is \<open>Server::start\<close>. Each entry meets the operating
  system of its own start.
\<close>

text \<open>Polls enough for the startup budget of the entry: ten a second, one more, and one to see it is over.\<close>

definition start_fuel :: "entry \<Rightarrow> nat" where
  "start_fuel e = from_secs (ucast (e_startup_timeout_seconds e)) div poll_interval + 2"

definition starts :: "(entry \<Rightarrow> launching) \<Rightarrow> server \<Rightarrow> string \<Rightarrow> entry \<Rightarrow> ((failure + child) \<times> nat list) run" where
  "starts os sv root e = server_start (start_fuel e) (os e) sv e root"

text \<open>A start ends with that many polls (\<open>starts_end\<close>), so only its first branch is ever taken.\<close>

definition shared_launcher ::
    "(entry \<Rightarrow> launching) \<Rightarrow> (u32 \<Rightarrow> measurement) \<Rightarrow> server \<Rightarrow> string \<Rightarrow> launcher" where
  "shared_launcher os measuring sv root =
     \<lparr>la_model_file = (\<lambda>e. attempt (model_file (lo_disk (os e)) e root) (\<lambda>_. Inr ())),
      la_start = (\<lambda>e. case starts os sv root e of Done (r, _) \<Rightarrow> r | _ \<Rightarrow> Inl (Unavailable [])),
      la_measure = measuring\<rparr>"

text \<open>\<open>Shared::child\<close>.\<close>

definition shared_child ::
    "nat \<Rightarrow> surroundings \<Rightarrow> (entry \<Rightarrow> launching) \<Rightarrow> (u32 \<Rightarrow> measurement) \<Rightarrow> server \<Rightarrow> string \<Rightarrow> slots \<Rightarrow> catalog
       \<Rightarrow> entry \<Rightarrow> instant \<Rightarrow> world \<Rightarrow> ((failure + child) \<times> world) run" where
  "shared_child fuel su os measuring sv root sl c e now w =
     child_for fuel su (shared_launcher os measuring sv root) sl (c_entries c) e now w"

end
