(* ===== verification/Stub.thy ===== *)
theory Stub
  imports Answer Launch
begin

text \<open>
  The stand-in for \<open>llama-server\<close> that continuous integration supervises
  (\<open>src/src/bin/stub_llama_server/main.rs\<close> and \<open>reply.rs\<close>): what its arguments ask of it, when it starts at
  all, and what it answers one connection. Of a connection it is given the bytes that arrive and what
  the far end still takes; the moment it was accepted is the time since the stub began to serve.
\<close>

section \<open>Text between double quotes\<close>

definition dquoted :: "string \<Rightarrow> string" where
  "dquoted s = [CHR 0x22] @ s @ [CHR 0x22]"

section \<open>What the stub was asked to do (main.rs)\<close>

record pacing =
  pc_events :: usize
  pc_gap :: duration
  pc_die_after :: "usize option"
  pc_hangup_marker :: "string option"

record stub_options =
  so_host :: string
  so_port :: u16
  so_ready_after :: duration
  so_exit_after :: "duration option"
  so_exit_code :: u8
  so_alias :: string
  so_pacing :: pacing
  so_never_bind_marker :: "string option"
  so_never_bind :: bool

definition stub_defaults :: stub_options where
  "stub_defaults =
     \<lparr>so_host = ''127.0.0.1'', so_port = 0, so_ready_after = 0, so_exit_after = None, so_exit_code = 0,
      so_alias = [],
      so_pacing = \<lparr>pc_events = 3, pc_gap = 0, pc_die_after = None, pc_hangup_marker = None\<rparr>,
      so_never_bind_marker = None, so_never_bind = False\<rparr>"

text \<open>A number of some width, as its value.\<close>

definition stub_number :: "nat \<Rightarrow> string \<Rightarrow> string \<Rightarrow> string + nat" where
  "stub_number bits v flag =
     (case parse_uint bits v of
        Some n \<Rightarrow> Inr n
      | None \<Rightarrow> Inl (flag @ '' takes a number, not '' @ quoted v))"

definition pace :: "(pacing \<Rightarrow> pacing) \<Rightarrow> stub_options \<Rightarrow> stub_options" where
  "pace f so = so\<lparr>so_pacing := f (so_pacing so)\<rparr>"

text \<open>What a flag does with its value; a flag without an entry is none the stub takes a value for.\<close>

definition stub_setting :: "string \<Rightarrow> (string \<Rightarrow> stub_options \<Rightarrow> string + stub_options) option" where
  "stub_setting flag =
     (if flag = ''--host'' then Some (\<lambda>v so. Inr (so\<lparr>so_host := v\<rparr>))
      else if flag = ''--port'' then
        Some (\<lambda>v so. attempt (stub_number 16 v flag) (\<lambda>n. Inr (so\<lparr>so_port := of_nat n\<rparr>)))
      else if flag = ''--ready-after'' then
        Some (\<lambda>v so. attempt (stub_number 64 v flag) (\<lambda>n. Inr (so\<lparr>so_ready_after := from_millis (of_nat n)\<rparr>)))
      else if flag = ''--exit-after'' then
        Some (\<lambda>v so. attempt (stub_number 64 v flag) (\<lambda>n. Inr (so\<lparr>so_exit_after := Some (from_millis (of_nat n))\<rparr>)))
      else if flag = ''--exit-code'' then
        Some (\<lambda>v so. attempt (stub_number 8 v flag) (\<lambda>n. Inr (so\<lparr>so_exit_code := of_nat n\<rparr>)))
      else if flag = ''--alias'' then Some (\<lambda>v so. Inr (so\<lparr>so_alias := v\<rparr>))
      else if flag = ''--stream-events'' then
        Some (\<lambda>v so. attempt (stub_number 64 v flag) (\<lambda>n. Inr (pace (pc_events_update (\<lambda>_. of_nat n)) so)))
      else if flag = ''--stream-gap'' then
        Some (\<lambda>v so. attempt (stub_number 64 v flag) (\<lambda>n. Inr (pace (pc_gap_update (\<lambda>_. from_millis (of_nat n))) so)))
      else if flag = ''--die-after-events'' then
        Some (\<lambda>v so. attempt (stub_number 64 v flag) (\<lambda>n. Inr (pace (pc_die_after_update (\<lambda>_. Some (of_nat n))) so)))
      else if flag = ''--hangup-marker'' then Some (\<lambda>v so. Inr (pace (pc_hangup_marker_update (\<lambda>_. Some v)) so))
      else if flag = ''--never-bind-marker'' then Some (\<lambda>v so. Inr (so\<lparr>so_never_bind_marker := Some v\<rparr>))
      else None)"

fun stub_args :: "stub_options \<Rightarrow> string list \<Rightarrow> string + stub_options" where
  "stub_args so [] = Inr so"
| "stub_args so [argument] =
     (if argument = ''--never-bind'' then Inr (so\<lparr>so_never_bind := True\<rparr>)
      else case stub_setting argument of
             None \<Rightarrow> Inr so
           | Some _ \<Rightarrow> Inl (argument @ '' needs a value''))"
| "stub_args so (argument # v # rest) =
     (if argument = ''--never-bind'' then stub_args (so\<lparr>so_never_bind := True\<rparr>) (v # rest)
      else case stub_setting argument of
             None \<Rightarrow> stub_args so (v # rest)
           | Some f \<Rightarrow> attempt (f v so) (\<lambda>so. stub_args so rest))"

definition stub_parse :: "string list \<Rightarrow> string + stub_options" where
  "stub_parse args = stub_args stub_defaults args"

text \<open>
  How a run of the stub begins: it says something and fails, fails without a word, or serves. \<open>wrote\<close> is the marker file it
  left. Arguments that are not UTF-8 are a panic of the standard library.
\<close>

datatype stub_run =
    Complained string
  | Silent (wrote: "string option")
  | Serves stub_options

definition stub_main ::
    "(string \<Rightarrow> bool) \<Rightarrow> (string \<Rightarrow> string option) \<Rightarrow> (string \<Rightarrow> u16 \<Rightarrow> string option) \<Rightarrow> string list \<Rightarrow> stub_run run" where
  "stub_main there unwritable unbindable args =
     (if \<not> list_all utf8_valid args then Panicked
      else
        (case stub_parse args of
           Inl complaint \<Rightarrow> Done (Complained (''stub-llama-server: '' @ complaint))
         | Inr so \<Rightarrow>
             (let bound =
                (case unbindable (so_host so) (so_port so) of
                   Some error \<Rightarrow>
                     Done (Complained (''stub-llama-server: cannot bind '' @ so_host so @ '':'' @ show_word (so_port so)
                       @ '': '' @ error))
                 | None \<Rightarrow> Done (Serves so))
              in case so_never_bind_marker so of
                   Some marker \<Rightarrow>
                     if there marker then bound
                     else (case unwritable marker of
                             Some error \<Rightarrow>
                               Done (Complained (''stub-llama-server: cannot write never-bind marker: '' @ error))
                           | None \<Rightarrow> Done (Silent (Some marker)))
                 | None \<Rightarrow> if so_never_bind so then Done (Silent None) else bound)))"

text \<open>The status the timer has ended a serving stub with, \<open>elapsed\<close> after it bound its port.\<close>

definition stub_exit :: "stub_options \<Rightarrow> duration \<Rightarrow> u8 option" where
  "stub_exit so elapsed =
     (case so_exit_after so of
        Some after \<Rightarrow> if after \<le> elapsed then Some (so_exit_code so) else None
      | None \<Rightarrow> None)"

section \<open>Answering one request (reply.rs)\<close>

definition head_limit :: nat where "head_limit = 64 * 1024"

text \<open>\<open>read_line\<close> without a bound of its own.\<close>

definition read_whole_line :: "stream \<Rightarrow> io_error + (string \<times> stream)" where
  "read_whole_line st = read_line (Suc (length (st_bytes st))) st"

lemma read_whole_line_shrinks [termination_simp]:
  "read_whole_line st = Inr (line, st') \<Longrightarrow> line \<noteq> [] \<Longrightarrow> length (st_bytes st') < length (st_bytes st)"
  unfolding read_whole_line_def by (drule read_line_some) simp

function stub_head_loop :: "nat \<Rightarrow> string list \<Rightarrow> stream \<Rightarrow> io_error + (string list \<times> stream)" where
  "stub_head_loop already ls st =
     (case read_whole_line st of
        Inl error \<Rightarrow> Inl error
      | Inr (line, st) \<Rightarrow>
          if line = [] then Inr (ls, st)
          else if head_limit < already + length line
          then Inl \<lparr>io_kind = OtherKind, io_text = ''request head is too large''\<rparr>
          else
            (let trimmed = trim_end_matches (\<lambda>c. c = carriage \<or> c = newline) line in
             if trimmed = [] then Inr (ls, st)
             else stub_head_loop (already + length line) (ls @ [trimmed]) st))"
  by pat_completeness auto
termination
  by (relation "measure (\<lambda>(already, ls, st). length (st_bytes st))") (auto simp: read_whole_line_shrinks)

declare stub_head_loop.simps [simp del]

definition stub_read_head :: "stream \<Rightarrow> io_error + (string list \<times> stream)" where
  "stub_read_head st = stub_head_loop 0 [] st"

definition stub_content_length :: "string list \<Rightarrow> usize" where
  "stub_content_length head =
     (case find (\<lambda>(name, _). eq_ignore_ascii_case (trim name) ''content-length'')
             (List.map_filter (split_once '':'') head) of
        None \<Rightarrow> 0
      | Some (_, v) \<Rightarrow> (case parse_u64 (trim v) of Some n \<Rightarrow> n | None \<Rightarrow> 0))"

definition complete_text :: "string \<Rightarrow> string \<Rightarrow> string \<Rightarrow> string" where
  "complete_text status content_type body =
     ''HTTP/1.1 '' @ status @ crlf
     @ ''Content-Type: '' @ content_type @ crlf
     @ ''Content-Length: '' @ show_nat (length body) @ crlf
     @ ''Connection: close'' @ crlf @ crlf @ body"

definition serve_complete :: "string \<Rightarrow> string \<Rightarrow> string \<Rightarrow> sink \<Rightarrow> bool \<times> sink" where
  "serve_complete status content_type body sk = write_all (complete_text status content_type body) sk"

definition health_status :: "bool \<Rightarrow> string" where
  "health_status up = (if up then ''200 OK'' else ''503 Service Unavailable'')"

definition health_body :: "bool \<Rightarrow> string" where
  "health_body up = ''{'' @ dquoted ''status'' @ '':'' @ dquoted (if up then ''ok'' else ''loading'') @ ''}''"

definition serve_health :: "bool \<Rightarrow> sink \<Rightarrow> bool \<times> sink" where
  "serve_health up sk = serve_complete (health_status up) ''application/json'' (health_body up) sk"

definition stream_head :: string where
  "stream_head =
     ''HTTP/1.1 200 OK'' @ crlf @ ''Content-Type: text/event-stream'' @ crlf @ ''Connection: close'' @ crlf @ crlf"

definition event_text :: "nat \<Rightarrow> string" where
  "event_text n = ''data: {'' @ dquoted ''n'' @ '':'' @ show_nat n @ ''}'' @ [newline, newline]"

text \<open>The events from \<open>index\<close> on: whether the write went well, and whether the marker was left.\<close>

function stream_events :: "pacing \<Rightarrow> nat \<Rightarrow> sink \<Rightarrow> (bool \<times> sink) \<times> string option" where
  "stream_events p index sk =
     (if index < unat (pc_events p)
      then
        (case write_all (event_text index) sk of
           (False, sk) \<Rightarrow> ((False, sk), pc_hangup_marker p)
         | (True, sk) \<Rightarrow>
             (case pc_die_after p of
                Some limit \<Rightarrow>
                  if unat limit \<le> index + 1 then ((True, sk), None) else stream_events p (Suc index) sk
              | None \<Rightarrow> stream_events p (Suc index) sk))
      else ((True, sk), None))"
  by pat_completeness auto
termination
  by (relation "measure (\<lambda>(p, index, sk). unat (pc_events p) - index)") auto

declare stream_events.simps [simp del]

definition serve_stream :: "pacing \<Rightarrow> sink \<Rightarrow> (bool \<times> sink) \<times> string option" where
  "serve_stream p sk =
     (case write_all stream_head sk of
        (False, sk) \<Rightarrow> ((False, sk), None)
      | (True, sk) \<Rightarrow> stream_events p 0 sk)"

definition echo_body :: "string list \<Rightarrow> string \<Rightarrow> string \<Rightarrow> string" where
  "echo_body head alias received =
     join [newline] head @ [newline] @ ''alias: '' @ alias @ [newline] @ ''body: '' @ from_utf8_lossy received"

text \<open>A buffer no address space can hold is a panic, of the connection's thread alone.\<close>

definition isize_max :: nat where "isize_max = 2 ^ 63 - 1"

definition stub_answer ::
    "bool \<Rightarrow> pacing \<Rightarrow> string \<Rightarrow> stream \<Rightarrow> sink \<Rightarrow> ((bool \<times> sink) \<times> string option) run" where
  "stub_answer up p alias st sk =
     (case stub_read_head st of
        Inl _ \<Rightarrow> Done ((False, sk), None)
      | Inr (head, st) \<Rightarrow>
          (let n = unat (stub_content_length head) in
           if isize_max < n then Panicked
           else
             (case (if 0 < n then Answer.read_exact n st else Inr ([], st)) of
                Inl _ \<Rightarrow> Done ((False, sk), None)
              | Inr (received, st) \<Rightarrow>
                  (let request_line = (case head of [] \<Rightarrow> [] | first # _ \<Rightarrow> first);
                       path = (case split_whitespace request_line of _ # path # _ \<Rightarrow> path | _ \<Rightarrow> []) in
                   if starts_with request_line ''GET /health '' then Done (serve_health up sk, None)
                   else if ends_with path ''/v1/chat/completions'' then Done (serve_stream p sk)
                   else if ends_with path ''/v1/echo''
                   then Done (serve_complete ''200 OK'' ''text/plain'' (echo_body head alias received) sk, None)
                   else Done (serve_complete ''404 Not Found'' ''application/json''
                     (''{'' @ dquoted ''error'' @ '':'' @ dquoted ''not found'' @ ''}'') sk, None)))))"

text \<open>One connection \<open>elapsed\<close> after serving began; what \<open>answer\<close> returned is dropped.\<close>

definition stub_serve :: "stub_options \<Rightarrow> duration \<Rightarrow> stream \<Rightarrow> sink \<Rightarrow> sink" where
  "stub_serve so elapsed st sk =
     (case stub_answer (so_ready_after so \<le> elapsed) (so_pacing so) (so_alias so) st sk of
        Done ((_, sk), _) \<Rightarrow> sk
      | _ \<Rightarrow> sk)"

end
