(* ===== verification/Server_Contract.thy ===== *)
theory Server_Contract
  imports Launch_Laws Http
begin

text \<open>
  What the router relies on a server for while it starts one (\<open>src/src/launch/probe.rs\<close>): the answer to one
  request about its readiness. The contract is the locale \<open>server_contract\<close>; inside it a start is shown to
  succeed exactly when the server becomes ready in time.
\<close>

section \<open>The probe (probe.rs)\<close>

definition probe_request :: string where
  "probe_request =
     ''GET /health HTTP/1.1'' @ crlf @ ''Host: localhost'' @ crlf @ ''Connection: close'' @ crlf @ crlf"

text \<open>\<open>read_line\<close> of the reply, without a bound of its own.\<close>

definition probe_line :: "stream \<Rightarrow> string option" where
  "probe_line reply =
     (case read_line (Suc (length (st_bytes reply))) reply of
        Inl _ \<Rightarrow> None
      | Inr (line, _) \<Rightarrow> Some line)"

section \<open>A server that is probed\<close>

text \<open>
  The polls of attempt \<open>k\<close> find the process running, and the lines they read are the answers of a server that becomes
  ready at the age \<open>ready_after\<close>; before it listens it has no age and there is no line.
\<close>

definition probed ::
    "(bool \<Rightarrow> string \<Rightarrow> stream) \<Rightarrow> duration \<Rightarrow> (nat \<Rightarrow> duration option) \<Rightarrow> launching \<Rightarrow> nat \<Rightarrow> bool" where
  "probed replies ready_after age lo k \<longleftrightarrow>
     (\<forall>n. child_check (lo_try_wait lo k n) = Running \<and>
        lo_health_line lo k n =
          (case age n of None \<Rightarrow> None | Some a \<Rightarrow> probe_line (replies (ready_after \<le> a) probe_request)))"

text \<open>Some poll finds the server ready, and every poll before it left time for another.\<close>

definition ready_in_time :: "duration \<Rightarrow> (nat \<Rightarrow> duration option) \<Rightarrow> launching \<Rightarrow> nat \<Rightarrow> entry \<Rightarrow> bool" where
  "ready_in_time ready_after age lo k e \<longleftrightarrow>
     (\<exists>n a. age n = Some a \<and> ready_after \<le> a \<and>
        (\<forall>j < n. lo_elapsed lo k j < from_secs (ucast (e_startup_timeout_seconds e))))"

locale server_contract =
  fixes replies :: "bool \<Rightarrow> string \<Rightarrow> stream"
  assumes loading: "health (probe_line (replies False probe_request)) = Some 503"
    and serving: "health (probe_line (replies True probe_request)) = Some 200"
begin

lemma told: "health (probe_line (replies up probe_request)) = Some 200 \<longleftrightarrow> up"
  using loading serving by (cases up) auto

lemma answered:
  assumes "probed replies ready_after age lo k"
  shows "health (lo_health_line lo k n) = Some 200 \<longleftrightarrow> (\<exists>a. age n = Some a \<and> ready_after \<le> a)"
  using assms unfolding probed_def by (auto simp: told health_def [of None] split: option.split)

lemma ready_iff:
  assumes "probed replies ready_after age lo k"
  shows "ready lo k e \<longleftrightarrow> ready_in_time ready_after age lo k e"
proof
  assume "ready lo k e"
  then show "ready_in_time ready_after age lo k e"
    using answered [OF assms] unfolding ready_def ready_in_time_def undecided_def by blast
next
  assume "ready_in_time ready_after age lo k e"
  then obtain n where n: "health (lo_health_line lo k n) = Some 200"
      "\<forall>j < n. lo_elapsed lo k j < from_secs (ucast (e_startup_timeout_seconds e))"
    using answered [OF assms] unfolding ready_in_time_def by blast
  define m where "m = (LEAST m. health (lo_health_line lo k m) = Some 200)"
  have m: "health (lo_health_line lo k m) = Some 200" "m \<le> n"
    unfolding m_def using n(1) by (rule LeastI, rule Least_le)
  have "health (lo_health_line lo k j) \<noteq> Some 200" if "j < m" for j using not_less_Least that unfolding m_def by blast
  then have "undecided lo k e j" if "j < m" for j
    using that n(2) m(2) assms by (auto simp: undecided_def probed_def)
  then show "ready lo k e" using m(1) assms by (auto simp: ready_def probed_def)
qed

text \<open>The start of such a server: handed on when it is ready in time, and otherwise ended, once, without a second try.\<close>

lemma started:
  assumes "probed replies ready_after age lo 0" and "spawn_child lo 0 sv e root = Inr c"
    and "server_start fuel lo sv e root = Done (r, stopped)"
  shows "if ready_in_time ready_after age lo 0 e then r = Inr c \<and> stopped = []
    else r = Inl (not_ready e c) \<and> stopped = [ch_handle c, ch_handle c]"
proof -
  obtain r0 s0 where first: "attempt_start fuel lo 0 sv e root = Done (r0, s0)"
    using assms(3) by (auto simp: server_start_def split: run.splits)
  obtain n where n: "(r0, s0) = decided lo 0 e c n (heard lo 0 0 n)"
    using attempt_start_spawned [OF first] assms(2) by auto
  then have cases: "r0 = Inr c \<and> s0 = [] \<or> r0 = Inl (not_ready e c, False) \<and> s0 = [ch_handle c, ch_handle c]"
    using assms(1) by (auto simp: decided_def probed_def split: if_splits)
  then have "(r, stopped) = (case r0 of Inl (f, _) \<Rightarrow> Inl f | Inr c \<Rightarrow> Inr c, s0)"
    using assms(3) first by (auto simp: server_start_def)
  moreover have "r0 = Inr c \<longleftrightarrow> ready_in_time ready_after age lo 0 e"
    using attempt_start_outcome [OF first] assms(2) ready_iff [OF assms(1)] by auto
  ultimately show ?thesis using cases by auto
qed

end

end
