(* ===== verification/Head_Laws.thy ===== *)
theory Head_Laws
  imports Http_Laws
begin

text \<open>
  The head that travels on to a child. What the router cuts out of a line that is UTF-8 (a word, a header's
  name or value, the path after a model's name) is UTF-8, so what it sends can be read as text; and read as the router
  itself reads heads it says what the caller's said.
\<close>

section \<open>Cutting between characters\<close>

text \<open>The bytes a character can begin with.\<close>

definition first_byte :: "char \<Rightarrow> bool" where
  "first_byte c \<longleftrightarrow> code c < 0x80 \<or> 0xC0 \<le> code c"

lemma continuations_range: "continuations b = Some rs \<Longrightarrow> \<forall>(lo, hi) \<in> set rs. 0x80 \<le> lo \<and> hi \<le> 0xBF"
  by (auto simp: continuations_def Let_def split: if_splits)

lemma matched_cut:
  "first_byte c \<Longrightarrow> \<forall>(lo, hi) \<in> set rs. 0x80 \<le> lo \<and> hi \<le> 0xBF \<Longrightarrow> matched rs (a @ c # b) = matched rs a"
proof (induction rs arbitrary: a)
  case (Cons r rs)
  obtain lo hi where r: "r = (lo, hi)" by (cases r)
  show ?case
  proof (cases a)
    case Nil
    then show ?thesis using Cons.prems r by (auto simp: first_byte_def)
  next
    case (Cons x xs)
    then show ?thesis using Cons.IH [of xs] Cons.prems r by simp
  qed
qed simp

lemma utf8_step_cut:
  assumes "first_byte c" and "a \<noteq> []"
  shows "utf8_step (a @ c # b) = utf8_step a"
proof -
  obtain x xs where a: "a = x # xs" using assms(2) by (cases a) auto
  show ?thesis
    using matched_cut [OF assms(1) continuations_range]
    by (auto simp: a utf8_step_def split: option.split)
qed

lemma utf8_step_le: "snd (utf8_step s) \<le> length s"
  using matched_le by (cases s) (auto simp: utf8_step_def continuations_def Let_def split: option.split)

lemma utf8_cut:
  "first_byte c \<Longrightarrow> utf8_valid (a @ c # b) \<longleftrightarrow> utf8_valid a \<and> utf8_valid (c # b)"
proof (induction a rule: utf8_valid.induct)
  case (1 a)
  show ?case
  proof (cases "a = []")
    case True
    then show ?thesis by (simp add: utf8_valid.simps [of "[]"])
  next
    case False
    let ?n = "snd (utf8_step a)"
    have "utf8_valid (a @ c # b) \<longleftrightarrow> fst (utf8_step a) \<and> utf8_valid (drop ?n a @ c # b)"
      using False utf8_step_cut [OF "1.prems" False, of b] utf8_step_le [of a]
      by (simp add: utf8_valid.simps [of "a @ c # b"])
    also have "\<dots> \<longleftrightarrow> fst (utf8_step a) \<and> utf8_valid (drop ?n a) \<and> utf8_valid (c # b)"
      using "1.IH" [OF False] "1.prems" by blast
    finally show ?thesis using False by (simp add: utf8_valid.simps [of a])
  qed
qed

lemma utf8_Nil [simp]: "utf8_valid []"
  by (simp add: utf8_valid.simps)

lemma utf8_after: "utf8_valid s \<Longrightarrow> utf8_valid (s @ t) \<longleftrightarrow> utf8_valid t"
proof (induction s rule: utf8_valid.induct)
  case (1 s)
  show ?case
  proof (cases "s = []")
    case False
    with "1.prems" have v: "fst (utf8_step s)" "utf8_valid (drop (snd (utf8_step s)) s)"
      by (simp_all add: utf8_valid.simps [of s])
    with False 1 utf8_step_append [of s t] show ?thesis by (simp add: utf8_valid.simps [of "s @ t"])
  qed simp
qed

lemma utf8_cut_list: "t \<noteq> [] \<Longrightarrow> first_byte (hd t) \<Longrightarrow> utf8_valid (a @ t) \<longleftrightarrow> utf8_valid a \<and> utf8_valid t"
  using utf8_cut [of "hd t" a "tl t"] by simp

section \<open>What the router cuts out\<close>

lemma white_spaces_utf8: "list_all (\<lambda>w. w \<noteq> [] \<and> first_byte (hd w) \<and> utf8_valid w) white_spaces"
  by code_simp

lemma space_at_prefix:
  assumes "space_at ws s \<noteq> 0"
  obtains w t where "w \<in> set ws" "s = w @ t" "drop (space_at ws s) s = t"
proof -
  obtain w where w: "find (\<lambda>w. is_prefix w s) ws = Some w"
    using assms by (auto simp: space_at_def split: option.splits)
  then have "w \<in> set ws" "is_prefix w s" by (auto simp: find_Some_iff)
  then show ?thesis using that w by (auto simp: is_prefix_iff space_at_def)
qed

lemma utf8_strip: "(\<And>w. w \<in> set ws \<Longrightarrow> utf8_valid w) \<Longrightarrow> utf8_valid s \<Longrightarrow> utf8_valid (strip_spaces ws s)"
proof (induction ws s rule: strip_spaces.induct)
  case (1 ws s)
  show ?case
  proof (cases "s = [] \<or> space_at ws s = 0")
    case True
    then show ?thesis using "1.prems"(2) by (subst strip_spaces.simps) simp
  next
    case False
    then obtain w t where w: "w \<in> set ws" "s = w @ t" "drop (space_at ws s) s = t" using space_at_prefix by blast
    then have "utf8_valid t" using 1(2,3) utf8_after by blast
    then show ?thesis using "1.IH" [OF False] "1.prems"(1) False w(3) by (subst strip_spaces.simps) simp
  qed
qed

lemma utf8_strip_end:
  "(\<And>w. w \<in> set ws \<Longrightarrow> w \<noteq> [] \<and> first_byte (hd w)) \<Longrightarrow> utf8_valid (rev s) \<Longrightarrow>
     utf8_valid (rev (strip_spaces (map rev ws) s))"
proof (induction "map rev ws" s rule: strip_spaces.induct)
  case (1 s)
  show ?case
  proof (cases "s = [] \<or> space_at (map rev ws) s = 0")
    case True
    then show ?thesis using "1.prems"(2) by (subst strip_spaces.simps) simp
  next
    case False
    then obtain w' t where w: "w' \<in> set (map rev ws)" "s = w' @ t" "drop (space_at (map rev ws) s) s = t"
      using space_at_prefix by blast
    then obtain w where "w \<in> set ws" "rev s = rev t @ w" by auto
    then have "utf8_valid (rev t)" using "1.prems" utf8_cut_list by metis
    then show ?thesis using "1.hyps" [OF False] "1.prems"(1) False w(3) by (subst strip_spaces.simps) simp
  qed
qed

lemma utf8_trim: "utf8_valid s \<Longrightarrow> utf8_valid (trim s)"
  unfolding trim_def trim_end_def trim_start_def
  using white_spaces_utf8 by (intro utf8_strip_end) (auto simp: list_all_iff intro!: utf8_strip)

lemma utf8_words_from: "utf8_valid (cur @ s) \<Longrightarrow> u \<in> set (words_from cur s) \<Longrightarrow> utf8_valid u"
proof (induction cur s rule: words_from.induct)
  case (1 cur s)
  show ?case
  proof (cases "s = []")
    case True
    then show ?thesis using "1.prems" by (subst (asm) words_from.simps) (auto split: if_splits)
  next
    case s: False
    show ?thesis
    proof (cases "space_at white_spaces s = 0")
      case True
      then show ?thesis using "1.IH"(1) [OF s True] "1.prems" s by (subst (asm) words_from.simps) simp
    next
      case False
      then obtain w t where w: "w \<in> set white_spaces" "s = w @ t" "drop (space_at white_spaces s) s = t"
        using space_at_prefix by blast
      have ok: "w \<noteq> []" "first_byte (hd w)" "utf8_valid w" using white_spaces_utf8 w(1) by (auto simp: list_all_iff)
      have "utf8_valid cur \<and> utf8_valid (w @ t)"
        using "1.prems"(1) ok(1,2) unfolding w(2) by (subst (asm) utf8_cut_list) auto
      then have "utf8_valid cur" "utf8_valid t" using utf8_after [OF ok(3)] by auto
      moreover have "u = cur \<or> u \<in> set (words_from [] t)"
        using "1.prems"(2) s False w(3) by (subst (asm) words_from.simps) (auto split: if_splits)
      ultimately show ?thesis using "1.IH"(2) [OF s False] w(3) by auto
    qed
  qed
qed

lemma utf8_words: "utf8_valid s \<Longrightarrow> u \<in> set (split_whitespace s) \<Longrightarrow> utf8_valid u"
  unfolding split_whitespace_def using utf8_words_from [of "[]" s] by simp

lemma ascii_first [simp]: "first_byte (CHR '':'')" "first_byte (CHR ''/'')" "first_byte newline" "first_byte carriage"
  by code_simp+

lemma utf8_trim_end_matches: "utf8_valid s \<Longrightarrow> (\<And>c. p c \<Longrightarrow> first_byte c) \<Longrightarrow> utf8_valid (trim_end_matches p s)"
proof -
  assume s: "utf8_valid s" and p: "\<And>c. p c \<Longrightarrow> first_byte c"
  have split: "s = trim_end_matches p s @ rev (takeWhile p (rev s))"
    unfolding trim_end_matches_def by (metis rev_append rev_rev_ident takeWhile_dropWhile_id)
  show ?thesis
  proof (cases "takeWhile p (rev s) = []")
    case False
    then have "rev (takeWhile p (rev s)) \<noteq> []" "p (hd (rev (takeWhile p (rev s))))"
      by (auto simp: hd_rev dest: set_takeWhileD last_in_set)
    then show ?thesis using utf8_cut_list p split s by metis
  qed (use s split in simp)
qed

lemma utf8_header_pairs:
  assumes "list_all utf8_valid ls" and "(n, v) \<in> set (header_pairs ls)"
  shows "utf8_valid n \<and> utf8_valid v"
proof -
  obtain l a b where l: "l \<in> set ls" "split_once '':'' l = Some (a, b)" "n = trim a" "v = trim b"
    using assms(2) by (auto simp: header_pairs_def List.map_filter_def header_pair_def)
  then have "utf8_valid (a @ CHR '':'' # b)" using assms(1) split_once_Some [OF l(2)] by (auto simp: list_all_iff)
  then have "utf8_valid a" "utf8_valid (CHR '':'' # b)" using utf8_cut by auto
  moreover have "utf8_valid '':''" by code_simp
  ultimately show ?thesis using utf8_after [of "'':''" b] l(3,4) by (auto intro: utf8_trim)
qed

section \<open>The head that travels on\<close>

lemma head_read_loop_utf8:
  "head_read_loop already ls st = Inr (out, rest) \<Longrightarrow> list_all utf8_valid ls \<Longrightarrow> list_all utf8_valid out"
proof (induction already ls st rule: head_read_loop.induct)
  case (1 already ls st)
  define remaining where "remaining = max_head_bytes - already"
  obtain line st' where r: "remaining \<noteq> 0" "read_line remaining st = Inr (line, st')" "line \<noteq> []"
    using "1.prems"(1) by (subst (asm) head_read_loop.simps) (auto simp: Let_def remaining_def split: if_splits sum.splits)
  let ?t = "trim_end_matches (\<lambda>c. c = carriage \<or> c = newline) line"
  have line: "utf8_valid ?t" using read_line_some [OF r(2)] by (intro utf8_trim_end_matches) auto
  have unfold: "head_read_loop already ls st =
      (if ?t = [] then Inr (ls, st')
       else if max_headers \<le> length ls then Inl (unread HeadTooLarge (''more than '' @ show_nat max_headers @ '' lines''))
       else head_read_loop (already + length line) (ls @ [?t]) st')"
    using r by (subst head_read_loop.simps) (simp add: Let_def remaining_def)
  show ?case
  proof (cases "?t = []")
    case True
    then show ?thesis using "1.prems" unfold by simp
  next
    case False
    then have "head_read_loop (already + length line) (ls @ [?t]) st' = Inr (out, rest)" "\<not> max_headers \<le> length ls"
      using "1.prems"(1) unfold by (simp_all split: if_splits)
    then show ?thesis
      using "1.IH" [of remaining "(line, st')" line st' ?t] r False line "1.prems"(2) by (simp add: remaining_def)
  qed
qed

lemma head_read_utf8: "head_read st = Inr (ls, rest) \<Longrightarrow> list_all utf8_valid ls"
  unfolding head_read_def by (rule head_read_loop_utf8) auto

lemma ascii_words [simp]:
  "utf8_valid '' ''" "utf8_valid '': ''" "utf8_valid ''HTTP/1.1''" "utf8_valid ''Host: ''" "utf8_valid ''Connection: close''"
  "utf8_valid listing_path" "utf8_valid catalogue_path" "utf8_valid properties_path" "utf8_valid ''127.0.0.1:''"
  by code_simp+

lemma utf8_show_nat [simp]: "utf8_valid (show_nat n)"
  using show_nat_digits [of n] by (intro utf8_valid_ascii) (auto simp: list_all_iff is_ascii_digit_def)

lemma endpoint_suffix_utf8:
  assumes "endpoint_of path = Inr ep" and "utf8_valid path"
  shows "utf8_valid (endpoint_suffix ep)"
proof (cases ep)
  case (Dedicated i suffix)
  then obtain s where s: "path = (''/models/'' @ i) @ CHR ''/'' # s" "suffix = CHR ''/'' # s"
    using endpoint_of_dedicated [of path i suffix] assms(1) by auto
  then have "utf8_valid (CHR ''/'' # s)" using assms(2) utf8_cut [of "CHR ''/''" "''/models/'' @ i" s] by simp
  then show ?thesis using s(2) Dedicated by simp
next
  case (Generic suffix)
  then show ?thesis using assms endpoint_of_generic by auto
qed auto

text \<open>The head sent to a child is UTF-8, line by line.\<close>

lemma rewritten_utf8:
  assumes "head_read st = Inr (ls, rest)" and "head_parse ls = Inr h"
  shows "list_all utf8_valid (rewritten_lines h (loopback_at port))"
proof -
  have valid: "list_all utf8_valid ls" by (rule head_read_utf8 [OF assms(1)])
  obtain request field_lines where ls: "ls = request # field_lines" using assms(2) by (cases ls) (auto simp: head_parse_def)
  obtain verb path ws ep where h: "split_whitespace request = verb # path # ws" "endpoint_of path = Inr ep"
      "hd_method h = verb" "hd_endpoint h = ep" "hd_headers h = header_pairs field_lines"
    using assms(2) unfolding ls head_parse_exact by auto
  have words: "utf8_valid verb" "utf8_valid path" using utf8_words [of request] h(1) valid by (simp_all add: ls)
  have "utf8_valid (n @ '': '' @ v)" if "(n, v) \<in> set (hd_headers h)" for n v
    using utf8_header_pairs [of field_lines n v] that valid
    by (auto simp: ls h(5) intro!: utf8_valid_append simp del: append_Cons)
  then show ?thesis
    using words endpoint_suffix_utf8 [OF h(2)] h(3,4)
    by (auto simp: show_word_def rewritten_lines_def list_all_iff loopback_at_def intro!: utf8_valid_append simp del: append_Cons)
qed

lemma rewritten_read:
  assumes "head_read st = Inr (ls, rest)" and "head_parse ls = Inr h"
  shows "(\<forall>l \<in> set (rewritten_lines h (loopback_at port)). plain_line l \<and> utf8_valid l) \<and>
    split_whitespace (hd (rewritten_lines h (loopback_at port))) = [hd_method h, endpoint_suffix (hd_endpoint h), ''HTTP/1.1''] \<and>
    header_pairs (tl (rewritten_lines h (loopback_at port))) = (''Host'', loopback_at port) # (''Connection'', ''close'')
      # filter (\<lambda>(name, _). \<not> answered_here name) (hd_headers h)"
proof -
  have plain: "\<forall>l \<in> set ls. plain_line l"
    using head_read_loop_bounded [OF assms(1) [unfolded head_read_def]] by (auto simp: max_headers_def)
  obtain request field_lines where ls: "ls = request # field_lines" using assms(2) by (cases ls) (auto simp: head_parse_def)
  obtain verb path ws ep where h: "split_whitespace request = verb # path # ws" "endpoint_of path = Inr ep"
      "hd_method h = verb" "hd_endpoint h = ep" "hd_headers h = header_pairs field_lines"
    using assms(2) unfolding ls head_parse_exact by auto
  have words: "word_ok verb" "verb \<noteq> []" "word_ok path" using split_whitespace_ok [of _ request] h(1) by auto
  note suffix = endpoint_suffix_word [OF h(2) words(3)]
  define kept where "kept = filter (\<lambda>(name, _). \<not> answered_here name) (hd_headers h)"
  have conn: "clean_pair (''Connection'', ''close'')" by code_simp
  define sent where "sent = (''Host'', loopback_at port) # (''Connection'', ''close'') # kept"
  have "\<forall>p \<in> set kept. clean_pair p"
    using header_pairs_clean [of field_lines] plain by (auto simp: kept_def h(5) ls plain_line_def)
  then have clean: "\<forall>p \<in> set sent. clean_pair p" using loopback_at_clean conn by (simp add: sent_def)
  let ?request = "verb @ '' '' @ endpoint_suffix ep @ '' '' @ ''HTTP/1.1''"
  let ?fields = "map (\<lambda>(n, v). n @ '': '' @ v) sent"
  have version: "word_ok ''HTTP/1.1''" by (rule visible_word_ok) code_simp
  have lines: "rewritten_lines h (loopback_at port) = ?request # ?fields"
    unfolding rewritten_lines_def sent_def kept_def by (simp add: h(3,4))
  have "plain_line ?request"
    using word_ok_newline [OF words(1)] word_ok_newline suffix by (auto simp: plain_line_def newline_def carriage_def)
  moreover have "\<forall>l \<in> set ?fields. plain_line l" using clean clean_pair_plain by auto
  moreover have "split_whitespace ?request = [hd_method h, endpoint_suffix (hd_endpoint h), ''HTTP/1.1'']"
    using split_three_words [OF words(1,2) conjunct1 [OF suffix] conjunct2 [OF suffix] version] by (simp add: h(3,4))
  moreover have "header_pairs ?fields = sent" by (rule header_pairs_read [OF clean])
  ultimately show ?thesis
    using rewritten_utf8 [OF assms, of port] unfolding lines by (auto simp: list_all_iff sent_def kept_def)
qed

lemma kept_values:
  "values_of ''content-length'' (filter (\<lambda>(name, _). \<not> answered_here name) ps) = values_of ''content-length'' ps"
  "values_of ''transfer-encoding'' (filter (\<lambda>(name, _). \<not> answered_here name) ps) = values_of ''transfer-encoding'' ps"
  using values_of_kept relayed_names by blast+

lemma head_parse_said:
  "head_parse ls = Inr h \<Longrightarrow> hd_length h = length_declared (hd_headers h) \<and> hd_chunked h = chunked_announced (hd_headers h)"
  by (cases ls) (auto simp: head_parse_exact head_parse_def [of "[]"])

text \<open>
  C22: The child is sent the caller's request, and nothing a caller writes in it can become a header of
  its own. What is written to the child for a head read off a connection is a sequence of lines of UTF-8 and one
  blank line; read there, its request line is the caller's method and the endpoint's path, its headers
  are the child's own \<open>Host\<close>, a closed connection, and the caller's other headers as received and in
  order, so that it declares the body the router was told of; it waits for no interim answer; and when it is not too
  large, the router's own reader gets exactly these lines back and leaves the body to be read.
\<close>

theorem rewrite_read_back:
  assumes "head_read st = Inr (ls, rest)" and "head_parse ls = Inr h"
  shows "\<exists>request field_lines. rewrite h (loopback_at port) = head_text (request # field_lines) \<and>
    split_whitespace request = [hd_method h, endpoint_suffix (hd_endpoint h), ''HTTP/1.1''] \<and>
    header_pairs field_lines = (''Host'', loopback_at port) # (''Connection'', ''close'')
      # filter (\<lambda>(name, _). \<not> answered_here name) (hd_headers h) \<and>
    length_declared (header_pairs field_lines) = hd_length h \<and>
    chunked_announced (header_pairs field_lines) = hd_chunked h \<and>
    \<not> continue_expected (header_pairs field_lines) \<and>
    (length (rewrite h (loopback_at port)) \<le> 65536 \<longrightarrow> length field_lines < 100 \<longrightarrow>
      head_read \<lparr>st_bytes = rewrite h (loopback_at port) @ body, st_end = ending\<rparr>
        = Inr (request # field_lines, \<lparr>st_bytes = body, st_end = ending\<rparr>))"
proof -
  define request field_lines where "request = hd (rewritten_lines h (loopback_at port))"
    and "field_lines = tl (rewritten_lines h (loopback_at port))"
  have lines: "rewritten_lines h (loopback_at port) = request # field_lines"
    by (simp add: request_def field_lines_def rewritten_lines_def)
  note read = rewritten_read [OF assms, of port, unfolded lines, simplified]
  have "length_declared (header_pairs field_lines) = hd_length h"
    "chunked_announced (header_pairs field_lines) = hd_chunked h" "\<not> continue_expected (header_pairs field_lines)"
    using read head_parse_said [OF assms(2)] values_of_expect_gone
    by (simp_all add: length_declared_def chunked_announced_def continue_expected_def kept_values)
  then show ?thesis
    using read head_read_text [of "request # field_lines" body ending] unfolding rewrite_lines lines
    by (intro exI [of _ request] exI [of _ field_lines]) simp
qed

theorem rewrite_read_back_witness:
  "\<exists>request field_lines. rewrite sample_head (loopback_at 80) = head_text (request # field_lines) \<and>
     split_whitespace request = [''POST'', ''/v1/x'', ''HTTP/1.1''] \<and> length_declared (header_pairs field_lines) = Given 3"
  using rewrite_read_back [OF head_read_text [OF sample_lines_ok, of "''{}!''" None] sample_head_parsed, of 80]
  by (fastforce simp: sample_head_def)

end
