(* ===== verification/Stub_Laws.thy ===== *)
theory Stub_Laws
  imports Stub Server_Contract Head_Laws Answer_Laws
begin

text \<open>
  The stand-in keeps the contract the router relies on: it reads the command line the router builds as
  that one's host, port and alias, it answers the probe by its age, its streams break off where they were
  asked to, and what it echoes is what the router sent it.
\<close>

section \<open>The command line\<close>

definition stub_word :: "string \<Rightarrow> bool" where
  "stub_word w \<longleftrightarrow> w = ''--never-bind'' \<or> stub_setting w \<noteq> None"

lemma stub_args_skip: "\<not> stub_word a \<Longrightarrow> stub_args so (a # rest) = stub_args so rest"
  by (cases rest) (auto simp: stub_word_def)

lemma stub_args_skips: "list_all (\<lambda>w. \<not> stub_word w) ws \<Longrightarrow> stub_args so (ws @ rest) = stub_args so rest"
  by (induction ws) (simp_all add: stub_args_skip)

lemma stub_args_takes:
  "stub_setting a = Some f \<Longrightarrow> stub_args so (a # v # rest) = attempt (f v so) (\<lambda>so. stub_args so rest)"
  by (auto simp: stub_setting_def)

lemma stub_args_never: "stub_args so (''--never-bind'' # rest) = stub_args (so\<lparr>so_never_bind := True\<rparr>) rest"
  by (cases rest) simp_all

text \<open>What one entry of a flags table does to the stub's options, and all of them in order.\<close>

definition spelling :: "string \<Rightarrow> string" where
  "spelling v = to_ascii_lowercase (trim v)"

definition stub_flag :: "string \<times> string \<Rightarrow> stub_options \<Rightarrow> string + stub_options" where
  "stub_flag = (\<lambda>(key, v) so.
     if spelling v = ''false'' then Inr so
     else if long_form key = ''--never-bind'' then Inr (so\<lparr>so_never_bind := True\<rparr>)
     else case stub_setting (long_form key) of None \<Rightarrow> Inr so | Some f \<Rightarrow> f v so)"

fun stub_flags :: "(string \<times> string) list \<Rightarrow> stub_options \<Rightarrow> string + stub_options" where
  "stub_flags [] so = Inr so"
| "stub_flags (kv # flags) so = attempt (stub_flag kv so) (stub_flags flags)"

text \<open>A flag whose arguments the stub reads in step: a value for what it knows, no word of its own for what it does not.\<close>

definition in_step :: "string \<times> string \<Rightarrow> bool" where
  "in_step = (\<lambda>(key, v).
     if spelling v = ''false'' then True
     else if spelling v = ''true'' then stub_setting (long_form key) = None
     else stub_setting (long_form key) = None \<longrightarrow> \<not> stub_word v)"

lemma no_flag_unknown: "\<not> stub_word (''--no-'' @ key)"
  by (simp add: stub_word_def stub_setting_def)

lemma stub_args_flag:
  assumes "in_step (key, v)"
  shows "stub_args so (option_arguments key v @ rest) = attempt (stub_flag (key, v) so) (\<lambda>so. stub_args so rest)"
proof (cases "spelling v = ''false''")
  case True
  then have "option_arguments key v = [''--no-'' @ key]" by (simp add: option_arguments_def spelling_def)
  then show ?thesis using True stub_args_skip [OF no_flag_unknown] by (simp add: stub_flag_def)
next
  case False
  show ?thesis
  proof (cases "stub_setting (long_form key)")
    case None
    then show ?thesis
      using assms False stub_args_skip [of "long_form key"] stub_args_skip [of v] stub_args_never
      by (auto simp: option_arguments_def stub_flag_def in_step_def spelling_def Let_def stub_word_def)
  next
    case (Some f)
    then have "long_form key \<noteq> ''--never-bind''" by (auto simp: stub_setting_def)
    then show ?thesis
      using assms False Some stub_args_takes [OF Some]
      by (auto simp: option_arguments_def stub_flag_def in_step_def spelling_def Let_def split: if_splits)
  qed
qed

lemma stub_args_flags:
  "list_all in_step flags \<Longrightarrow>
     stub_args so (concat (map (\<lambda>(key, v). option_arguments key v) flags) @ rest) =
     attempt (stub_flags flags so) (\<lambda>so. stub_args so rest)"
proof (induction flags arbitrary: so)
  case (Cons kv flags)
  obtain key v where kv: "kv = (key, v)" by (cases kv)
  with Cons.prems have step: "in_step (key, v)" by simp
  show ?case
    using Cons stub_args_flag [OF step, of so]
    by (cases "stub_flag (key, v) so") (simp_all add: kv)
qed simp

text \<open>Words the router writes before the flags that are none of the stub's.\<close>

lemma router_words:
  "\<not> stub_word ''--model''" "\<not> stub_word ''--model-draft''" "\<not> stub_word ''--mmproj''" "\<not> stub_word ''--ctx-size''"
  "\<not> stub_word ''--reasoning-format''" "\<not> stub_word ''--reasoning-effort''"
  by code_simp+

lemma show_word_no_word: "\<not> stub_word (show_word w)"
proof -
  have "is_ascii_digit (hd (show_word w))"
    using show_nat_digits [of "unat w"] show_nat_ne [of "unat w"] unfolding show_word_def
    by (metis list_all_iff list.set_sel(1))
  moreover have "\<not> is_ascii_digit CHR ''-''" by code_simp
  ultimately show ?thesis by (auto simp: stub_word_def stub_setting_def split: if_splits)
qed

lemma parse_show_16: "parse_uint 16 (show_word (p :: u16)) = Some (unat p)"
  using parse_show_u16 [of p] unsigned_less [of p, where ?'a = nat]
  unfolding parse_u16_def show_word_def using parse_show_nat [of "unat p" 16] by simp

definition named_words :: "entry \<Rightarrow> string \<Rightarrow> string list" where
  "named_words e root =
     path_resolve (e_path e) root
     # map (\<lambda>p. path_resolve p root) (List.map_filter (\<lambda>p. p) [e_draft_path e, e_projector_path e])
     @ List.map_filter (\<lambda>s. s) [e_reasoning_format e, e_reasoning_effort e]"

text \<open>
  The stub reads the command line the router builds for an entry as the entry's flags and then,
  whatever those said, the entry's name, the loopback address and the port; as long as no path is spelled like one of its
  own flags and every flag it knows comes with a value.
\<close>

theorem stub_reads_command_line:
  assumes "list_all (\<lambda>w. \<not> stub_word w) (named_words e root)" and "list_all in_step (e_flags e)"
  shows "stub_parse (command_line e root port) =
    attempt (stub_flags (e_flags e) stub_defaults)
      (\<lambda>so. Inr (so\<lparr>so_alias := e_id e, so_host := ''127.0.0.1'', so_port := port\<rparr>))"
proof -
  obtain ws where ws: "command_line e root port = ws @ concat (map (\<lambda>(key, v). option_arguments key v) (e_flags e))
      @ [''--alias'', e_id e, ''--host'', loopback_host, ''--port'', show_word port]"
      "list_all (\<lambda>w. \<not> stub_word w) ws"
    using assms(1) router_words show_word_no_word [of "e_context_size e"]
    by (cases "e_draft_path e"; cases "e_projector_path e"; cases "e_reasoning_format e"; cases "e_reasoning_effort e")
      (auto simp: command_line_def Let_def push_argument_def push_some_def named_words_def List.map_filter_def)
  have last: "stub_args so [''--alias'', e_id e, ''--host'', loopback_host, ''--port'', show_word port] =
      Inr (so\<lparr>so_alias := e_id e, so_host := ''127.0.0.1'', so_port := port\<rparr>)" for so
    using parse_show_16 [of port] by (simp add: stub_setting_def stub_number_def loopback_host_def)
  show ?thesis
    unfolding stub_parse_def ws(1) using stub_args_skips [OF ws(2)] stub_args_flags [OF assms(2)] last by simp
qed


section \<open>The contract\<close>

text \<open>What a caller that keeps listening is sent for what it sent, by a stub that is ready or not.\<close>

definition stub_replies :: "pacing \<Rightarrow> string \<Rightarrow> bool \<Rightarrow> string \<Rightarrow> stream" where
  "stub_replies p alias up sent =
     \<lparr>st_bytes =
        (case stub_answer up p alias \<lparr>st_bytes = sent, st_end = None\<rparr> \<lparr>sk_written = [], sk_takes = None\<rparr> of
           Done ((_, sk), _) \<Rightarrow> sk_written sk
         | _ \<Rightarrow> []),
      st_end = None\<rparr>"

definition stub_hears :: "stub_options \<Rightarrow> duration \<Rightarrow> string \<Rightarrow> stream" where
  "stub_hears so elapsed sent =
     \<lparr>st_bytes = sk_written (stub_serve so elapsed \<lparr>st_bytes = sent, st_end = None\<rparr> \<lparr>sk_written = [], sk_takes = None\<rparr>),
      st_end = None\<rparr>"

lemma stub_hears_replies:
  "stub_hears so elapsed = stub_replies (so_pacing so) (so_alias so) (so_ready_after so \<le> elapsed)"
  by (intro ext) (auto simp: stub_hears_def stub_replies_def stub_serve_def split: run.split)

lemma probe_read:
  "stub_read_head \<lparr>st_bytes = probe_request, st_end = None\<rparr> =
     Inr ([''GET /health HTTP/1.1'', ''Host: localhost'', ''Connection: close''], \<lparr>st_bytes = [], st_end = None\<rparr>)"
  "stub_content_length [''GET /health HTTP/1.1'', ''Host: localhost'', ''Connection: close''] = 0"
  "starts_with ''GET /health HTTP/1.1'' ''GET /health ''"
  by code_simp+

lemma probe_answered:
  "stub_replies p alias up probe_request =
     \<lparr>st_bytes = complete_text (health_status up) ''application/json'' (health_body up), st_end = None\<rparr>"
  by (simp add: stub_replies_def stub_answer_def probe_read serve_health_def serve_complete_def Let_def)

lemma probe_understood:
  "health (probe_line \<lparr>st_bytes = complete_text (health_status False) ''application/json'' (health_body False), st_end = None\<rparr>)
     = Some 503"
  "health (probe_line \<lparr>st_bytes = complete_text (health_status True) ''application/json'' (health_body True), st_end = None\<rparr>)
     = Some 200"
  by code_simp+

interpretation standing_in: server_contract "stub_replies p named" for p named
  by unfold_locales (simp_all add: probe_answered probe_understood)

text \<open>
  C25: A server that becomes ready in time is started. Started on the command line the router builds, the
  stand-in answers the router's probes by its age; whatever its flags table asks of it, and however the polls fall,
  the start ends: with the child, and nothing stopped, exactly when some poll
  before the startup budget was spent found it as old as its table says it needs; otherwise with the failure that names the budget, the
  process stopped and none started in its place.
\<close>

theorem ready_server_starts:
  assumes "list_all (\<lambda>w. \<not> stub_word w) (named_words e root)" and "list_all in_step (e_flags e)"
    and "stub_flags (e_flags e) stub_defaults = Inr asked"
    and "spawn_child lo 0 sv e root = Inr c"
    and "\<And>so. stub_parse (command_line e root (ch_port c)) = Inr so \<Longrightarrow>
      probed (stub_replies (so_pacing so) (so_alias so)) (so_ready_after so) age lo 0"
    and "\<And>k n. n * poll_interval \<le> lo_elapsed lo k n"
    and "from_secs (ucast (e_startup_timeout_seconds e)) div poll_interval + 1 < fuel"
  shows "server_start fuel lo sv e root =
    Done (if ready_in_time (so_ready_after asked) age lo 0 e then (Inr c, [])
          else (Inl (not_ready e c), [ch_handle c, ch_handle c]))"
proof -
  define so where "so = asked\<lparr>so_alias := e_id e, so_host := ''127.0.0.1'', so_port := ch_port c\<rparr>"
  have "stub_parse (command_line e root (ch_port c)) = Inr so"
    using stub_reads_command_line [OF assms(1,2)] assms(3) by (simp add: so_def)
  note probed = assms(5) [OF this]
  obtain r stopped where run: "server_start fuel lo sv e root = Done (r, stopped)"
    using server_start_ends [OF assms(6,7)] by (metis surj_pair)
  have "so_ready_after so = so_ready_after asked" by (simp add: so_def)
  then show ?thesis using standing_in.started [OF probed assms(4) run] run by (simp split: if_splits)
qed


section \<open>Streams\<close>

text \<open>How many events a stream that began with \<open>index\<close> events behind it has when nobody hangs up.\<close>

definition stream_length :: "pacing \<Rightarrow> nat \<Rightarrow> nat" where
  "stream_length p index =
     (case pc_die_after p of
        None \<Rightarrow> unat (pc_events p)
      | Some limit \<Rightarrow> min (unat (pc_events p)) (max (Suc index) (unat limit)))"

definition events_text :: "nat \<Rightarrow> nat \<Rightarrow> string" where
  "events_text m n = concat (map event_text [m..<n])"

lemma events_text_Suc: "m < n \<Longrightarrow> events_text m n = event_text m @ events_text (Suc m) n"
  by (simp add: events_text_def upt_conv_Cons)

lemma events_text_none [simp]: "n \<le> m \<Longrightarrow> events_text m n = []"
  by (simp add: events_text_def)

lemma accepted_append:
  "write_all a sk = (True, sk') \<Longrightarrow> accepted sk (a @ b) = a @ accepted sk' b"
  by (auto simp: accepted_def write_all_def split: option.splits)

lemma accepted_short:
  "write_all a sk = (False, sk') \<Longrightarrow>
     sk_written sk' = sk_written sk @ accepted sk (a @ b) \<and> accepted sk (a @ b) \<noteq> a @ b"
  by (auto simp: accepted_def write_all_def split: option.splits dest!: arg_cong [of "take _ _" _ length])

lemma accepted_whole:
  "write_all a sk = (True, sk') \<Longrightarrow> sk_written sk' = sk_written sk @ a \<and> accepted sk a = a"
  by (auto simp: accepted_def write_all_def split: option.splits)

lemma stream_events_exact:
  "stream_events p index sk = ((fine, sk'), left) \<Longrightarrow>
     (let t = events_text index (stream_length p index) in
      sk_written sk' = sk_written sk @ accepted sk t \<and> (fine \<longleftrightarrow> accepted sk t = t) \<and>
      left = (if fine then None else pc_hangup_marker p))"
proof (induction p index sk arbitrary: fine sk' left rule: stream_events.induct)
  case (1 p index sk)
  show ?case
  proof (cases "index < unat (pc_events p)")
    case False
    then have "stream_length p index \<le> index" by (auto simp: stream_length_def split: option.split)
    then show ?thesis using "1.prems" False
      by (subst (asm) stream_events.simps) (auto simp: accepted_def split: option.split)
  next
    case more: True
    then have "index < stream_length p index" by (auto simp: stream_length_def split: option.split)
    then have t: "events_text index (stream_length p index)
        = event_text index @ events_text (Suc index) (stream_length p index)" by (rule events_text_Suc)
    obtain fine1 sk1 where w: "write_all (event_text index) sk = (fine1, sk1)" by fastforce
    show ?thesis
    proof (cases fine1)
      case False
      then have "fine = False" "sk' = sk1" "left = pc_hangup_marker p"
        using "1.prems" more w by (subst (asm) stream_events.simps, simp)+
      then show ?thesis using accepted_short [of "event_text index" sk sk1] w False by (simp add: t Let_def)
    next
      case True
      show ?thesis
      proof (cases "\<exists>limit. pc_die_after p = Some limit \<and> unat limit \<le> index + 1")
        case True
        then have "stream_length p index \<le> Suc index" by (auto simp: stream_length_def)
        moreover have "fine \<and> sk' = sk1 \<and> left = None"
          using "1.prems" more w True \<open>fine1\<close> by (subst (asm) stream_events.simps) auto
        ultimately show ?thesis using accepted_whole [of "event_text index" sk sk1] w \<open>fine1\<close> by (simp add: t)
      next
        case False
        then have "stream_events p (Suc index) sk1 = ((fine, sk'), left)"
          using "1.prems" more w \<open>fine1\<close> by (subst (asm) stream_events.simps) (auto split: option.splits if_splits)
        moreover have "stream_length p (Suc index) = stream_length p index"
          using False by (auto simp: stream_length_def split: option.split)
        ultimately show ?thesis
          using "1.IH" more w \<open>fine1\<close> False accepted_append [of "event_text index" sk sk1] accepted_whole [of "event_text index" sk sk1]
          unfolding t by (cases "pc_die_after p") (fastforce simp: Let_def)+
      qed
    qed
  qed
qed

text \<open>
  A stream is its head and its events in order, as many as were asked for, or as many as it was told to die
  after but never none; a caller that goes away cuts it where it stops taking bytes; and the
  marker file is left exactly when the caller took the whole head and not the rest.
\<close>

theorem stream_exact:
  assumes "serve_stream p sk = ((fine, sk'), left)"
  shows "(let t = stream_head @ events_text 0 (case pc_die_after p of None \<Rightarrow> unat (pc_events p)
        | Some limit \<Rightarrow> min (unat (pc_events p)) (max 1 (unat limit))) in
      sk_written sk' = sk_written sk @ accepted sk t \<and> (fine \<longleftrightarrow> accepted sk t = t) \<and>
      left = (if \<not> fine \<and> accepted sk stream_head = stream_head then pc_hangup_marker p else None))"
proof -
  obtain fine1 sk1 where w: "write_all stream_head sk = (fine1, sk1)" by fastforce
  have len: "stream_length p 0 = (case pc_die_after p of None \<Rightarrow> unat (pc_events p)
        | Some limit \<Rightarrow> min (unat (pc_events p)) (max 1 (unat limit)))" unfolding stream_length_def One_nat_def by (rule refl)
  show ?thesis
  proof (cases fine1)
    case True
    then have "stream_events p 0 sk1 = ((fine, sk'), left)" using assms w by (simp add: serve_stream_def)
    from stream_events_exact [OF this] show ?thesis
      using accepted_append [of stream_head sk sk1] accepted_whole [of stream_head sk sk1] w True
      by (simp add: Let_def len [symmetric])
  next
    case False
    then have "fine = False" "sk' = sk1" "left = None" using assms w by (simp_all add: serve_stream_def)
    then show ?thesis using accepted_short [of stream_head sk sk1 "events_text 0 (stream_length p 0)"]
        accepted_short [of stream_head sk sk1 "[]"] w False
      by (simp add: Let_def len [symmetric])
  qed
qed

section \<open>Echoes\<close>

lemma crlf_ne: "crlf \<noteq> []"
  by (simp add: crlf_def)

lemma stub_head_loop_text:
  "\<forall>l \<in> set ls. plain_line l \<and> utf8_valid l \<Longrightarrow> already + length (head_text ls) \<le> head_limit \<Longrightarrow>
     st_bytes st = head_text ls @ body \<Longrightarrow>
     stub_head_loop already done_lines st = Inr (done_lines @ ls, st\<lparr>st_bytes := body\<rparr>)"
proof (induction ls arbitrary: already done_lines st)
  case Nil
  have "read_whole_line st = Inr ([] @ crlf, st\<lparr>st_bytes := body\<rparr>)"
    unfolding read_whole_line_def using Nil by (intro read_line_crlf) auto
  then show ?case using Nil trim_crlf [of "[]"] by (subst stub_head_loop.simps) (simp add: Let_def crlf_ne)
next
  case (Cons l ls)
  have l: "plain_line l" "utf8_valid l" "newline \<notin> set l" using Cons.prems by (auto simp: plain_line_def)
  have "read_whole_line st = Inr (l @ crlf, st\<lparr>st_bytes := head_text ls @ body\<rparr>)"
    unfolding read_whole_line_def using Cons.prems l by (intro read_line_crlf) auto
  moreover have "stub_head_loop (already + length (l @ crlf)) (done_lines @ [l]) (st\<lparr>st_bytes := head_text ls @ body\<rparr>)
      = Inr ((done_lines @ [l]) @ ls, st\<lparr>st_bytes := head_text ls @ body\<rparr>\<lparr>st_bytes := body\<rparr>)"
    using Cons.prems by (intro Cons.IH) auto
  moreover have "l \<noteq> []" using l(1) by (simp add: plain_line_def)
  ultimately show ?case using Cons.prems trim_crlf [of l] l
    by (subst stub_head_loop.simps) (simp add: Let_def)
qed

text \<open>The stub reads a length as the router reads a header: the first one, where the router goes by the last.\<close>

lemma found_first:
  "find (\<lambda>(name, _). eq_ignore_ascii_case (trim name) ''content-length'') (List.map_filter (split_once '':'') ls) =
     None \<longleftrightarrow> values_of ''content-length'' (header_pairs ls) = []"
  "find (\<lambda>(name, _). eq_ignore_ascii_case (trim name) ''content-length'') (List.map_filter (split_once '':'') ls) =
     Some (n, v) \<Longrightarrow> \<exists>vs. values_of ''content-length'' (header_pairs ls) = trim v # vs"
proof (induction ls)
  case Nil
  case 1 show ?case by (simp add: header_pairs_def List.map_filter_simps)
  case 2 then show ?case by (simp add: List.map_filter_simps)
next
  case (Cons l ls)
  {
    case 1 show ?case using Cons(1)
      by (auto simp: header_pairs_def header_pair_def List.map_filter_simps split: option.split)
  next
    case 2 then show ?case using Cons(2)
      by (auto simp: header_pairs_def header_pair_def List.map_filter_simps split: option.splits if_splits)
  }
qed

lemma stub_length_read:
  assumes "length (values_of ''content-length'' (header_pairs ls)) \<le> 1"
  shows "stub_content_length ls =
    (case length_declared (header_pairs ls) of Given n \<Rightarrow> n | _ \<Rightarrow> 0)"
proof (cases "find (\<lambda>(name, _). eq_ignore_ascii_case (trim name) ''content-length'') (List.map_filter (split_once '':'') ls)")
  case None
  then show ?thesis using found_first(1) [THEN iffD1, OF None] by (simp add: stub_content_length_def length_declared_def None)
next
  case (Some nv)
  then obtain n v where nv: "nv = (n, v)" by (cases nv)
  obtain vs where "values_of ''content-length'' (header_pairs ls) = trim v # vs"
    using found_first(2) Some nv by blast
  then have "values_of ''content-length'' (header_pairs ls) = [trim v]" using assms by simp
  then show ?thesis using Some nv
    by (simp add: stub_content_length_def length_declared_def length_of_value_def split: option.split)
qed

lemma header_pair_named:
  assumes "header_pair (c # l) = Some (n, v)" and "visible c" and "c \<noteq> CHR '':''"
  shows "\<not> eq_ignore_ascii_case n (d # name) \<or> ascii_lower c = ascii_lower d"
proof -
  obtain a b where ab: "split_once '':'' (c # l) = Some (a, b)" "n = trim a"
    using assms(1) by (auto simp: header_pair_def)
  then obtain a' where a: "a = c # a'" using split_once_Some [OF ab(1)] assms(3) by (cases a) auto
  have "trim_start a = a" using assms(2) by (simp add: a trim_start_def strip_spaces_id space_at_visible)
  then obtain u where "c # a' = n @ u" using trim_end_prefix [of a] by (auto simp: a ab(2) trim_def)
  then show ?thesis by (cases n) (auto simp: eq_ignore_ascii_case_def to_ascii_lowercase_def)
qed

lemma starts_with_health:
  assumes "verb = ''GET'' \<or> verb = ''POST''" and "word_ok path" and "path \<noteq> []"
    and "starts_with (verb @ '' '' @ path @ '' '' @ version) ''GET /health ''"
  shows "path = ''/health''"
proof -
  have verb: "verb = ''GET''" using assms(1,4) by (auto simp: starts_with_def)
  then obtain t where t: "path @ '' '' @ version = ''/health'' @ '' '' @ t"
    using assms(4) by (auto simp: starts_with_def is_prefix_iff)
  have no: "CHR '' '' \<notin> set path"
  proof
    assume "CHR '' '' \<in> set path"
    then obtain a b where "path = a @ CHR '' '' # b" by (meson split_list)
    moreover have "'' '' \<in> set white_spaces" by (simp add: white_spaces_def)
    ultimately show False using assms(2) unfolding word_ok_def by fastforce
  qed
  have "split_once '' '' (path @ '' '' @ version) = Some (path, version)"
    using split_once_char [OF no, of version] by simp
  moreover have "split_once '' '' (''/health'' @ '' '' @ t) = Some (''/health'', t)"
    using split_once_char [of "CHR '' ''" "''/health''" t] by simp
  ultimately show ?thesis unfolding t by simp
qed

lemma ends_apart: "ends_with s ''/v1/echo'' \<Longrightarrow> \<not> ends_with s ''/v1/chat/completions'' \<and> s \<noteq> ''/health''"
  by (cases "rev s") (auto simp: ends_with_def)

lemma verbs_apart:
  "visible CHR ''G''" "visible CHR ''P''" "ascii_lower CHR ''G'' \<noteq> ascii_lower CHR ''c''"
  "ascii_lower CHR ''P'' \<noteq> ascii_lower CHR ''c''"
  by code_simp+

text \<open>The stub, sent the head the router rewrote and the body it declares, echoes both.\<close>

lemma stub_echoes:
  assumes "head_read st = Inr (ls, rest)" and "head_parse ls = Inr h" and "hd_method h = ''GET'' \<or> hd_method h = ''POST''"
    and "ends_with (endpoint_suffix (hd_endpoint h)) ''/v1/echo''"
    and "length (rewrite h (loopback_at port)) \<le> 65536"
    and "length (values_of ''content-length'' (hd_headers h)) \<le> 1"
    and "length body = unat (body_bytes h)" and "length body \<le> isize_max"
  shows "st_bytes (stub_replies p named up (rewrite h (loopback_at port) @ body)) =
    complete_text ''200 OK'' ''text/plain'' (echo_body (rewritten_lines h (loopback_at port)) named body)"
proof -
  define request field_lines where "request = hd (rewritten_lines h (loopback_at port))"
    and "field_lines = tl (rewritten_lines h (loopback_at port))"
  have lines: "rewritten_lines h (loopback_at port) = request # field_lines"
    by (simp add: request_def field_lines_def rewritten_lines_def)
  note read = rewritten_read [OF assms(1,2), of port, unfolded lines, simplified]
  have request: "request = hd_method h @ '' '' @ endpoint_suffix (hd_endpoint h) @ '' '' @ ''HTTP/1.1''"
    by (simp add: request_def rewritten_lines_def)
  have head: "stub_read_head \<lparr>st_bytes = rewrite h (loopback_at port) @ body, st_end = None\<rparr> =
      Inr (request # field_lines, \<lparr>st_bytes = body, st_end = None\<rparr>)"
    unfolding stub_read_head_def
    using stub_head_loop_text [of "request # field_lines" 0 _ body "[]"] read assms(5)
    by (simp add: rewrite_lines lines head_limit_def)
  obtain c l where c: "request = c # l" "visible c" "c \<noteq> CHR '':''" "ascii_lower c \<noteq> ascii_lower CHR ''c''"
    using assms(3) verbs_apart unfolding request by (elim disjE) simp_all
  have "header_pairs (request # field_lines) =
      (case header_pair request of None \<Rightarrow> [] | Some nv \<Rightarrow> [nv]) @ header_pairs field_lines"
    by (simp add: header_pairs_def List.map_filter_simps split: option.split)
  then have lengths: "values_of ''content-length'' (header_pairs (request # field_lines)) = values_of ''content-length'' (hd_headers h)"
    using read header_pair_named [of c l _ _ "CHR ''c''" "''ontent-length''"] c
    by (auto simp: kept_values split: option.split)
  then have "stub_content_length (request # field_lines) = body_bytes h"
    using stub_length_read [of "request # field_lines"] assms(6) head_parse_said [OF assms(2)]
    by (simp add: length_declared_def body_bytes_def Let_def split: length_said.split)
  moreover have ne: "endpoint_suffix (hd_endpoint h) \<noteq> []" using assms(4) by (auto simp: ends_with_def)
  have "word_ok (endpoint_suffix (hd_endpoint h))"
    using split_whitespace_ok [of "endpoint_suffix (hd_endpoint h)" request] read by simp
  from starts_with_health [OF assms(3) this ne, of "''HTTP/1.1''"] ends_apart [OF assms(4)]
  have "\<not> starts_with request ''GET /health ''" unfolding request by blast
  ultimately show ?thesis
    using head read ne ends_apart [OF assms(4)] assms(4,7,8)
    by (auto simp: stub_replies_def stub_answer_def Let_def serve_complete_def Answer.read_exact_def lines)
qed

text \<open>What the stand-in makes of the command line the router builds for an entry: its name and where to listen.\<close>

lemma stub_named:
  assumes "list_all (\<lambda>w. \<not> stub_word w) (named_words e root)" and "list_all in_step (e_flags e)"
    and "stub_parse (command_line e root port) = Inr so"
  shows "so_alias so = e_id e" and "so_port so = port"
proof -
  have "attempt (stub_flags (e_flags e) stub_defaults)
      (\<lambda>so. Inr (so\<lparr>so_alias := e_id e, so_host := ''127.0.0.1'', so_port := port\<rparr>)) = Inr so"
    using stub_reads_command_line [OF assms(1,2), of port] assms(3) by simp
  then show "so_alias so = e_id e" "so_port so = port" by (auto simp: attempt_Inr)
qed

text \<open>
  C26: What the model is asked can be read off its own answer. A request for the echo of an entry whose child is the
  stand-in, started on the command line the router builds for that entry and answering as that line has it, from a caller that
  keeps listening, is answered with one complete reply, behind at most an interim line, that names the entry and quotes
  the lines of the head the router says it rewrote and the body the caller sent, as text: byte for byte
  where it is UTF-8, with what is not replaced where it is not; whether or not the router had to read the body to learn the model's name.
\<close>

theorem echo_shows_what_was_sent:
  assumes "head_read st = Inr (ls, rest)" and "head_parse ls = Inr h" and "asks_for sv h rest e"
    and "child_for (an_fuel sv) (an_surroundings sv) (an_launcher sv) (an_slots sv) (c_entries (an_catalog sv)) e
      (an_now sv) w = Done (Inr c, w1)"
    and "an_connect sv c = Some \<lparr>up_takes = None, up_answer = stub_replies (so_pacing so) (so_alias so) (so_ready_after so \<le> age)\<rparr>"
    and "sk_takes sk = None"
    and "ends_with (endpoint_suffix (hd_endpoint h)) ''/v1/echo''"
    and "length (rewrite h (child_endpoint c)) \<le> 65536"
    and "length (values_of ''content-length'' (hd_headers h)) \<le> 1"
    and "unat (body_bytes h) \<le> length (st_bytes rest)" and "unat (body_bytes h) < 2 ^ 63"
    and started: "stub_parse (command_line e root (ch_port c)) = Inr so"
      "list_all (\<lambda>w. \<not> stub_word w) (named_words e root)" "list_all in_step (e_flags e)"
  shows "\<exists>a interim shown. answer_to sv st sk w = Done a \<and> interim \<in> {[], proceed_line} \<and>
    sk_written (aw_caller a) = sk_written sk @ interim @ complete_text ''200 OK'' ''text/plain''
      (join [newline] (rewritten_lines h (child_endpoint c)) @ [newline] @ ''alias: '' @ e_id e @ [newline]
        @ ''body: '' @ shown) \<and>
    shown = from_utf8_lossy (take (unat (body_bytes h)) (st_bytes rest)) \<and>
    (utf8_valid (take (unat (body_bytes h)) (st_bytes rest)) \<longrightarrow> shown = take (unat (body_bytes h)) (st_bytes rest))"
proof -
  obtain buffered0 rest0 sk0 where ask: "answer_to sv st sk w = answer_model sv h (e_id e) buffered0 rest0 sk0 w"
      "sk_takes sk0 = None" "catalog_entry (an_catalog sv) (e_id e) = Some e"
    using asked_answer [OF assms(1-3,6)] by metis
  obtain a r where a: "answer_to sv st sk w = Done a" "aw_relayed a = Some (c, r)"
    using answer_served [OF ask(3,2) assms(4), of h buffered0 rest0] unfolding ask(1) by blast
  obtain buffered rest1 sk1 where run: "interim_written sk sk1"
      "relay_run (an_pieces sv) (an_connect sv) h c buffered rest1 sk1 = r"
      "case buffered of None \<Rightarrow> rest1 = rest | Some bytes \<Rightarrow> bytes = take (unat (body_bytes h)) (st_bytes rest)"
      "aw_caller a = rr_caller r"
    by (rule relayed_run [OF a]) (use assms(1,2) in fastforce)
  obtain interim where sk1: "interim \<in> {[], proceed_line}" "sk1 = sk\<lparr>sk_written := sk_written sk @ interim\<rparr>"
    using interim_unlimited [OF run(1) assms(6)] by blast
  let ?body = "take (unat (body_bytes h)) (st_bytes rest)"
  have sent: "rr_sent r = rewrite h (child_endpoint c) @ ?body" "rr_ok r"
    using relay_exact [OF assms(5) _ run(2)] run(3) assms(10) by (cases buffered; simp)+
  have upstream: "child_endpoint c = loopback_at (ch_port c)" by (simp add: child_endpoint_def loopback_at_def)
  have named: "so_alias so = e_id e" by (rule stub_named(1) [OF started(2,3,1)])
  have "st_bytes (stub_replies (so_pacing so) (so_alias so) (so_ready_after so \<le> age) (rr_sent r)) =
      complete_text ''200 OK'' ''text/plain'' (echo_body (rewritten_lines h (child_endpoint c)) (e_id e) ?body)"
    unfolding sent(1) upstream named
    using assms by (intro stub_echoes) (auto simp: upstream asks_for_def isize_max_def)
  then have "sk_written (aw_caller a) = sk_written sk @ interim @ complete_text ''200 OK'' ''text/plain''
      (echo_body (rewritten_lines h (child_endpoint c)) (e_id e) ?body)"
    using relay_caller [OF run(2)] assms(5,6) run(4) sk1(2) sent(2) by (simp add: accepted_def)
  then show ?thesis
    using a(1) sk1(1) from_utf8_lossy_valid [of ?body]
    by (intro exI [of _ a] exI [of _ interim] exI [of _ "from_utf8_lossy ?body"]) (simp add: echo_body_def)
qed

section \<open>A concrete stand-in\<close>

definition staged_entry :: entry where
  "staged_entry = Launch_Laws.sample_entry\<lparr>e_flags := [(''ready-after'', ''500'')]\<rparr>"

definition staged_machine :: launching where
  "staged_machine = sample_machine
     \<lparr>lo_try_wait := \<lambda>_ _. Inr None,
      lo_health_line := \<lambda>_ n. probe_line (stub_replies (so_pacing stub_defaults) ''m'' (500000000 \<le> n * poll_interval) probe_request)\<rparr>"

definition staged_child :: child where
  "staged_child = \<lparr>ch_id = ''m'', ch_port = 80, ch_pid = 1, ch_handle = 0\<rparr>"

lemma staged_reads:
  "list_all (\<lambda>w. \<not> stub_word w) (named_words staged_entry ''/r'')" "list_all in_step (e_flags staged_entry)"
  "stub_flags (e_flags staged_entry) stub_defaults = Inr (stub_defaults\<lparr>so_ready_after := 500000000\<rparr>)"
  "spawn_child staged_machine 0 sample_server staged_entry ''/r'' = Inr staged_child"
  "from_secs (ucast (e_startup_timeout_seconds staged_entry)) div poll_interval + 1 < 20"
  by code_simp+

lemma staged_probed:
  assumes "stub_parse (command_line staged_entry ''/r'' port) = Inr so"
  shows "probed (stub_replies (so_pacing so) (so_alias so)) (so_ready_after so) (\<lambda>n. Some (n * poll_interval)) staged_machine 0"
proof -
  have "so_ready_after so = 500000000"
    using assms stub_reads_command_line [OF staged_reads(1,2)] staged_reads(3) by auto
  then show ?thesis by (simp add: probed_def staged_machine_def child_check_def probe_answered)
qed

lemma staged_in_time: "ready_in_time 500000000 (\<lambda>n. Some (n * poll_interval)) staged_machine 0 staged_entry"
  unfolding ready_in_time_def
proof (intro exI conjI allI impI)
  show "Some (5 * poll_interval) = Some (5 * poll_interval)" "500000000 \<le> 5 * poll_interval" by code_simp+
  show "lo_elapsed staged_machine 0 j < from_secs (ucast (e_startup_timeout_seconds staged_entry))" if "j < 5" for j
    using that by (simp add: staged_machine_def sample_machine_def staged_entry_def Launch_Laws.sample_entry_def poll_interval_def
        from_millis_def from_secs_def)
qed

theorem ready_server_starts_witness:
  "server_start 20 staged_machine sample_server staged_entry ''/r'' = Done (Inr staged_child, [])"
  using ready_server_starts [OF staged_reads(1-4) staged_probed _ staged_reads(5)] staged_in_time
  by (simp add: staged_machine_def sample_machine_def)

definition echo_lines :: "string list" where
  "echo_lines = [''POST /models/m/v1/echo HTTP/1.1'', ''Content-Length: 2'']"

definition echo_head :: head where
  "echo_head = \<lparr>hd_method = ''POST'', hd_endpoint = Dedicated ''m'' ''/v1/echo'', hd_headers = [(''Content-Length'', ''2'')],
     hd_length = Given 2, hd_chunked = False, hd_expects_continue = False\<rparr>"

definition echo_options :: stub_options where
  "echo_options = stub_defaults\<lparr>so_alias := ''m'', so_host := ''127.0.0.1'', so_port := 80\<rparr>"

definition echo_serving :: serving where
  "echo_serving = sample_serving\<lparr>an_connect := \<lambda>_. Some \<lparr>up_takes = None,
     up_answer = stub_replies (so_pacing echo_options) (so_alias echo_options) (so_ready_after echo_options \<le> 0)\<rparr>\<rparr>"

lemma echo_read:
  "head_read \<lparr>st_bytes = head_text echo_lines @ ''hi'', st_end = None\<rparr> = Inr (echo_lines, \<lparr>st_bytes = ''hi'', st_end = None\<rparr>)"
  "head_parse echo_lines = Inr echo_head"
  "asks_for echo_serving echo_head \<lparr>st_bytes = ''hi'', st_end = None\<rparr> Answer_Laws.sample_model"
proof -
  have "list_all plain_line echo_lines" "list_all (list_all (\<lambda>c. code c < 0x80)) echo_lines" by code_simp+
  then have "\<forall>l \<in> set echo_lines. plain_line l \<and> utf8_valid l"
    by (auto simp: list_all_iff [of _ echo_lines] intro: utf8_valid_ascii)
  then show "head_read \<lparr>st_bytes = head_text echo_lines @ ''hi'', st_end = None\<rparr> =
      Inr (echo_lines, \<lparr>st_bytes = ''hi'', st_end = None\<rparr>)"
    by (intro head_read_text) (simp_all add: echo_lines_def head_text_def)
  show "head_parse echo_lines = Inr echo_head" by code_simp
  show "asks_for echo_serving echo_head \<lparr>st_bytes = ''hi'', st_end = None\<rparr> Answer_Laws.sample_model"
    by (simp add: asks_for_def names_model_def echo_head_def echo_serving_def sample_serving_def framing_def
        catalog_entry_def Answer_Laws.sample_model_def)
qed

lemma echo_facts:
  "ends_with (endpoint_suffix (hd_endpoint echo_head)) ''/v1/echo''"
  "length (rewrite echo_head (child_endpoint (sc_child sample_held))) \<le> 65536"
  "length (values_of ''content-length'' (hd_headers echo_head)) \<le> 1"
  "unat (body_bytes echo_head) \<le> length ''hi''" "unat (body_bytes echo_head) < 2 ^ 63"
  "rewritten_lines echo_head (child_endpoint (sc_child sample_held)) =
     [''POST /v1/echo HTTP/1.1'', ''Host: 127.0.0.1:80'', ''Connection: close'', ''Content-Length: 2'']"
  "take (unat (body_bytes echo_head)) ''hi'' = ''hi''" "utf8_valid ''hi''"
  by code_simp+

lemma echo_started:
  "stub_parse (command_line Answer_Laws.sample_model ''/r'' (ch_port (sc_child sample_held))) = Inr echo_options"
  "list_all (\<lambda>w. \<not> stub_word w) (named_words Answer_Laws.sample_model ''/r'')"
  "list_all in_step (e_flags Answer_Laws.sample_model)" "e_id Answer_Laws.sample_model = ''m''"
  by code_simp+

theorem echo_shows_what_was_sent_witness:
  "\<exists>a interim. answer_to echo_serving \<lparr>st_bytes = head_text echo_lines @ ''hi'', st_end = None\<rparr> sample_caller sample_world = Done a \<and>
     sk_written (aw_caller a) = interim @ complete_text ''200 OK'' ''text/plain''
       (join [newline] [''POST /v1/echo HTTP/1.1'', ''Host: 127.0.0.1:80'', ''Connection: close'', ''Content-Length: 2'']
        @ [newline] @ ''alias: '' @ ''m'' @ [newline] @ ''body: '' @ ''hi'')"
proof -
  have child: "child_for (an_fuel echo_serving) (an_surroundings echo_serving) (an_launcher echo_serving) (an_slots echo_serving)
      (c_entries (an_catalog echo_serving)) Answer_Laws.sample_model (an_now echo_serving) sample_world = Done (Inr (sc_child sample_held),
        clone_child (sc_child sample_held) (put_slot (e_id Answer_Laws.sample_model)
          (Some (sample_held\<lparr>sc_last_used := an_now echo_serving\<rparr>)) sample_world))"
    using lend_and_return(1) [OF sample_loaded(1-3), of "an_now echo_serving"] by (simp add: child_for_def)
  have connect: "an_connect echo_serving (sc_child sample_held) = Some \<lparr>up_takes = None,
      up_answer = stub_replies (so_pacing echo_options) (so_alias echo_options) (so_ready_after echo_options \<le> 0)\<rparr>"
    by (simp add: echo_serving_def)
  from echo_shows_what_was_sent [OF echo_read child connect sample_loaded(5) echo_facts(1-3) _ echo_facts(5) echo_started(1-3)]
  obtain a interim shown where "answer_to echo_serving \<lparr>st_bytes = head_text echo_lines @ ''hi'', st_end = None\<rparr> sample_caller sample_world = Done a"
      "sk_written (aw_caller a) = sk_written sample_caller @ interim @ complete_text ''200 OK'' ''text/plain''
        (join [newline] (rewritten_lines echo_head (child_endpoint (sc_child sample_held))) @ [newline] @ ''alias: ''
          @ e_id Answer_Laws.sample_model @ [newline] @ ''body: '' @ shown)" "shown = ''hi''"
    using echo_facts(4,7,8) by auto
  then show ?thesis unfolding echo_facts(6) echo_started(4) by (intro exI [of _ a] exI [of _ interim]) (simp add: sample_caller_def)
qed

end
