(* ===== verification/Settings.thy ===== *)
theory Settings
  imports Idle
begin

text \<open>
  What an operator can set. Three modules read a number from a variable of their own (\<open>queue.rs\<close> the wait,
  \<open>idle.rs\<close> the window, \<open>admission/budget.rs\<close> the budget), and an operator who knows one knows all three: the
  locale \<open>setting\<close> is that contract, and each of the three is an interpretation.
\<close>

locale setting =
  fixes configured :: "environment \<Rightarrow> failure + 'a"
    and variable :: string
    and unset :: 'a
    and parse :: "string \<Rightarrow> 'n option"
    and printed :: "'n \<Rightarrow> string"
    and given :: "'n \<Rightarrow> 'a"
  assumes unset_law: "env_value env variable = None \<Longrightarrow> configured env = Inr unset"
    and given_law: "env_value env variable = Some v \<Longrightarrow> parse (trim (from_utf8_lossy v)) = Some n \<Longrightarrow> configured env = Inr (given n)"
    and refused_law: "env_value env variable = Some v \<Longrightarrow> parse (trim (from_utf8_lossy v)) = None \<Longrightarrow>
      \<exists>why. configured env = Inl (Unavailable (variable @ why))"
    and printed_law: "parse (printed n) = Some n" "list_all is_ascii_digit (printed n)" "printed n \<noteq> []"
begin

lemma unset_or_empty: "env variable \<in> {None, Some []} \<Longrightarrow> configured env = Inr unset"
  by (rule unset_law) (auto simp: env_value_def)

text \<open>A number in decimal is itself, with any spaces around it.\<close>

lemma number_given:
  assumes "env variable = Some (replicate a (CHR '' '') @ printed n @ replicate b (CHR '' ''))"
  shows "configured env = Inr (given n)"
proof (rule given_law)
  let ?v = "replicate a (CHR '' '') @ printed n @ replicate b (CHR '' '')"
  show "env_value env variable = Some ?v" using assms printed_law(3) [of n] by (simp add: env_value_Some)
  have digits: "list_all visible (printed n)"
    using printed_law(2) [of n] by (auto simp: list_all_iff visible_def is_ascii_digit_def)
  have "code (CHR '' '') < 0x80" by code_simp
  then have "list_all (\<lambda>c. code c < 0x80) ?v"
    using digits by (auto simp: list_all_iff visible_def)
  then have "from_utf8_lossy ?v = ?v" by (intro from_utf8_lossy_valid utf8_valid_ascii)
  moreover have "trim ?v = printed n"
    using digits printed_law(3) [of n] by (intro trim_visible) (simp_all add: list_all_iff)
  ultimately show "parse (trim (from_utf8_lossy ?v)) = Some n" using printed_law(1) by simp
qed

lemma refused_by_name:
  "env variable = Some v \<Longrightarrow> v \<noteq> [] \<Longrightarrow> parse (trim (from_utf8_lossy v)) = None \<Longrightarrow>
     \<exists>why. configured env = Inl (Unavailable (variable @ why))"
  by (rule refused_law) (simp_all add: env_value_Some)

text \<open>Nothing else in the environment matters, but for what a refusal says.\<close>

lemma accepted_value:
  assumes "configured env = Inr x"
  shows "x = unset \<and> env_value env variable = None \<or>
    (\<exists>v n. env_value env variable = Some v \<and> parse (trim (from_utf8_lossy v)) = Some n \<and> x = given n)"
proof (cases "env_value env variable")
  case None
  then show ?thesis using unset_law assms by fastforce
next
  case (Some v)
  then show ?thesis using given_law refused_law assms by (cases "parse (trim (from_utf8_lossy v))") fastforce+
qed

end

lemma show_word_printed: "list_all is_ascii_digit (show_word w)" "show_word w \<noteq> []"
  by (rule show_word_digits)+

interpretation waiting: setting wait_configured wait_variable "Wait default_wait" parse_u64 show_word "\<lambda>s. Wait (from_secs s)"
  by unfold_locales (auto simp: wait_configured_def Let_def show_word_printed)

interpretation windowed: setting idle_configured idle_variable "IdleWindow None" parse_u64 show_word
    "\<lambda>s. idle_window_new (from_secs s)"
  by unfold_locales (auto simp: idle_configured_def Let_def show_word_printed)

interpretation budgeted: setting "\<lambda>env. budget_configured env m" budget_variable "budget_derived m (probe_detect m)"
    parse_u32 show_word
    "\<lambda>mib. \<lparr>b_limit_mib = Some mib, b_probe = probe_detect m, b_source = ''from '' @ budget_variable\<rparr>" for m
  by unfold_locales (auto simp: budget_configured_def Let_def show_word_printed)

text \<open>
  The three settings read from the environment agree on what a value is: unset or empty
  means the default (no window, the default wait, the machine's own budget), a number printed
  in decimal is that number, zero seconds switches the idle window off and the wait to
  refusing, and anything that is not a number is refused by name.
\<close>

theorem settings_configured:
  "(env idle_variable \<in> {None, Some []} \<longrightarrow> idle_configured env = Inr (IdleWindow None)) \<and>
   (env wait_variable \<in> {None, Some []} \<longrightarrow> wait_configured env = Inr (Wait (from_secs 60))) \<and>
   (env budget_variable \<in> {None, Some []} \<longrightarrow> budget_configured env m = Inr (budget_derived m (probe_detect m))) \<and>
   (\<forall>s. env idle_variable = Some (show_word s) \<longrightarrow>
      idle_configured env = Inr (IdleWindow (if s = 0 then None else Some (from_secs s)))) \<and>
   (\<forall>s. env wait_variable = Some (show_word s) \<longrightarrow>
      wait_configured env = Inr (Wait (from_secs s)) \<and> (waits (Wait (from_secs s)) \<longleftrightarrow> s \<noteq> 0)) \<and>
   (\<forall>mib. env budget_variable = Some (show_word mib) \<longrightarrow>
      map_sum id b_limit_mib (budget_configured env m) = Inr (Some mib)) \<and>
   (\<forall>v. v \<noteq> [] \<and> parse_u64 (trim (from_utf8_lossy v)) = None \<longrightarrow>
      (env idle_variable = Some v \<longrightarrow> (\<exists>why. idle_configured env = Inl (Unavailable (idle_variable @ why)))) \<and>
      (env wait_variable = Some v \<longrightarrow> (\<exists>why. wait_configured env = Inl (Unavailable (wait_variable @ why)))))"
proof -
  have zero: "from_secs s = 0 \<longleftrightarrow> s = 0" for s
    by (simp add: from_secs_def unat_eq_0)
  show ?thesis
    using waiting.unset_or_empty [of env] windowed.unset_or_empty [of env] budgeted.unset_or_empty [of env m]
      waiting.number_given [of env 0 _ 0] windowed.number_given [of env 0 _ 0] budgeted.number_given [of env 0 _ 0 m]
      waiting.refused_by_name [of env] windowed.refused_by_name [of env]
    by (auto simp: default_wait_def idle_window_new_def waits_def zero)
qed

definition sample_env :: environment where
  "sample_env = [idle_variable \<mapsto> ''1800'', wait_variable \<mapsto> ''soon'']"

theorem settings_configured_witness:
  "idle_configured sample_env = Inr (IdleWindow (Some (from_secs 1800))) \<and>
   (\<exists>why. wait_configured sample_env = Inl (Unavailable (wait_variable @ why))) \<and>
   (\<forall>m. budget_configured sample_env m = Inr (budget_derived m (probe_detect m)))"
proof -
  have env: "sample_env idle_variable = Some (show_word (1800 :: u64))" "sample_env wait_variable = Some ''soon''"
    "sample_env budget_variable = None" "parse_u64 (trim (from_utf8_lossy ''soon'')) = None" "(1800 :: u64) \<noteq> 0"
    unfolding sample_env_def by code_simp+
  show ?thesis using settings_configured [of sample_env] env by auto
qed

end
