(* ===== verification/Right_Child.thy ===== *)
theory Right_Child
  imports Shared Launch_Laws Answer_Laws
begin

text \<open>
  The child that answers for an entry was started for it. The slots rely on whoever starts a child for them to
  start the one that was asked for; that is the locale \<open>launcher_contract\<close>, under which every operation of
  \<open>proxy/slots/\<close> and the answering of a connection keep each child in the slot of its own entry.
  \<open>Server::start\<close>, as \<open>proxy/shared.rs\<close> hands it to the slots, keeps the contract.
\<close>

section \<open>Children in their own slots\<close>

definition own_children :: "world \<Rightarrow> bool" where
  "own_children w \<longleftrightarrow> (\<forall>i held. wd_slots w i = Some held \<longrightarrow> ch_id (sc_child held) = i)"

lemma own_children_slots [simp]:
  "own_children (clone_child c w) = own_children w" "own_children (drop_child c w) = own_children w"
  "own_children (w\<lparr>wd_strong := s\<rparr>) = own_children w" "own_children (w\<lparr>wd_process := p\<rparr>) = own_children w"
  by (simp_all add: own_children_def clone_child_def drop_child_def Let_def)

lemma own_children_put:
  "own_children w \<Longrightarrow> \<forall>h. held = Some h \<longrightarrow> ch_id (sc_child h) = i \<Longrightarrow> own_children (put_slot i held w)"
  by (simp add: own_children_def put_slot_def)

lemma own_childrenD: "own_children w \<Longrightarrow> wd_slots w i = Some held \<Longrightarrow> ch_id (sc_child held) = i"
  by (simp add: own_children_def)

lemma live_child_own:
  "own_children w \<Longrightarrow> live_child i now w = (r, w') \<Longrightarrow> own_children w' \<and> (\<forall>c. r = Some c \<longrightarrow> ch_id c = i)"
  by (auto simp: live_child_def own_childrenD split: option.splits if_splits intro!: own_children_put)

lemma take_if_idle_own: "own_children w \<Longrightarrow> take_if_idle i also w = (r, w') \<Longrightarrow> own_children w'"
  by (auto simp: take_if_idle_def split: option.splits if_splits intro!: own_children_put)

lemma unload_own: "own_children w \<Longrightarrow> unload ids w = (r, w') \<Longrightarrow> own_children w'"
  by (induction ids w rule: unload.induct)
    (auto split: prod.splits take.splits dest: take_if_idle_own)

lemma touch_own: "own_children w \<Longrightarrow> own_children (touch i now w)"
  by (auto simp: touch_def own_childrenD split: option.split intro!: own_children_put)

lemma make_room_pass_own: "own_children w \<Longrightarrow> make_room_pass b es e free w = (r, w') \<Longrightarrow> own_children w'"
  by (auto simp: make_room_pass_def split: decision.splits prod.splits sum.splits dest: unload_own)

text \<open>What other threads do during a wait leaves children where they belong, as every operation here does.\<close>

definition others_own :: "surroundings \<Rightarrow> bool" where
  "others_own su \<longleftrightarrow> (\<forall>n w. own_children w \<longrightarrow> own_children (su_others su n w))"

lemma make_room_loop_own:
  assumes "others_own su"
  shows "own_children w \<Longrightarrow> make_room_loop fuel su n deadline waiting b es e w = Done (r, w') \<Longrightarrow> own_children w'"
proof (induction fuel arbitrary: n w)
  case (Suc fuel)
  obtain p w1 where p: "make_room_pass b es e (su_device_free su n) w = (p, w1)" by fastforce
  note own = make_room_pass_own [OF Suc.prems(1) p]
  then have "own_children (su_others su n w1)" using assms by (simp add: others_own_def)
  then show ?case using Suc.IH [of "su_others su n w1" "Suc n"] Suc.prems(2) p own
    by (auto split: pass.splits if_splits)
qed simp

lemma make_room_own:
  "others_own su \<Longrightarrow> own_children w \<Longrightarrow> make_room fuel su waiting b es e w = Done (r, w') \<Longrightarrow> own_children w'"
  by (auto simp: make_room_def split: option.splits dest: make_room_loop_own)

section \<open>The launcher, as an interface\<close>

locale launcher_contract =
  fixes la :: launcher
  assumes started_as: "la_start la e = Inr c \<Longrightarrow> ch_id c = e_id e"
    and started_on_file: "la_start la e = Inr c \<Longrightarrow> la_model_file la e = Inr ()"
begin

text \<open>No child is started for an entry whose file is refused: looking first costs nothing that would have worked.\<close>

lemma refused_never_starts: "la_model_file la e = Inl f \<Longrightarrow> \<exists>why. la_start la e = Inl why"
  using started_on_file by (cases "la_start la e") fastforce+

lemma admit_child_own:
  assumes "others_own su" and "own_children w" and "admit_child fuel su la sl es e now w = Done (r, w')"
  shows "own_children w' \<and> (\<forall>c. r = Inr c \<longrightarrow> ch_id c = e_id e)"
proof -
  obtain lc w1 where lc: "live_child (e_id e) now w = (lc, w1)" by fastforce
  note own1 = live_child_own [OF assms(2) lc]
  show ?thesis
  proof (cases lc)
    case (Some c)
    then show ?thesis using assms(3) lc own1 by (auto simp: admit_child_def)
  next
    case None
    show ?thesis
    proof (cases "la_model_file la e")
      case (Inl f)
      then show ?thesis using assms(3) lc own1 None by (auto simp: admit_child_def)
    next
      case (Inr u)
      then obtain mr w2 where mr: "make_room fuel su (sl_wait sl) (sl_budget sl) es e w1 = Done (mr, w2)"
        using assms(3) lc None by (auto simp: admit_child_def split: run.splits)
      have own2: "own_children w2" using make_room_own [OF assms(1) _ mr] own1 by simp
      show ?thesis
      proof (cases mr)
        case (Inl f)
        then show ?thesis using assms(3) lc own2 None Inr mr by (auto simp: admit_child_def)
      next
        case room: (Inr u')
        show ?thesis
        proof (cases "la_start la e")
          case (Inl f)
          then show ?thesis using assms(3) lc own2 None Inr mr room by (auto simp: admit_child_def start_child_def)
        next
          case start: (Inr c)
          then show ?thesis using assms(3) lc own2 None Inr mr room started_as [OF start]
            by (auto simp: admit_child_def start_child_def insert_child_def Let_def split: option.splits
                intro!: own_children_put)
        qed
      qed
    qed
  qed
qed

lemma child_for_own:
  assumes "others_own su" and "own_children w" and "child_for fuel su la sl es e now w = Done (r, w')"
  shows "own_children w' \<and> (\<forall>c. r = Inr c \<longrightarrow> ch_id c = e_id e)"
proof -
  obtain lc w1 where lc: "live_child (e_id e) now w = (lc, w1)" by fastforce
  show ?thesis using live_child_own [OF assms(2) lc] assms(1,3) admit_child_own lc
    by (cases lc) (auto simp: child_for_def)
qed

lemma answer_own:
  assumes "an_launcher sv = la" and "others_own (an_surroundings sv)" and "\<And>w. own_children w \<Longrightarrow> own_children (an_meanwhile sv w)"
    and "own_children w" and "answer_to sv st sk w = Done a"
  shows "own_children (aw_world a) \<and>
    (\<forall>c r. aw_relayed a = Some (c, r) \<longrightarrow> (\<exists>ls rest h e. head_read st = Inr (ls, rest) \<and> head_parse ls = Inr h \<and>
      asks_for sv h rest e \<and> ch_id c = e_id e))"
proof -
  have lent: "own_children w1 \<and> (\<forall>c. x = Inr c \<longrightarrow> ch_id c = e_id e)"
    if "child_for (an_fuel sv) (an_surroundings sv) (an_launcher sv) (an_slots sv) (c_entries (an_catalog sv)) e (an_now sv) w
      = Done (x, w1)" for e x w1
    using child_for_own [OF assms(2,4)] that unfolding assms(1) by blast
  have "own_children (aw_world a)"
    using answer_to_model [OF assms(5)]
  proof (elim disjE exE conjE)
    fix h rest e buffered rest1 sk1
    assume asks: "asks_for sv h rest e" and model: "answer_model sv h (e_id e) buffered rest1 sk1 w = Done a"
    have "catalog_entry (an_catalog sv) (e_id e) = Some e" using asks by (simp add: asks_for_def)
    with model show ?thesis
    proof (cases rule: answer_model_cases)
      case (failed f w1)
      then show ?thesis using lent [of e "Inl f" w1] by (auto simp: turn_away_def split: prod.split)
    next
      case (hung c w1 sk2)
      then show ?thesis using lent [of e "Inr c" w1] by simp
    next
      case (relayed c w1 sk2 r)
      then show ?thesis using lent [of e "Inr c" w1] assms(3) by (auto intro: touch_own)
    qed
  qed (use assms(4) in auto)
  moreover have "\<exists>ls rest h e. head_read st = Inr (ls, rest) \<and> head_parse ls = Inr h \<and>
      asks_for sv h rest e \<and> ch_id c = e_id e" if "aw_relayed a = Some (c, r)" for c r
    by (rule relayed_run [OF assms(5) that]) (use lent in blast)
  ultimately show ?thesis by blast
qed

end

section \<open>The launcher of the program\<close>

lemma spawn_child_named:
  "spawn_child lo k sv e root = Inr c \<Longrightarrow> ch_id c = e_id e \<and> (\<exists>found. model_file (lo_disk lo) e root = Inr found)"
  by (cases "model_file (lo_disk lo) e root"; cases "lo_free_port lo k"; cases "binary_for (lo_env lo) (lo_disk lo) sv e")
    (auto simp: spawn_child_def split: sum.splits prod.splits)

lemma attempt_start_named:
  "attempt_start fuel lo k sv e root = Done (Inr c, stopped) \<Longrightarrow>
     ch_id c = e_id e \<and> (\<exists>found. model_file (lo_disk lo) e root = Inr found)"
  using attempt_start_outcome [of fuel lo k sv e root "Inr c" stopped] spawn_child_named by blast

lemma server_start_named:
  "server_start fuel lo sv e root = Done (Inr c, stopped) \<Longrightarrow>
     ch_id c = e_id e \<and> (\<exists>found. model_file (lo_disk lo) e root = Inr found)"
  by (auto simp: server_start_def split: run.splits sum.splits prod.splits if_splits dest: attempt_start_named)

interpretation launching: launcher_contract "shared_launcher os measuring sv root" for os measuring sv root
  by unfold_locales
    (auto simp: shared_launcher_def starts_def split: run.splits dest!: server_start_named)

text \<open>
  C11: A request is answered by the process started for the entry it names. As long as every child sits in the slot of its own
  entry, and other threads leave it that way, answering any connection does too, whatever it ends with; and a request
  that is relayed is relayed to a child that was started as the entry the request names.
\<close>

theorem right_child_answers:
  assumes "an_launcher sv = shared_launcher os measuring server root" and "others_own (an_surroundings sv)"
    and "\<And>w. own_children w \<Longrightarrow> own_children (an_meanwhile sv w)"
    and "own_children w" and "answer_to sv st sk w = Done a"
  shows "own_children (aw_world a) \<and>
    (\<forall>c r. aw_relayed a = Some (c, r) \<longrightarrow> (\<exists>ls rest h e. head_read st = Inr (ls, rest) \<and> head_parse ls = Inr h \<and>
      asks_for sv h rest e \<and> ch_id c = e_id e))"
  using assms by (rule launching.answer_own)

theorem right_child_answers_witness:
  "\<exists>a c r. answer_to (sample_serving\<lparr>an_launcher := shared_launcher (\<lambda>_. sample_machine) (\<lambda>_. unknown_measurement) sample_server ''/r''\<rparr>)
       sample_stream sample_caller sample_world = Done a \<and>
     aw_relayed a = Some (c, r) \<and> own_children (aw_world a) \<and> ch_id c = ''m''"
proof -
  let ?sv = "sample_serving\<lparr>an_launcher := shared_launcher (\<lambda>_. sample_machine) (\<lambda>_. unknown_measurement) sample_server ''/r''\<rparr>"
  have "case answer_to ?sv sample_stream sample_caller sample_world of
      Done a \<Rightarrow> aw_relayed a \<noteq> None | _ \<Rightarrow> False"
    by code_simp
  then obtain a c r where a: "answer_to ?sv sample_stream sample_caller sample_world = Done a" "aw_relayed a = Some (c, r)"
    by (auto split: run.splits)
  have own: "own_children sample_world" by (auto simp: own_children_def sample_world_def sample_held_def)
  have others: "others_own (an_surroundings ?sv)" by (simp add: others_own_def sample_serving_def)
  have la: "an_launcher ?sv = shared_launcher (\<lambda>_. sample_machine) (\<lambda>_. unknown_measurement) sample_server ''/r''" by simp
  have meanwhile: "an_meanwhile ?sv = (\<lambda>w. w)" by (simp add: sample_serving_def)
  obtain e where e: "own_children (aw_world a)" "catalog_entry (an_catalog ?sv) (e_id e) = Some e" "ch_id c = e_id e"
    using right_child_answers [OF la others _ own a(1)] a(2) meanwhile by (auto simp: asks_for_def)
  then have "e_id e = ''m''" by (auto simp: catalog_entry_def sample_serving_def sample_model_def split: if_splits)
  then show ?thesis using a e by auto
qed

end
