(* ===== verification/Lending.thy ===== *)
theory Lending
  imports Slots_Safety
begin

text \<open>
  What the slots promise, without a lock, a count or an admission: a lending desk. Processes lie in slots
  and are lent to readers; one that nobody has may be withdrawn, and one that is in no slot is gone with its last
  reader. The threads of \<open>Slots_Machine\<close>, which know only strong counts, are shown to be a
  refinement of it: every step of any of them is a step of the desk.
\<close>

section \<open>The desk\<close>

record desk =
  dk_slot :: "string \<Rightarrow> nat option"
  dk_lent :: "nat \<Rightarrow> nat" \<comment> \<open>how many have the process, beside its slot\<close>
  dk_gone :: "nat set"

definition shelved :: "desk \<Rightarrow> nat \<Rightarrow> bool" where
  "shelved d h \<longleftrightarrow> (\<exists>i. dk_slot d i = Some h)"

text \<open>\<open>closing\<close> is whether the router stops: only then is a process taken from its slot that somebody has.\<close>

inductive desk_step :: "bool \<Rightarrow> desk \<Rightarrow> desk \<Rightarrow> bool" for closing where
  rests: "desk_step closing d d"
| opens: "dk_lent d h = 0 \<Longrightarrow> h \<notin> dk_gone d \<Longrightarrow> \<not> shelved d h \<Longrightarrow>
    desk_step closing d (d\<lparr>dk_lent := (dk_lent d)(h := 1)\<rparr>)"
| shelves: "dk_slot d i = None \<Longrightarrow> 0 < dk_lent d h \<Longrightarrow> \<not> shelved d h \<Longrightarrow>
    desk_step closing d (d\<lparr>dk_slot := (dk_slot d)(i \<mapsto> h)\<rparr>)"
| lends: "dk_slot d i = Some h \<Longrightarrow> desk_step closing d (d\<lparr>dk_lent := (dk_lent d)(h := Suc (dk_lent d h))\<rparr>)"
| returns: "0 < dk_lent d h \<Longrightarrow> 1 < dk_lent d h \<or> shelved d h \<Longrightarrow>
    desk_step closing d (d\<lparr>dk_lent := (dk_lent d)(h := dk_lent d h - 1)\<rparr>)"
| lets_go: "dk_lent d h = 1 \<Longrightarrow> \<not> shelved d h \<Longrightarrow>
    desk_step closing d (d\<lparr>dk_lent := (dk_lent d)(h := 0), dk_gone := insert h (dk_gone d)\<rparr>)"
| withdraws: "dk_slot d i = Some h \<Longrightarrow> dk_lent d h = 0 \<Longrightarrow>
    desk_step closing d (d\<lparr>dk_slot := (dk_slot d)(i := None), dk_lent := (dk_lent d)(h := 1)\<rparr>)"
| finds_dead: "dk_slot d i = Some h \<Longrightarrow> dk_lent d h = 0 \<Longrightarrow>
    desk_step closing d (d\<lparr>dk_slot := (dk_slot d)(i := None), dk_gone := insert h (dk_gone d)\<rparr>)"
| closes: "closing \<Longrightarrow> dk_slot d i = Some h \<Longrightarrow>
    desk_step closing d (d\<lparr>dk_slot := (dk_slot d)(i := None), dk_lent := (dk_lent d)(h := Suc (dk_lent d h))\<rparr>)"

lemma desk_step_mono: "desk_step c d d' \<Longrightarrow> (c \<Longrightarrow> c') \<Longrightarrow> desk_step c' d d'"
  by (induction rule: desk_step.induct) (blast intro: desk_step.intros)+

text \<open>What can be said of the desk alone.\<close>

definition desk_ok :: "desk \<Rightarrow> bool" where
  "desk_ok d \<longleftrightarrow> (\<forall>h \<in> dk_gone d. dk_lent d h = 0 \<and> \<not> shelved d h) \<and>
     (\<forall>i j h. dk_slot d i = Some h \<and> dk_slot d j = Some h \<longrightarrow> i = j)"

lemma desk_step_ok: "desk_step c d d' \<Longrightarrow> desk_ok d \<Longrightarrow> desk_ok d'"
  by (induction rule: desk_step.induct) (auto simp: desk_ok_def shelved_def split: if_splits)

section \<open>The threads as a desk\<close>

definition desk_with :: "world \<Rightarrow> (nat \<Rightarrow> nat) \<Rightarrow> desk" where
  "desk_with w lent =
     \<lparr>dk_slot = (\<lambda>i. map_option handle_of (wd_slots w i)), dk_lent = lent, dk_gone = set (wd_ended w)\<rparr>"

definition desk_of :: "machine_state \<Rightarrow> desk" where
  "desk_of m = desk_with (ms_world m) (readers (ms_threads m))"

lemma desk_with_simps [simp]:
  "dk_slot (desk_with w lent) i = map_option handle_of (wd_slots w i)"
  "dk_lent (desk_with w lent) = lent" "dk_gone (desk_with w lent) = set (wd_ended w)"
  by (simp_all add: desk_with_def)

lemma shelved_with [simp]: "shelved (desk_with w lent) h \<longleftrightarrow> in_slot w h"
  by (auto simp: shelved_def in_slot_def)

lemma desk_eqI:
  "(\<And>i. map_option handle_of (wd_slots w i) = dk_slot d i) \<Longrightarrow> (\<And>h. lent h = dk_lent d h) \<Longrightarrow>
     set (wd_ended w) = dk_gone d \<Longrightarrow> desk_with w lent = (d :: desk)"
  by (simp add: desk_with_def fun_eq_iff)

text \<open>Each operation of a slot, as the desk sees it.\<close>

lemma taken_desk:
  assumes "refs_ok ids ext w" and "wd_slots w i = Some held" and "wd_strong w (handle_of held) \<le> 1"
  shows "desk_step c (desk_with w ext) (desk_with (put_slot i None w) (\<lambda>h. ext h + (if h = handle_of held then 1 else 0)))"
proof -
  have "in_slot w (handle_of held)" using assms(2) by (auto simp: in_slot_def)
  then have none: "ext (handle_of held) = 0" using refs_okD(3) [OF assms(1), of "handle_of held"] assms(3) by simp
  have "desk_step c (desk_with w ext) ((desk_with w ext)\<lparr>dk_slot := (dk_slot (desk_with w ext))(i := None),
      dk_lent := (dk_lent (desk_with w ext))(handle_of held := 1)\<rparr>)"
    using assms(2) none by (intro withdraws) auto
  then show ?thesis by (rule back_subst) (rule sym, rule desk_eqI, auto simp: none)
qed

lemma lent_desk:
  assumes "refs_ok ids ext w" and "live_child i now w = (Some x, w')"
  shows "desk_step c (desk_with w ext) (desk_with w' (\<lambda>h. ext h + (if h = ch_handle x then 1 else 0)))"
proof -
  obtain held where held: "wd_slots w i = Some held" "sc_child held = x"
      "w' = clone_child x (put_slot i (Some (held\<lparr>sc_last_used := now\<rparr>)) w)"
    using assms(2) by (auto simp: live_child_def split: option.splits if_splits)
  have "desk_step c (desk_with w ext)
      ((desk_with w ext)\<lparr>dk_lent := (dk_lent (desk_with w ext))(ch_handle x := Suc (dk_lent (desk_with w ext) (ch_handle x)))\<rparr>)"
    using held(1,2) by (intro lends [of _ i]) auto
  then show ?thesis by (rule back_subst) (rule sym, rule desk_eqI, auto simp: held)
qed

lemma missed_desk:
  assumes "refs_ok ids ext w" and "live_child i now w = (None, w')"
  shows "desk_step c (desk_with w ext) (desk_with w' ext)"
proof (cases "wd_slots w i")
  case None
  then show ?thesis using assms(2) by (auto simp: live_child_def intro: rests)
next
  case (Some held)
  then have dead: "exited w held \<noteq> None" "w' = drop_child (sc_child held) (put_slot i None w)"
    using assms(2) by (auto simp: live_child_def split: if_splits)
  then have strong: "wd_strong w (handle_of held) = 1" by (auto simp: exited_def split: if_splits)
  moreover have "in_slot w (handle_of held)" using Some by (auto simp: in_slot_def)
  ultimately have none: "ext (handle_of held) = 0" using refs_okD(3) [OF assms(1), of "handle_of held"] by simp
  have "desk_step c (desk_with w ext) ((desk_with w ext)\<lparr>dk_slot := (dk_slot (desk_with w ext))(i := None),
      dk_gone := insert (handle_of held) (dk_gone (desk_with w ext))\<rparr>)"
    using Some none by (intro finds_dead) auto
  then show ?thesis by (rule back_subst) (rule sym, rule desk_eqI, auto simp: dead(2) strong)
qed

lemma dropped_desk:
  assumes "refs_ok ids (\<lambda>h. rest h + (if h = ch_handle x then 1 else 0)) w"
  shows "desk_step c (desk_with w (\<lambda>h. rest h + (if h = ch_handle x then 1 else 0))) (desk_with (drop_child x w) rest)"
proof -
  let ?d = "desk_with w (\<lambda>h. rest h + (if h = ch_handle x then 1 else 0))" and ?h = "ch_handle x"
  have strong: "wd_strong w ?h = rest ?h + 1 + (if in_slot w ?h then 1 else 0)"
    using refs_okD(3) [OF assms, of ?h] by simp
  show ?thesis
  proof (cases "rest ?h = 0 \<and> \<not> in_slot w ?h")
    case True
    have "desk_step c ?d (?d\<lparr>dk_lent := (dk_lent ?d)(?h := 0), dk_gone := insert ?h (dk_gone ?d)\<rparr>)"
      using True by (intro lets_go) auto
    then show ?thesis by (rule back_subst) (rule sym, rule desk_eqI, use True strong in auto)
  next
    case False
    have "desk_step c ?d (?d\<lparr>dk_lent := (dk_lent ?d)(?h := dk_lent ?d ?h - 1)\<rparr>)"
      using False by (intro returns) auto
    then show ?thesis by (rule back_subst) (rule sym, rule desk_eqI, use False strong in auto)
  qed
qed

lemma inserted_desk:
  assumes "refs_ok ids (\<lambda>h. rest h + (if h = handle_of held then 1 else 0)) w"
    and "wd_slots w i = None" and "\<forall>j x. wd_slots w j = Some x \<longrightarrow> handle_of x \<noteq> handle_of held"
    and "insert_child i held w = (x, w')"
  shows "desk_step c (desk_with w (\<lambda>h. rest h + (if h = handle_of held then 1 else 0)))
    (desk_with w' (\<lambda>h. rest h + (if h = ch_handle x then 1 else 0)))"
proof -
  let ?d = "desk_with w (\<lambda>h. rest h + (if h = handle_of held then 1 else 0))" and ?h = "handle_of held"
  have out: "x = sc_child held" "w' = put_slot i (Some held) (clone_child (sc_child held) w)"
    using assms(2,4) by (auto simp: insert_child_def Let_def)
  have "desk_step c ?d (?d\<lparr>dk_slot := (dk_slot ?d)(i \<mapsto> ?h)\<rparr>)"
    using assms(2,3) by (intro shelves) (auto simp: in_slot_def)
  then show ?thesis by (rule back_subst) (rule sym, rule desk_eqI, auto simp: out)
qed

lemma started_desk:
  assumes "refs_ok ids rest w" and "start_child server measuring now e w = (Inr held, w')" and "fresh_handle (handle_of held) w"
  shows "desk_step c (desk_with w rest) (desk_with w' (\<lambda>h. rest h + (if h = handle_of held then 1 else 0)))"
proof -
  let ?d = "desk_with w rest" and ?h = "handle_of held"
  have none: "rest ?h = 0" "\<not> in_slot w ?h"
    using refs_okD(3) [OF assms(1), of ?h] assms(3) by (auto simp: fresh_handle_def split: if_splits)
  have same: "wd_slots w' = wd_slots w" "wd_ended w' = wd_ended w"
    using assms(2) by (auto simp: start_child_def split: sum.splits)
  have "desk_step c ?d (?d\<lparr>dk_lent := (dk_lent ?d)(?h := 1)\<rparr>)"
    using assms(3) none by (intro opens) (auto simp: fresh_handle_def)
  then show ?thesis by (rule back_subst) (rule sym, rule desk_eqI, auto simp: none same)
qed

lemma cleared_desk:
  assumes "wd_slots w i = Some held"
  shows "desk_step True (desk_with w ext) (desk_with (put_slot i None w) (\<lambda>h. ext h + (if h = handle_of held then 1 else 0)))"
proof -
  let ?d = "desk_with w ext" and ?h = "handle_of held"
  have "desk_step True ?d (?d\<lparr>dk_slot := (dk_slot ?d)(i := None), dk_lent := (dk_lent ?d)(?h := Suc (dk_lent ?d ?h))\<rparr>)"
    using assms by (intro closes) auto
  then show ?thesis by (rule back_subst) (rule sym, rule desk_eqI, auto)
qed

lemma same_desk:
  assumes "\<And>i. map_option handle_of (wd_slots w' i) = map_option handle_of (wd_slots w i)" and "\<And>h. lent' h = lent h"
    and "wd_ended w' = wd_ended w"
  shows "desk_step c (desk_with w lent) (desk_with w' lent')"
proof -
  have "desk_with w' lent' = desk_with w lent" by (rule desk_eqI) (simp_all add: assms)
  then show ?thesis by (simp add: rests)
qed

lemma touch_desk: "map_option handle_of (wd_slots (touch i now w) k) = map_option handle_of (wd_slots w k)"
  "wd_ended (touch i now w) = wd_ended w"
  by (auto simp: touch_def split: option.split)

section \<open>Every step is a step of the desk\<close>

lemma moves_desk:
  assumes "moves b es window a w a' w'" and "refs_ok ids (\<lambda>h. rest h + holds a h) w"
    and "ready_to_insert (wd_slots w) a"
  shows "desk_step (is_Clearing a') (desk_with w (\<lambda>h. rest h + holds a h)) (desk_with w' (\<lambda>h. rest h + holds a' h))"
  using assms
proof (induction rule: moves.induct)
  case (fast_hit e now w c w')
  then show ?case using lent_desk [of ids rest] by simp
next
  case (slow_hit e now w c w')
  then show ?case using lent_desk [of ids rest] by simp
next
  case (fast_miss e now w w')
  then show ?case using missed_desk [of ids rest] by simp
next
  case (slow_miss e now w w')
  then show ?case using missed_desk [of ids rest] by simp
next
  case (take i w held w' e ids')
  note t = take_if_idle_Taken [OF take(1)]
  then show ?case using taken_desk [of ids rest w i held] take(2) by simp
next
  case (take_empty i w w' e ids')
  then show ?case using take_if_idle_empty by (fastforce intro: rests)
next
  case (take_busy i w w' e ids')
  then show ?case using take_if_idle_busy by (fastforce intro: rests)
next
  case (start server measuring now e w held w')
  then show ?case using started_desk [of ids rest w] by simp
next
  case (not_started server measuring now e w failure w')
  then show ?case by (auto simp: start_child_def intro: rests split: sum.splits)
next
  case (insert e held w c w')
  then show ?case using inserted_desk [of ids rest held w "e_id e" c w'] by simp
next
  case (served e c w now)
  then show ?case by (intro same_desk) (simp_all add: touch_desk)
next
  case (drop c a w)
  have "refs_ok ids (\<lambda>h. rest h + holds a h + (if h = ch_handle c then 1 else 0)) w"
    by (rule refs_cong [OF drop(1)]) simp
  from dropped_desk [OF this] show ?case by (simp add: add_ac)
next
  case (reap i w held status w' ids')
  note t = reaping.took [OF reap(1)]
  then show ?case using taken_desk [of ids rest w i held] reap(2) by simp
next
  case (reap_none i w w' ids')
  then show ?case using reaping.left by (fastforce intro: rests)
next
  case (expire now d i w held u w' ids')
  note t = expiring.took [OF expire(1)]
  then show ?case using taken_desk [of ids rest w i held] expire(2) by simp
next
  case (expire_none now d i w w' ids')
  then show ?case using expiring.left by (fastforce intro: rests)
next
  case (clear_one w i held ids' taken)
  have "desk_with (put_slot i None w) (\<lambda>h. rest h + holds (Clearing ids' (taken @ [held])) h) =
      desk_with (put_slot i None w) (\<lambda>h. rest h + holds (Clearing (i # ids') taken) h + (if h = handle_of held then 1 else 0))"
    by (rule desk_eqI) auto
  then show ?case using cleared_desk [OF clear_one(1), of "\<lambda>h. rest h + holds (Clearing (i # ids') taken) h"] by simp
next
  case (clear_drop held taken w)
  then show ?case by (intro same_desk) auto
qed (auto intro: rests same_desk)

text \<open>
  C3: The slots are a lending desk. Whatever the threads of the router do, and however they are interleaved, each step of
  one of them is a step of the desk or none at all: a process is lent only from a slot, is withdrawn or replaced only while
  nobody has it unless the router stops, is put in a slot once, and is gone exactly when
  the last to have it lets go of it outside a slot, or it is found dead there.
\<close>

theorem slots_refine_desk:
  assumes "reachable b es window n m" and "distinct (map e_id es)" and "length es < 2 ^ 30"
    and "step b es window m m'"
  shows "desk_step (ms_stopping m') (desk_of m) (desk_of m') \<and> desk_ok (desk_of m')"
proof
  have safe: "counted es m" "relied_on b es m"
    using reachable_safe [OF assms(1-3)] by (simp_all add: safe_def machine_ok_def)
  from assms(4) show "desk_step (ms_stopping m') (desk_of m) (desk_of m')"
  proof (cases rule: step.cases)
    case (thread k a w)
    let ?rest = "readers (take k (ms_threads m) @ drop (Suc k) (ms_threads m))"
    have refs: "refs_ok (e_id ` set es) (\<lambda>h. ?rest h + holds (ms_threads m ! k) h) (ms_world m)"
      using safe(1) unfolding counted_def readers_at [OF thread(2)] by simp
    have "ready_to_insert (wd_slots (ms_world m)) (ms_threads m ! k)"
      using safe(2) thread(2) sound_ready unfolding relied_on_def by (meson nth_mem)
    note moved = moves_desk [OF thread(3) refs this]
    have "readers (ms_threads m) = (\<lambda>h. ?rest h + holds (ms_threads m ! k) h)"
      "readers ((ms_threads m)[k := a]) = (\<lambda>h. ?rest h + holds a h)"
      by (simp_all add: fun_eq_iff readers_at [OF thread(2)] readers_split [OF thread(2)])
    with moved have "desk_step (is_Clearing a) (desk_of m) (desk_of m')" by (simp add: desk_of_def thread(1))
    then show ?thesis by (rule desk_step_mono) (simp add: thread(1))
  next
    case (exits h status)
    then show ?thesis by (simp add: desk_of_def desk_with_def rests)
  qed
  have "reachable b es window n m'" using assms(1,4) by (rule reachable.goes_on)
  then have "refs_ok (e_id ` set es) (readers (ms_threads m')) (ms_world m')"
    using reachable_safe [OF _ assms(2,3)] by (simp add: safe_def machine_ok_def counted_def)
  then show "desk_ok (desk_of m')"
    using refs_ended refs_okD(2) by (auto simp: desk_ok_def desk_of_def)
qed

theorem slots_refine_desk_witness:
  "\<exists>d. desk_step False (desk_of (lone (Starting sample_entry) (Some 0) empty_world [])) d \<and> desk_ok d \<and> dk_lent d 7 = 1"
proof -
  let ?m = "lone (Starting sample_entry) (Some 0) empty_world []"
  let ?m' = "lone (Inserting sample_entry sample_held) (Some 0) started_world [7]"
  have "step sample_budget [sample_entry] sample_window ?m ?m'"
    using thread [of 0 ?m, OF _ _ ] start [OF sample_start, of sample_budget "[sample_entry]" sample_window]
    by (fastforce simp: lone_def lock_after_def sample_held_def sample_child_def)
  from slots_refine_desk [OF reaches_starting sample_entries(1,2) this] show ?thesis
    by (intro exI [of _ "desk_of ?m'"]) (simp add: lone_def desk_of_def readers_def sample_held_def sample_child_def)
qed

end
