(* ===== verification/Slots_Runs.thy ===== *)
theory Slots_Runs
  imports Slots_Safety Reaper Answer_Laws
begin

text \<open>
  The functions of \<open>Slots\<close>, \<open>Reaper\<close> and \<open>Answer\<close> and the threads of \<open>Slots_Machine\<close> are two
  accounts of the same code (\<open>src/src/proxy/slots/*.rs\<close>, \<open>proxy/reaper.rs\<close>, \<open>proxy/residents.rs\<close>,
  \<open>proxy/answer.rs\<close>): the functions say what one thread computes, the steps say where the locks let
  another thread in. Here every run of a function is a run of the thread's program, so what holds of every
  interleaving holds of what the functions give.
\<close>

section \<open>Runs of one thread\<close>

text \<open>Between two of its own steps a thread may find that others did something to the world.\<close>

inductive thread_run ::
    "budget \<Rightarrow> entry list \<Rightarrow> idle_window \<Rightarrow> (world \<Rightarrow> world \<Rightarrow> bool) \<Rightarrow> activity \<Rightarrow> world \<Rightarrow> activity \<Rightarrow> world \<Rightarrow> bool"
  for b es window between where
  here: "thread_run b es window between a w a w"
| moved: "thread_run b es window between a w a1 w1 \<Longrightarrow> moves b es window a1 w1 a2 w2 \<Longrightarrow>
     thread_run b es window between a w a2 w2"
| others: "thread_run b es window between a w a1 w1 \<Longrightarrow> between w1 w2 \<Longrightarrow> thread_run b es window between a w a1 w2"

lemma run_trans [trans]:
  "thread_run b es window between a w a1 w1 \<Longrightarrow> thread_run b es window between a1 w1 a2 w2 \<Longrightarrow>
     thread_run b es window between a w a2 w2"
  by (rotate_tac 1, induction rule: thread_run.induct) (auto intro: moved others)

lemma run_move: "moves b es window a w a' w' \<Longrightarrow> thread_run b es window between a w a' w'"
  by (rule moved [OF here])

lemma run_then:
  "moves b es window a w a1 w1 \<Longrightarrow> thread_run b es window between a1 w1 a2 w2 \<Longrightarrow>
     thread_run b es window between a w a2 w2"
  by (rule run_trans [OF run_move])

lemma run_meanwhile: "between w w' \<Longrightarrow> thread_run b es window between a w a w'"
  by (rule others [OF here])

section \<open>Handles nobody has\<close>

definition unused :: "nat \<Rightarrow> world \<Rightarrow> bool" where
  "unused h w \<longleftrightarrow> fresh_handle h w \<and> \<not> in_slot w h"

lemma unused_fresh: "unused h w \<Longrightarrow> fresh_handle h w"
  by (simp add: unused_def)

lemma unused_slot: "unused h w \<Longrightarrow> wd_slots w i = Some held \<Longrightarrow> handle_of held \<noteq> h"
  by (auto simp: unused_def in_slot_def)

lemma unused_emptied: "unused h w \<Longrightarrow> unused h (put_slot i None w)"
  by (auto simp: unused_def in_slot_def fresh_handle_def put_slot_def)

lemma unused_dropped: "unused h w \<Longrightarrow> ch_handle c \<noteq> h \<Longrightarrow> unused h (drop_child c w)"
  by (auto simp: unused_def in_slot_def fresh_handle_def drop_child_def Let_def)

lemma unused_cloned: "unused h w \<Longrightarrow> ch_handle c \<noteq> h \<Longrightarrow> unused h (clone_child c w)"
  by (auto simp: unused_def in_slot_def fresh_handle_def clone_child_def)

lemma unused_filled: "unused h w \<Longrightarrow> handle_of held \<noteq> h \<Longrightarrow> unused h (put_slot i (Some held) w)"
  by (auto simp: unused_def in_slot_def fresh_handle_def put_slot_def)

lemmas unused_kept = unused_emptied unused_dropped unused_cloned unused_filled

lemma live_child_unused:
  assumes "live_child i now w = (r, w')" and "unused h w"
  shows "unused h w'"
proof (cases "wd_slots w i")
  case None
  then show ?thesis using assms by (simp add: live_child_def)
next
  case (Some held)
  from unused_slot [OF assms(2) this] show ?thesis
    using assms Some by (auto simp: live_child_def intro!: unused_kept split: if_splits)
qed

lemma take_if_idle_unused:
  assumes "take_if_idle i also w = (r, w')" and "unused h w"
  shows "unused h w'"
  using assms by (auto simp: take_if_idle_def intro!: unused_kept split: option.splits if_splits)

lemma taken_unused:
  assumes "take_if_idle i also w = (Taken held, w')" and "unused h w"
  shows "unused h (drop_child (sc_child held) w')"
  using take_if_idle_Taken [OF assms(1)] unused_slot [OF assms(2)] take_if_idle_unused [OF assms]
  by (auto intro!: unused_kept)

section \<open>Making room\<close>

lemma unload_run:
  assumes "unload ids w = (r, w')"
  shows "thread_run b es window between (Unloading e ids) w (case r of Inr _ \<Rightarrow> Starting e | Inl _ \<Rightarrow> Pausing e) w'"
  using assms
proof (induction ids w rule: unload.induct)
  case (1 w)
  then show ?case by (auto intro: run_move [OF unloaded])
next
  case (2 i ids w)
  obtain t w1 where t: "take_if_idle i (\<lambda>_. True) w = (t, w1)" by fastforce
  show ?case
  proof (cases t)
    case (Taken held)
    note one = take [OF t [unfolded Taken], of b es window e ids]
    have "unload ids (drop_child (sc_child held) w1) = (r, w')" using 2(3) t Taken by simp
    from 2(1) [OF t [symmetric] Taken this] show ?thesis by (rule run_then [OF one run_then [OF drop]])
  next
    case Take_busy
    then show ?thesis using 2(3) t by (auto intro!: run_move take_busy)
  next
    case Take_empty
    have "unload ids w1 = (r, w')" using 2(3) t Take_empty by simp
    from 2(2) [OF t [symmetric] Take_empty this] show ?thesis
      by (rule run_then [OF take_empty [OF t [unfolded Take_empty]]])
  qed
qed

lemma unload_unused: "unload ids w = (r, w') \<Longrightarrow> unused h w \<Longrightarrow> unused h w'"
proof (induction ids w rule: unload.induct)
  case (2 i ids w)
  obtain t w1 where t: "take_if_idle i (\<lambda>_. True) w = (t, w1)" by fastforce
  show ?case using 2 t taken_unused [of i _ w _ w1 h] take_if_idle_unused [OF t 2(4)] by (cases t) auto
qed auto

lemma read_run:
  "thread_run b es window between (Reading e read_so_far todo acc) w
     (Reading e (read_so_far @ todo) [] (acc @ concat (map (\<lambda>x. read_slot x w) todo))) w"
proof (induction todo arbitrary: read_so_far acc)
  case Nil
  then show ?case by (simp add: here)
next
  case (Cons x todo)
  from Cons [of "read_so_far @ [x]" "acc @ read_slot x w"] show ?case
    using run_then [OF read] by fastforce
qed

lemma held_read: "held_now es w = concat (map (\<lambda>x. read_slot x w) es)"
  unfolding held_now_def snapshot_def
  by (induction es) (auto simp: read_slot_def List.map_filter_simps split: option.split)

lemma whole_read: "thread_run b es window between (Reading e [] es []) w (Reading e es [] (held_now es w)) w"
  using read_run [of b es window between e "[]" es "[]" w] by (simp add: held_read)

lemma pass_run:
  assumes "make_room_pass b es e free w = (r, w')" and "figure_ok free"
  shows "thread_run b es window between (Reading e [] es []) w
    (case r of Room_made \<Rightarrow> Starting e | Still_held _ \<Rightarrow> Pausing e | Turned_away _ \<Rightarrow> Resting) w'"
proof (rule run_trans [OF whole_read])
  show "thread_run b es window between (Reading e es [] (held_now es w)) w
    (case r of Room_made \<Rightarrow> Starting e | Still_held _ \<Rightarrow> Pausing e | Turned_away _ \<Rightarrow> Resting) w'"
  proof (cases "admit b (held_now es w) (wanted_of e) free")
    case Fits
    then show ?thesis using assms by (auto simp: make_room_pass_def intro: run_move fits)
  next
    case (Unload ids)
    obtain u w1 where u: "unload ids w = (u, w1)" by fastforce
    have "thread_run b es window between (Reading e es [] (held_now es w)) w
        (case u of Inr _ \<Rightarrow> Starting e | Inl _ \<Rightarrow> Pausing e) w1"
      by (rule run_then [OF chosen [OF assms(2) Unload] unload_run [OF u]])
    then show ?thesis using assms(1) Unload u by (auto simp: make_room_pass_def split: sum.splits)
  next
    case (Blocked m)
    from run_move [OF moves.blocked [OF this]] show ?thesis using assms(1) Blocked by (auto simp: make_room_pass_def)
  next
    case (Refuse m)
    from run_move [OF moves.refused [OF this]] show ?thesis using assms(1) Refuse by (auto simp: make_room_pass_def)
  qed
qed

lemma pass_unused: "make_room_pass b es e free w = (r, w') \<Longrightarrow> unused h w \<Longrightarrow> unused h w'"
  by (auto simp: make_room_pass_def dest: unload_unused split: decision.splits prod.splits sum.splits)

text \<open>What is asked of the surroundings: honest figures, and others that leave a handle alone that is not theirs.\<close>

definition calm_around :: "(world \<Rightarrow> world \<Rightarrow> bool) \<Rightarrow> surroundings \<Rightarrow> bool" where
  "calm_around between su \<longleftrightarrow>
     (\<forall>n. figure_ok (su_device_free su n)) \<and> (\<forall>n w. between w (su_others su n w)) \<and>
     (\<forall>w w' h. between w w' \<longrightarrow> unused h w \<longrightarrow> unused h w')"

lemma calm_figure: "calm_around between su \<Longrightarrow> figure_ok (su_device_free su n)"
  by (simp add: calm_around_def)

lemma calm_others: "calm_around between su \<Longrightarrow> between w (su_others su n w)"
  by (simp add: calm_around_def)

lemma calm_unused: "calm_around between su \<Longrightarrow> between w w' \<Longrightarrow> unused h w \<Longrightarrow> unused h w'"
  by (auto simp: calm_around_def)

lemma loop_run:
  assumes "make_room_loop fuel su n deadline waiting b es e w = Done (r, w')" and "calm_around between su"
  shows "thread_run b es window between (Reading e [] es []) w (case r of Inr _ \<Rightarrow> Starting e | Inl _ \<Rightarrow> Resting) w' \<and>
    (\<forall>h. unused h w \<longrightarrow> unused h w')"
  using assms(1)
proof (induction fuel arbitrary: n w)
  case 0
  then show ?case by simp
next
  case (Suc fuel)
  obtain p w1 where p: "make_room_pass b es e (su_device_free su n) w = (p, w1)" by fastforce
  note run = pass_run [OF p calm_figure [OF assms(2)], of window between] and kept = pass_unused [OF p]
  show ?case
  proof (cases "\<exists>held. p = Still_held held \<and> \<not> deadline \<le> su_clock su (Suc n)")
    case True
    let ?w = "su_others su n w1"
    have go: "make_room_loop fuel su (Suc n) deadline waiting b es e ?w = Done (r, w')" using Suc.prems p True by auto
    have away: "between w1 ?w" by (rule calm_others [OF assms(2)])
    from run True have "thread_run b es window between (Reading e [] es []) w (Pausing e) w1" by auto
    from run_trans [OF others [OF this away] run_then [OF again]] Suc.IH [OF go] kept calm_unused [OF assms(2) away]
    show ?thesis by blast
  next
    case False
    show ?thesis
    proof (cases p)
      case (Still_held held)
      from moved [OF run [unfolded Still_held, simplified] give_up] show ?thesis
        using Suc.prems p kept False Still_held by auto
    qed (use Suc.prems p run kept in auto)
  qed
qed

section \<open>The child of an entry\<close>

lemma started_unused:
  assumes "start_child server measuring now e w = (Inr held, w')" and "unused h w" and "handle_of held \<noteq> h"
  shows "unused h w'"
proof -
  obtain p where "w' = w\<lparr>wd_strong := (wd_strong w)(handle_of held := 1), wd_process := p\<rparr>"
    using assms(1) by (auto simp: start_child_def split: sum.splits)
  then show ?thesis using assms(2,3) by (simp add: unused_def fresh_handle_def in_slot_def)
qed

lemma inserted_unused:
  assumes "insert_child i held w = (c, w')" and "unused h w" and "handle_of held \<noteq> h"
  shows "unused h w'"
proof (cases "wd_slots w i")
  case None
  then show ?thesis using assms by (auto simp: insert_child_def Let_def intro!: unused_kept split: option.splits)
next
  case (Some old)
  from unused_slot [OF assms(2) this] show ?thesis
    using assms Some by (auto simp: insert_child_def Let_def intro!: unused_kept split: option.splits)
qed

text \<open>The launcher gives every start a process of its own, and it is measured honestly.\<close>

definition launches_fresh :: "launcher \<Rightarrow> entry \<Rightarrow> world \<Rightarrow> bool" where
  "launches_fresh la e w \<longleftrightarrow>
     (\<forall>c. la_start la e = Inr c \<longrightarrow> unused (ch_handle c) w \<and> measurement_ok (la_measure la (ch_pid c)))"

lemma launches_fresh_kept:
  "launches_fresh la e w \<Longrightarrow> (\<And>h. unused h w \<Longrightarrow> unused h w') \<Longrightarrow> launches_fresh la e w'"
  by (auto simp: launches_fresh_def)

lemma room_run:
  assumes "make_room fuel su waiting b es e w = Done (r, w')" and "calm_around between su"
  shows "thread_run b es window between (Reading e [] es []) w (case r of Inr _ \<Rightarrow> Starting e | Inl _ \<Rightarrow> Resting) w'"
    and "unused h w \<Longrightarrow> unused h w'"
proof -
  obtain deadline where "make_room_loop fuel su 0 deadline (wait_duration waiting) b es e w = Done (r, w')"
    using assms(1) by (auto simp: make_room_def split: option.splits)
  from loop_run [OF this assms(2)]
  show "thread_run b es window between (Reading e [] es []) w (case r of Inr _ \<Rightarrow> Starting e | Inl _ \<Rightarrow> Resting) w'"
    "unused h w \<Longrightarrow> unused h w'" by blast+
qed

lemma started_run:
  assumes "start_child (la_start la) (la_measure la) now e w = (Inr held, w1)" and "insert_child (e_id e) held w1 = (c, w')"
    and "launches_fresh la e w"
  shows "thread_run b es window between (Starting e) w (Serving e c) w'"
    and "unused h w \<Longrightarrow> \<forall>c. la_start la e = Inr c \<longrightarrow> ch_handle c \<noteq> h \<Longrightarrow> unused h w'"
proof -
  have held: "la_start la e = Inr (sc_child held)" "measurement_ok (sc_measured held)" "unused (handle_of held) w"
    using assms(1,3) by (auto simp: start_child_def launches_fresh_def split: sum.splits)
  show "thread_run b es window between (Starting e) w (Serving e c) w'"
    by (rule run_then [OF moves.start [OF assms(1) unused_fresh [OF held(3)] held(2)] run_move [OF moves.insert [OF assms(2)]]])
  show "unused h w'" if "unused h w" "\<forall>c. la_start la e = Inr c \<longrightarrow> ch_handle c \<noteq> h"
    using inserted_unused [OF assms(2) started_unused [OF assms(1)]] that held(1) by simp
qed

text \<open>The ways through \<open>Slots::admit\<close>, each with what was done on it.\<close>

lemma admit_child_cases:
  assumes "admit_child fuel su la sl es e now w = Done (r, w')"
  obtains (hit) c where "live_child (e_id e) now w = (Some c, w')" "r = Inr c"
    | (lost) f where "live_child (e_id e) now w = (None, w')" "r = Inl f"
    | (denied) f w1 where "live_child (e_id e) now w = (None, w1)"
        "make_room fuel su (sl_wait sl) (sl_budget sl) es e w1 = Done (Inl f, w')" "r = Inl f"
    | (failed) f w1 where "live_child (e_id e) now w = (None, w1)"
        "make_room fuel su (sl_wait sl) (sl_budget sl) es e w1 = Done (Inr (), w')"
        "start_child (la_start la) (la_measure la) now e w' = (Inl f, w')" "r = Inl f"
    | (filled) c w1 w2 held w3 where "live_child (e_id e) now w = (None, w1)"
        "make_room fuel su (sl_wait sl) (sl_budget sl) es e w1 = Done (Inr (), w2)"
        "start_child (la_start la) (la_measure la) now e w2 = (Inr held, w3)"
        "insert_child (e_id e) held w3 = (c, w')" "r = Inr c"
  using assms
  by (auto simp: admit_child_def start_child_def split: prod.splits option.splits sum.splits run.splits)

lemma admit_run:
  assumes "admit_child fuel su la sl es e now w = Done (r, w')" and "calm_around between su" and "launches_fresh la e w"
  shows "thread_run (sl_budget sl) es window between (Rechecking e) w (case r of Inr c \<Rightarrow> Serving e c | Inl _ \<Rightarrow> Resting) w'"
    and "unused h w \<Longrightarrow> \<forall>c. la_start la e = Inr c \<longrightarrow> ch_handle c \<noteq> h \<Longrightarrow> unused h w'"
proof -
  note missed = run_then [OF slow_miss run_then [OF located]]
  have "thread_run (sl_budget sl) es window between (Rechecking e) w (case r of Inr c \<Rightarrow> Serving e c | Inl _ \<Rightarrow> Resting) w' \<and>
    (unused h w \<longrightarrow> (\<forall>c. la_start la e = Inr c \<longrightarrow> ch_handle c \<noteq> h) \<longrightarrow> unused h w')"
    using assms(1)
  proof (cases rule: admit_child_cases)
    case (hit c)
    then show ?thesis using live_child_unused by (auto intro: run_move slow_hit)
  next
    case (lost f)
    from run_then [OF slow_miss [OF lost(1)] run_move [OF no_file]] show ?thesis
      using lost live_child_unused by auto
  next
    case (denied f w1)
    from missed [OF denied(1) room_run(1) [OF denied(2) assms(2)]] show ?thesis
      using denied(3) live_child_unused [OF denied(1)] room_run(2) [OF denied(2) assms(2)] by auto
  next
    case (failed f w1)
    from missed [OF failed(1) room_run(1) [OF failed(2) assms(2)]]
    have "thread_run (sl_budget sl) es window between (Rechecking e) w (Starting e) w'" by simp
    from moved [OF this not_started [OF failed(3)]] show ?thesis
      using failed(4) live_child_unused [OF failed(1)] room_run(2) [OF failed(2) assms(2)] by auto
  next
    case (filled c w1 w2 held w3)
    note kept = room_run(2) [OF filled(2) assms(2) live_child_unused [OF filled(1)]]
    note started = started_run [OF filled(3,4) launches_fresh_kept [OF assms(3) kept]]
    from missed [OF filled(1) room_run(1) [OF filled(2) assms(2)]]
    have "thread_run (sl_budget sl) es window between (Rechecking e) w (Starting e) w2" by simp
    from run_trans [OF this started(1)] show ?thesis using filled(5) kept started(2) by auto
  qed
  then show "thread_run (sl_budget sl) es window between (Rechecking e) w (case r of Inr c \<Rightarrow> Serving e c | Inl _ \<Rightarrow> Resting) w'"
    "unused h w \<Longrightarrow> \<forall>c. la_start la e = Inr c \<longrightarrow> ch_handle c \<noteq> h \<Longrightarrow> unused h w'" by blast+
qed

lemma child_for_run:
  assumes "child_for fuel su la sl es e now w = Done (r, w')" and "calm_around between su" and "launches_fresh la e w"
  shows "thread_run (sl_budget sl) es window between (Asking e) w (case r of Inr c \<Rightarrow> Serving e c | Inl _ \<Rightarrow> Resting) w'"
    and "unused h w \<Longrightarrow> \<forall>c. la_start la e = Inr c \<longrightarrow> ch_handle c \<noteq> h \<Longrightarrow> unused h w'"
proof -
  obtain l w1 where l: "live_child (e_id e) now w = (l, w1)" by fastforce
  have "thread_run (sl_budget sl) es window between (Asking e) w (case r of Inr c \<Rightarrow> Serving e c | Inl _ \<Rightarrow> Resting) w' \<and>
    (unused h w \<longrightarrow> (\<forall>c. la_start la e = Inr c \<longrightarrow> ch_handle c \<noteq> h) \<longrightarrow> unused h w')"
  proof (cases l)
    case (Some c)
    from run_move [OF fast_hit [OF l [unfolded Some]]] show ?thesis
      using Some assms(1) l live_child_unused [OF l] by (auto simp: child_for_def)
  next
    case None
    then have rest: "admit_child fuel su la sl es e now w1 = Done (r, w')" using assms(1) l by (simp add: child_for_def)
    note admit = admit_run [OF rest assms(2) launches_fresh_kept [OF assms(3) live_child_unused [OF l]]]
    from run_then [OF fast_miss [OF l [unfolded None]] run_then [OF enter admit(1)]] show ?thesis
      using admit(2) live_child_unused [OF l] by auto
  qed
  then show "thread_run (sl_budget sl) es window between (Asking e) w (case r of Inr c \<Rightarrow> Serving e c | Inl _ \<Rightarrow> Resting) w'"
    "unused h w \<Longrightarrow> \<forall>c. la_start la e = Inr c \<longrightarrow> ch_handle c \<noteq> h \<Longrightarrow> unused h w'" by blast+
qed

lemma child_for_in_slot:
  assumes "child_for fuel su la sl es e now w = Done (Inr c, w')"
  shows "in_slot w' (ch_handle c)"
proof -
  have "in_slot w' (ch_handle c)" if "live_child i now w = (Some c, w')" for i w
    using that by (auto simp: live_child_def in_slot_def clone_child_def put_slot_def split: option.splits if_splits)
  moreover have "in_slot w' (ch_handle c)" if "insert_child i held w = (c, w')" for i held w
    using that by (auto simp: insert_child_def in_slot_def clone_child_def put_slot_def drop_child_def Let_def
        split: option.splits)
  moreover have "live_child (e_id e) now w = (Some c, w') \<or>
      (\<exists>w1. admit_child fuel su la sl es e now w1 = Done (Inr c, w'))"
    using assms by (auto simp: child_for_def split: prod.splits option.splits)
  ultimately show ?thesis by (auto elim: admit_child_cases)
qed

text \<open>A handle may be let go of without a new time: as if it had been used when it was last.\<close>

lemma touch_unmoved: "\<exists>now. touch i now w = w"
proof (cases "wd_slots w i")
  case None
  then show ?thesis by (simp add: touch_def)
next
  case (Some held)
  then show ?thesis
    by (intro exI [of _ "sc_last_used held"]) (simp add: touch_def put_slot_def fun_upd_idem)
qed

lemma let_go: "thread_run b es window between (Serving e c) w Resting (drop_child c w)"
proof -
  obtain now where "touch (e_id e) now w = w" using touch_unmoved by blast
  with run_then [OF served [of b es window e c w now] run_move [OF drop]] show ?thesis by simp
qed

section \<open>An answer is a run\<close>

abbreviation answering ::
    "serving \<Rightarrow> idle_window \<Rightarrow> (world \<Rightarrow> world \<Rightarrow> bool) \<Rightarrow> activity \<Rightarrow> world \<Rightarrow> activity \<Rightarrow> world \<Rightarrow> bool" where
  "answering sv \<equiv> thread_run (sl_budget (an_slots sv)) (c_entries (an_catalog sv))"

lemma answer_model_run:
  assumes "answer_model sv h (e_id e) buffered st sk w = Done a" and "catalog_entry (an_catalog sv) (e_id e) = Some e"
    and "calm_around between (an_surroundings sv)" and "launches_fresh (an_launcher sv) e w"
    and "\<And>w. between w (an_meanwhile sv w)"
  shows "answering sv window between (Asking e) w Resting (aw_world a) \<and>
    (\<forall>c r. aw_relayed a = Some (c, r) \<longrightarrow>
      (\<exists>w1. answering sv window between (Asking e) w (Serving e c) w1 \<and>
        answering sv window between (Serving e c) w1 Resting (aw_world a)))"
  using assms(1,2)
proof (cases rule: answer_model_cases)
  case (failed f w1)
  from child_for_run(1) [OF failed(1) assms(3,4)] failed(2) show ?thesis
    by (auto simp: turn_away_def split: prod.splits)
next
  case (hung c w1 sk1)
  from child_for_run(1) [OF hung(1) assms(3,4)]
  have "answering sv window between (Asking e) w (Serving e c) w1" by simp
  from run_trans [OF this let_go] hung(3) show ?thesis by simp
next
  case (relayed c w1 sk1 r)
  from child_for_run(1) [OF relayed(1) assms(3,4)]
  have asked: "answering sv window between (Asking e) w (Serving e c) w1" by simp
  from run_trans [OF run_meanwhile [where between = between, OF assms(5) [of w1]] run_then [OF served run_move [OF drop]]]
  have done_with: "answering sv window between (Serving e c) w1 Resting (aw_world a)" using relayed(5) by simp
  from run_trans [OF asked done_with] asked done_with relayed(5) show ?thesis by auto
qed

lemma answer_run:
  assumes "answer_to sv st sk w = Done a"
    and "calm_around between (an_surroundings sv)" and "\<forall>w. between w (an_meanwhile sv w)"
    and "\<forall>e \<in> set (c_entries (an_catalog sv)). launches_fresh (an_launcher sv) e w"
  shows "answering sv window between Resting w Resting (aw_world a) \<and>
    (\<forall>c r. aw_relayed a = Some (c, r) \<longrightarrow>
      (\<exists>e w1. answering sv window between Resting w (Serving e c) w1 \<and>
        answering sv window between (Serving e c) w1 Resting (aw_world a)))"
  using answer_to_modelled [OF assms(1)]
proof (elim disjE exE conjE)
  assume "answered_alone sv sk w a"
  then show ?thesis by (auto simp: answered_alone_def here)
next
  fix ls rest h e buffered rest1 sk1
  assume asks: "asks_for sv h rest e" and model: "answer_model sv h (e_id e) buffered rest1 sk1 w = Done a"
  have entry: "catalog_entry (an_catalog sv) (e_id e) = Some e" using asks by (simp add: asks_for_def)
  then have "e \<in> set (c_entries (an_catalog sv))" by (auto simp: catalog_entry_def find_Some_iff)
  from answer_model_run [OF model entry assms(2) bspec [OF assms(4) this] spec [OF assms(3)]] run_then [OF request [OF this]]
  show ?thesis by blast
qed

section \<open>A tick of the reaper, and the stop\<close>

lemma swept_run:
  assumes "swept take_from ids w = (gone, w')"
    and "\<And>i ids w held said w'. take_from i w = (Some (held, said), w') \<Longrightarrow>
      moves b es window (at (i # ids)) w (Dropping (sc_child held) (at ids)) w'"
    and "\<And>i ids w w'. take_from i w = (None, w') \<Longrightarrow> moves b es window (at (i # ids)) w (at ids) w'"
  shows "thread_run b es window between (at ids) w (at []) w'"
  using assms(1)
proof (induction ids arbitrary: w gone)
  case Nil
  then show ?case by (simp add: here)
next
  case (Cons i ids)
  obtain t w1 where t: "take_from i w = (t, w1)" by fastforce
  show ?case
  proof (cases t)
    case None
    then have "swept take_from ids w1 = (gone, w')" using Cons.prems t by simp
    from run_then [OF assms(3) [OF t [unfolded None]] Cons.IH [OF this]] show ?thesis .
  next
    case (Some x)
    obtain held said where x: "x = (held, said)" by (cases x)
    obtain gone1 where "swept take_from ids (drop_child (sc_child held) w1) = (gone1, w')"
      using Cons.prems t Some x by (auto split: prod.splits)
    from run_then [OF assms(2) [OF t [unfolded Some x]] run_then [OF drop Cons.IH [OF this]]] show ?thesis .
  qed
qed

lemma weigh_run:
  "thread_run b es window between (Weighing d todo acc) w (Weighing d [] (acc @ concat (map (\<lambda>x. read_slot x w) todo))) w"
proof (induction todo arbitrary: acc)
  case Nil
  then show ?case by (simp add: here)
next
  case (Cons x todo)
  from run_then [OF weigh_one Cons.IH [of "acc @ read_slot x w"]] show ?case by simp
qed

lemma sweep_run:
  assumes "reaper_sweep es window deadline now timeout w = (s, w')"
  shows "thread_run b es window between Resting w Resting w'"
proof -
  obtain dead w1 where dead: "swept take_if_exited (map e_id es) w = (dead, w1)"
    by (cases "swept take_if_exited (map e_id es) w")
  have "thread_run b es window between (Reaping (map e_id es)) w (Reaping []) w1"
    by (rule swept_run [where at = Reaping, OF dead]) (auto intro: reap reap_none)
  note reaped = run_then [OF tick this]
  show ?thesis
  proof (cases "window_duration window")
    case None
    then have "w' = w1" using assms dead by (simp add: reaper_sweep_def sweep_exited_def sweep_idle_def)
    from moved [OF reaped no_window [OF None]] this show ?thesis by simp
  next
    case (Some d)
    obtain gone w2 where gone: "swept (take_stale now d) (expired window (held_now es w1) now) w1 = (gone, w2)"
      by (cases "swept (take_stale now d) (expired window (held_now es w1) now) w1")
    have "w' = w2" using assms dead gone Some by (simp add: reaper_sweep_def sweep_exited_def sweep_idle_def)
    have "thread_run b es window between (Expiring now d (expired window (held_now es w1) now)) w1 (Expiring now d []) w2"
      by (rule swept_run [where at = "Expiring now d", OF gone]) (auto intro: expire expire_none)
    from run_then [OF weighed moved [OF this tick_over]] weigh_run [of b es window between d es "[]" w1]
    have "thread_run b es window between (Weighing d es []) w1 Resting w2" by (simp add: held_read) (rule run_trans)
    from run_trans [OF reaped run_then [OF weigh [OF Some] this]] show ?thesis using \<open>w' = w2\<close> by simp
  qed
qed

lemma take_all_run:
  "take_all ids w = (got, w') \<Longrightarrow> thread_run b es window between (Clearing ids taken) w (Clearing [] (taken @ got)) w'"
proof (induction ids arbitrary: w taken got)
  case Nil
  then show ?case by (simp add: here)
next
  case (Cons i ids)
  show ?case
  proof (cases "wd_slots w i")
    case None
    then have "take_all ids w = (got, w')" using Cons.prems by simp
    from run_then [OF clear_none [OF None] Cons.IH [OF this]] show ?thesis .
  next
    case (Some held)
    then obtain rest where "take_all ids (put_slot i None w) = (rest, w')" "got = held # rest"
      using Cons.prems by (auto split: prod.splits)
    with run_then [OF clear_one [OF Some] Cons.IH] show ?thesis by fastforce
  qed
qed

lemma dropped_run:
  "thread_run b es window between (Clearing [] taken) w (Clearing [] []) (fold (\<lambda>held. drop_child (sc_child held)) taken w)"
proof (induction taken arbitrary: w)
  case Nil
  then show ?case by (simp add: here)
next
  case (Cons held taken)
  from run_then [OF clear_drop run_then [OF drop Cons.IH]] show ?case by simp
qed

lemma clear_run:
  assumes "slot_order es ids"
  shows "thread_run b es window between Resting w Resting (clear ids w)"
proof -
  obtain taken w1 where t: "take_all ids w = (taken, w1)" by fastforce
  from run_then [OF stop [OF assms] run_trans [OF take_all_run [OF t] moved [OF dropped_run cleared]]] show ?thesis
    using t by (simp add: clear_def)
qed

section \<open>Loading the residents\<close>

text \<open>Once its handle is let go of, a load has left every other handle alone.\<close>

definition let_go_of :: "failure + child \<Rightarrow> world \<Rightarrow> world" where
  "let_go_of r w = (case r of Inr c \<Rightarrow> drop_child c w | Inl _ \<Rightarrow> w)"

lemma loaded_unused:
  assumes "child_for fuel su la sl es e now w = Done (r, w')" and "calm_around between su" and "launches_fresh la e w"
    and "unused h w" and "\<forall>c. la_start la e = Inr c \<longrightarrow> ch_handle c \<noteq> h"
  shows "unused h (let_go_of r w')"
proof (cases r)
  case (Inr c)
  note still = child_for_run(2) [OF assms]
  have "ch_handle c \<noteq> h"
    using child_for_in_slot [OF assms(1) [unfolded Inr]] still by (auto simp: unused_def)
  then show ?thesis using unused_dropped [OF still] Inr by (simp add: let_go_of_def)
qed (use child_for_run(2) [OF assms] in \<open>simp add: let_go_of_def\<close>)

lemma loaded_run:
  assumes "child_for fuel su la sl es e now w = Done (r, w')" and "calm_around between su" and "launches_fresh la e w"
    and "e \<in> set es"
  shows "thread_run (sl_budget sl) es window between Resting w Resting (let_go_of r w')"
proof (cases r)
  case (Inl f)
  then show ?thesis
    using run_then [OF request [OF assms(4)] child_for_run(1) [OF assms(1-3)]] by (simp add: let_go_of_def)
next
  case (Inr c)
  from child_for_run(1) [OF assms(1-3)]
  have "thread_run (sl_budget sl) es window between (Asking e) w (Serving e c) w'" unfolding Inr by simp
  from run_then [OF request [OF assms(4)] run_trans [OF this let_go]] show ?thesis using Inr by (simp add: let_go_of_def)
qed

text \<open>Every start of a resident has a process of its own.\<close>

definition launches_apart :: "launcher \<Rightarrow> entry list \<Rightarrow> bool" where
  "launches_apart la es \<longleftrightarrow>
     (\<forall>e \<in> set es. \<forall>x \<in> set es. \<forall>c d. la_start la e = Inr c \<and> la_start la x = Inr d \<and> e \<noteq> x \<longrightarrow>
        ch_handle c \<noteq> ch_handle d)"

lemma load_run:
  assumes "load_each (\<lambda>e. child_for (fuel e) su la sl es e (now e)) residents w = Done (failures, w')"
    and "calm_around between su" and "set residents \<subseteq> set es" and "distinct residents"
    and "\<forall>e \<in> set residents. launches_fresh la e w" and "launches_apart la residents"
  shows "thread_run (sl_budget sl) es window between Resting w Resting w'"
  using assms(1,3-6)
proof (induction residents arbitrary: w failures)
  case Nil
  then show ?case by (simp add: here)
next
  case (Cons e residents)
  obtain r w1 where r: "child_for (fuel e) su la sl es e (now e) w = Done (r, w1)"
    using Cons.prems(1) by (auto split: run.splits)
  have fresh: "launches_fresh la e w" "e \<in> set es" using Cons.prems by simp_all
  have kept: "launches_fresh la x (let_go_of r w1)" if x: "x \<in> set residents" for x
  proof -
    have "unused (ch_handle d) (let_go_of r w1)" if d: "la_start la x = Inr d" for d
    proof (rule loaded_unused [OF r assms(2) fresh(1)])
      show "unused (ch_handle d) w" using Cons.prems(4) x d by (auto simp: launches_fresh_def)
      show "\<forall>c. la_start la e = Inr c \<longrightarrow> ch_handle c \<noteq> ch_handle d"
        using Cons.prems(3,5) x d unfolding launches_apart_def by (metis distinct.simps(2) list.set_intros)
    qed
    then show ?thesis using Cons.prems(4) x by (simp add: launches_fresh_def)
  qed
  have rest: "launches_apart la residents" using Cons.prems(5) by (simp add: launches_apart_def)
  obtain failures1 where
    "load_each (\<lambda>e. child_for (fuel e) su la sl es e (now e)) residents (let_go_of r w1) = Done (failures1, w')"
    using Cons.prems(1) r by (auto simp: let_go_of_def split: sum.splits run.splits)
  from run_trans [OF loaded_run [OF r assms(2) fresh] Cons.IH [OF this]] Cons.prems kept rest show ?case by simp
qed

section \<open>A run is part of an interleaving\<close>

text \<open>Of what others do meanwhile, processes that exit are steps of the machine at any moment.\<close>

definition processes_exit :: "world \<Rightarrow> world \<Rightarrow> bool" where
  "processes_exit = (\<lambda>w w'. \<exists>h status. w' = w\<lparr>wd_process := (wd_process w)(h := Exited status)\<rparr>)\<^sup>*\<^sup>*"

lemma unused_exited: "unused h (w\<lparr>wd_process := p\<rparr>) = unused h w"
  by (simp add: unused_def fresh_handle_def in_slot_def)

lemma exits_unused: "processes_exit w w' \<Longrightarrow> unused h w \<Longrightarrow> unused h w'"
  unfolding processes_exit_def
  by (induction rule: rtranclp_induct) (auto simp: unused_exited)

lemma exits_steps:
  assumes "processes_exit (ms_world m) w'"
  shows "(step b es window)\<^sup>*\<^sup>* m (m\<lparr>ms_world := w'\<rparr>)"
  using assms unfolding processes_exit_def
proof (induction rule: rtranclp_induct)
  case base
  then show ?case by simp
next
  case (step w1 w2)
  then obtain h status where "w2 = w1\<lparr>wd_process := (wd_process w1)(h := Exited status)\<rparr>" by blast
  then have "Slots_Machine.step b es window (m\<lparr>ms_world := w1\<rparr>) (m\<lparr>ms_world := w2\<rparr>)"
    using exits [of b es window "m\<lparr>ms_world := w1\<rparr>" h status] by simp
  with step(3) show ?case by simp
qed

definition lock_of :: "nat \<Rightarrow> activity \<Rightarrow> nat option" where
  "lock_of k a = (if admitting_now a then Some k else None)"

lemma run_steps:
  assumes "thread_run b es window processes_exit a w a' w'" and "k < length (ms_threads m)" and "ms_threads m ! k = a"
    and "ms_world m = w" and "ms_admission m = lock_of k a"
  shows "\<exists>m'. (step b es window)\<^sup>*\<^sup>* m m' \<and> ms_threads m' = (ms_threads m)[k := a'] \<and> ms_world m' = w' \<and>
    ms_admission m' = lock_of k a'"
  using assms
proof (induction rule: thread_run.induct)
  case (here a w)
  then show ?case by (intro exI [of _ m]) auto
next
  case (moved a w a1 w1 a2 w2)
  then obtain m1 where m1: "(step b es window)\<^sup>*\<^sup>* m m1" "ms_threads m1 = (ms_threads m)[k := a1]" "ms_world m1 = w1"
      "ms_admission m1 = lock_of k a1" by blast
  let ?m = "\<lparr>ms_threads = (ms_threads m1)[k := a2], ms_admission = lock_after k (ms_threads m1 ! k) a2 (ms_admission m1),
    ms_world = w2, ms_launched = launched_by (ms_threads m1 ! k) a2 @ ms_launched m1,
    ms_stopping = (ms_stopping m1 \<or> is_Clearing a2)\<rparr>"
  have "step b es window m1 ?m"
    by (rule thread) (use moved(2,4) m1 in \<open>auto simp: lock_of_def\<close>)
  with m1(1) have "(step b es window)\<^sup>*\<^sup>* m ?m" by simp
  then show ?case using m1 moved(4) moves_over [OF moved(2)] by (intro exI [of _ ?m]) (auto simp: lock_of_def lock_after_def)
next
  case (others a w a1 w1 w2)
  then obtain m1 where m1: "(step b es window)\<^sup>*\<^sup>* m m1" "ms_threads m1 = (ms_threads m)[k := a1]" "ms_world m1 = w1"
      "ms_admission m1 = lock_of k a1" by blast
  have "(step b es window)\<^sup>*\<^sup>* m1 (m1\<lparr>ms_world := w2\<rparr>)" using exits_steps others(2) m1(3) by simp
  with m1 show ?case by (intro exI [of _ "m1\<lparr>ms_world := w2\<rparr>"]) auto
qed

lemma reachable_steps: "(step b es window)\<^sup>*\<^sup>* m m' \<Longrightarrow> reachable b es window n m \<Longrightarrow> reachable b es window n m'"
  by (induction rule: rtranclp_induct) (auto intro: goes_on)

text \<open>A thread at rest can bring the machine to this world, and is at rest again; nobody else has moved.\<close>

definition brings_about :: "budget \<Rightarrow> entry list \<Rightarrow> idle_window \<Rightarrow> nat \<Rightarrow> nat \<Rightarrow> machine_state \<Rightarrow> world \<Rightarrow> bool" where
  "brings_about b es window n k m w \<longleftrightarrow>
     (\<exists>m'. reachable b es window n m' \<and> (step b es window)\<^sup>*\<^sup>* m m' \<and> ms_threads m' = ms_threads m \<and>
        ms_admission m' = None \<and> ms_world m' = w)"

lemma run_brings_about:
  assumes "thread_run b es window processes_exit Resting (ms_world m) Resting w" and "reachable b es window n m"
    and "k < length (ms_threads m)" and "ms_threads m ! k = Resting" and "ms_admission m = None"
  shows "brings_about b es window n k m w"
proof -
  obtain m' where m': "(step b es window)\<^sup>*\<^sup>* m m'" "ms_threads m' = (ms_threads m)[k := Resting]" "ms_world m' = w"
      "ms_admission m' = lock_of k Resting"
    using run_steps [OF assms(1,3,4) refl] assms(5) by (auto simp: lock_of_def)
  have "ms_threads m' = ms_threads m" using m'(2) assms(3,4) by (metis list_update_id)
  then show ?thesis
    using m' reachable_steps [OF m'(1) assms(2)] unfolding brings_about_def by (intro exI [of _ m']) (simp add: lock_of_def)
qed

text \<open>
  C4: What one thread computes is one of the interleavings. The functions that answer a connection, sweep the
  slots, clear them and load the residents, and the step relation the safety properties are proved over, are
  two accounts of one program; here the first is a refinement of the second. From any reachable moment at
  which a thread is at rest and no load is in progress, answering a connection, whatever it is and however it
  ends, brings the slots to a world the machine reaches, and a relayed request passes a moment at which that
  thread serves the child it is relayed to. Processes may exit whenever the answer waits. The launcher gives
  every start a process of its own, and no figure of the machine is beyond \<open>2 ^ 32\<close> mebibytes.
\<close>

theorem answers_are_runs:
  assumes "reachable (sl_budget (an_slots sv)) (c_entries (an_catalog sv)) window n m"
    and "k < length (ms_threads m)" and "ms_threads m ! k = Resting" and "ms_admission m = None"
    and "answer_to sv st sk (ms_world m) = Done a"
    and "\<forall>j. figure_ok (su_device_free (an_surroundings sv) j)"
    and "\<forall>j w. processes_exit w (su_others (an_surroundings sv) j w)" and "\<forall>w. processes_exit w (an_meanwhile sv w)"
    and "\<forall>e \<in> set (c_entries (an_catalog sv)). launches_fresh (an_launcher sv) e (ms_world m)"
  shows "brings_about (sl_budget (an_slots sv)) (c_entries (an_catalog sv)) window n k m (aw_world a) \<and>
    (\<forall>c r. aw_relayed a = Some (c, r) \<longrightarrow>
      (\<exists>m' e. (step (sl_budget (an_slots sv)) (c_entries (an_catalog sv)) window)\<^sup>*\<^sup>* m m' \<and>
        ms_threads m' = (ms_threads m)[k := Serving e c] \<and> ms_admission m' = None))"
proof -
  have calm: "calm_around processes_exit (an_surroundings sv)"
    using assms(6,7) exits_unused by (auto simp: calm_around_def)
  note run = answer_run [OF assms(5) calm assms(8,9), of window]
  from run have whole: "answering sv window processes_exit Resting (ms_world m) Resting (aw_world a)" by (rule conjunct1)
  have "\<exists>m' e. (step (sl_budget (an_slots sv)) (c_entries (an_catalog sv)) window)\<^sup>*\<^sup>* m m' \<and>
      ms_threads m' = (ms_threads m)[k := Serving e c] \<and> ms_admission m' = None" if relayed: "aw_relayed a = Some (c, r)" for c r
  proof -
    obtain e w1 where "answering sv window processes_exit Resting (ms_world m) (Serving e c) w1"
      using run relayed by blast
    from run_steps [OF this assms(2,3) refl] show ?thesis using assms(4) by (fastforce simp: lock_of_def)
  qed
  with run_brings_about [OF whole assms(1-4)] show ?thesis by blast
qed

text \<open>
  C5: So are a tick of the reaper, the clearing of the slots at the end, and the loading of the residents at the
  beginning, each as one thread does it: every world they give is one the machine reaches.
\<close>

theorem rounds_are_runs:
  assumes "reachable (sl_budget sl) es window n m"
    and "k < length (ms_threads m)" and "ms_threads m ! k = Resting" and "ms_admission m = None"
    and "\<forall>j. figure_ok (su_device_free su j)" and "\<forall>j w. processes_exit w (su_others su j w)"
    and "distinct es" and "launches_apart la es" and "\<forall>e \<in> set es. launches_fresh la e (ms_world m)"
  shows "brings_about (sl_budget sl) es window n k m (snd (reaper_sweep es window deadline now timeout (ms_world m))) \<and>
    (\<forall>ids. slot_order es ids \<longrightarrow> brings_about (sl_budget sl) es window n k m (clear ids (ms_world m))) \<and>
    (\<forall>failures w. load_residents (\<lambda>e. child_for (fuel e) su la sl es e (started e)) es (ms_world m) = Done (failures, w) \<longrightarrow>
      brings_about (sl_budget sl) es window n k m w)"
proof (intro conjI allI impI)
  note lift = run_brings_about [OF _ assms(1-4)]
  obtain s w where "reaper_sweep es window deadline now timeout (ms_world m) = (s, w)" by fastforce
  then show "brings_about (sl_budget sl) es window n k m (snd (reaper_sweep es window deadline now timeout (ms_world m)))"
    using lift [OF sweep_run] by simp
  show "brings_about (sl_budget sl) es window n k m (clear ids (ms_world m))" if "slot_order es ids" for ids
    by (rule lift [OF clear_run [OF that]])
  fix failures w
  assume "load_residents (\<lambda>e. child_for (fuel e) su la sl es e (started e)) es (ms_world m) = Done (failures, w)"
  then have load: "load_each (\<lambda>e. child_for (fuel e) su la sl es e (started e)) (filter (\<lambda>e. e_residency e = Resident) es)
      (ms_world m) = Done (failures, w)" by (simp add: load_residents_def)
  have calm: "calm_around processes_exit su" using assms(5,6) exits_unused by (auto simp: calm_around_def)
  show "brings_about (sl_budget sl) es window n k m w"
    by (rule lift [OF load_run [OF load calm]]) (use assms(7-9) in \<open>auto simp: launches_apart_def\<close>)
qed

section \<open>Applied\<close>

definition ready_launcher :: launcher where
  "ready_launcher = \<lparr>la_model_file = (\<lambda>_. Inr ()), la_start = (\<lambda>e. Inr \<lparr>ch_id = e_id e, ch_port = 80, ch_pid = 1, ch_handle = 7\<rparr>),
     la_measure = (\<lambda>_. unknown_measurement)\<rparr>"

definition cold_serving :: serving where
  "cold_serving = sample_serving\<lparr>an_launcher := ready_launcher\<rparr>"

lemma cold_simps [simp]:
  "an_launcher cold_serving = ready_launcher" "sl_budget (an_slots cold_serving) = budget_new None"
  "c_entries (an_catalog cold_serving) = [Answer_Laws.sample_model]"
  "su_device_free (an_surroundings cold_serving) j = None" "su_others (an_surroundings cold_serving) j w = w"
  "an_meanwhile cold_serving w = w"
  by (simp_all add: cold_serving_def sample_serving_def)

lemma ready_fresh: "launches_fresh ready_launcher e (ms_world (at_rest n))"
  by (simp add: launches_fresh_def ready_launcher_def unused_def fresh_handle_def in_slot_def at_rest_def
      measurement_ok_def figure_ok_def unknown_measurement_def)

lemma nothing_exits: "processes_exit w w"
  by (simp add: processes_exit_def)

lemma at_rest_one: "0 < length (ms_threads (at_rest 1))" "ms_threads (at_rest 1) ! 0 = Resting" "ms_admission (at_rest 1) = None"
  by (simp_all add: at_rest_def)

lemma cold_answer:
  "\<exists>a c r. answer_to cold_serving sample_stream sample_caller (ms_world (at_rest 1)) = Done a \<and> aw_relayed a = Some (c, r)"
proof -
  have "case answer_to cold_serving sample_stream sample_caller (ms_world (at_rest 1)) of
      Done a \<Rightarrow> aw_relayed a \<noteq> None | _ \<Rightarrow> False"
    by code_simp
  then show ?thesis by (auto split: run.splits)
qed

theorem answers_are_runs_witness:
  "\<exists>a c r m' e. answer_to cold_serving sample_stream sample_caller (ms_world (at_rest 1)) = Done a \<and> aw_relayed a = Some (c, r) \<and>
     brings_about (budget_new None) [Answer_Laws.sample_model] (IdleWindow None) 1 0 (at_rest 1) (aw_world a) \<and>
     (step (budget_new None) [Answer_Laws.sample_model] (IdleWindow None))\<^sup>*\<^sup>* (at_rest 1) m' \<and>
     ms_threads m' = (ms_threads (at_rest 1))[0 := Serving e c]"
proof -
  obtain a c r where a: "answer_to cold_serving sample_stream sample_caller (ms_world (at_rest 1)) = Done a"
      "aw_relayed a = Some (c, r)" using cold_answer by blast
  from answers_are_runs [where sv = cold_serving and window = "IdleWindow None" and n = 1 and k = 0, OF _ at_rest_one a(1)]
  show ?thesis using a by (simp add: begins ready_fresh nothing_exits figure_ok_def) blast
qed

definition ready_resident :: entry where
  "ready_resident = Answer_Laws.sample_model\<lparr>e_residency := Resident\<rparr>"

definition quiet :: surroundings where
  "quiet = \<lparr>su_clock = Instant, su_device_free = (\<lambda>_. None), su_others = (\<lambda>_ w. w)\<rparr>"

lemma resident_loads:
  "\<exists>w. load_residents (\<lambda>e. child_for 1 quiet ready_launcher \<lparr>sl_budget = budget_new None, sl_wait = Wait 0\<rparr> [ready_resident]
       e (Instant 5)) [ready_resident] (ms_world (at_rest 1)) = Done ([], w) \<and> wd_slots w ''m'' \<noteq> None"
proof -
  have "case load_residents (\<lambda>e. child_for 1 quiet ready_launcher \<lparr>sl_budget = budget_new None, sl_wait = Wait 0\<rparr> [ready_resident]
       e (Instant 5)) [ready_resident] (ms_world (at_rest 1)) of
      Done (failures, w) \<Rightarrow> failures = [] \<and> wd_slots w ''m'' \<noteq> None | _ \<Rightarrow> False"
    by code_simp
  then show ?thesis by (auto split: run.splits)
qed

theorem rounds_are_runs_witness:
  "\<exists>w. wd_slots w ''m'' \<noteq> None \<and> brings_about (budget_new None) [ready_resident] (IdleWindow None) 1 0 (at_rest 1) w"
proof -
  obtain w where w: "load_residents (\<lambda>e. child_for 1 quiet ready_launcher \<lparr>sl_budget = budget_new None, sl_wait = Wait 0\<rparr>
      [ready_resident] e (Instant 5)) [ready_resident] (ms_world (at_rest 1)) = Done ([], w)" "wd_slots w ''m'' \<noteq> None"
    using resident_loads by blast
  have "brings_about (budget_new None) [ready_resident] (IdleWindow None) 1 0 (at_rest 1) w"
    using rounds_are_runs [where sl = "\<lparr>sl_budget = budget_new None, sl_wait = Wait 0\<rparr>" and es = "[ready_resident]"
        and window = "IdleWindow None" and n = 1 and k = 0 and su = quiet and la = ready_launcher
        and fuel = "\<lambda>_. 1" and started = "\<lambda>_. Instant 5", OF _ at_rest_one] w(1)
    by (simp add: begins ready_fresh nothing_exits figure_ok_def quiet_def launches_apart_def)
  then show ?thesis using w(2) by blast
qed

end
