(* ===== verification/Sessions.thy ===== *)
theory Sessions
  imports Slots_Runs
begin

text \<open>
  What a router does with its slots over its life, one thing after another: it loads its residents, answers
  connections and sweeps, while processes exit when they like, and in the end it clears the slots
  (\<open>Router::stop\<close> of \<open>src/src/proxy.rs\<close>). Every moment of such a session is one the machine of
  \<open>Slots_Machine\<close> reaches, so what holds there is read off here for the functions of \<open>Slots\<close>.
\<close>

section \<open>Sessions\<close>

text \<open>What is asked of the surroundings of an answer, of the slots' world at that moment.\<close>

definition fair :: "serving \<Rightarrow> world \<Rightarrow> bool" where
  "fair sv w \<longleftrightarrow>
     (\<forall>j. figure_ok (su_device_free (an_surroundings sv) j)) \<and>
     (\<forall>j w. processes_exit w (su_others (an_surroundings sv) j w)) \<and> (\<forall>w. processes_exit w (an_meanwhile sv w)) \<and>
     (\<forall>e \<in> set (c_entries (an_catalog sv)). launches_fresh (an_launcher sv) e w)"

inductive session :: "slots \<Rightarrow> entry list \<Rightarrow> idle_window \<Rightarrow> world \<Rightarrow> bool" for sl es window where
  opened: "session sl es window \<lparr>wd_slots = Map.empty, wd_strong = (\<lambda>_. 0), wd_process = (\<lambda>_. Running), wd_ended = []\<rparr>"
| connection: "session sl es window w \<Longrightarrow> an_slots sv = sl \<Longrightarrow> c_entries (an_catalog sv) = es \<Longrightarrow> fair sv w \<Longrightarrow>
     answer_to sv st sk w = Done a \<Longrightarrow> session sl es window (aw_world a)"
| ticked: "session sl es window w \<Longrightarrow> reaper_sweep es window deadline now timeout w = (s, w') \<Longrightarrow>
     session sl es window w'"
| loaded: "session sl es window w \<Longrightarrow> an_slots sv = sl \<Longrightarrow> c_entries (an_catalog sv) = es \<Longrightarrow> fair sv w \<Longrightarrow>
     launches_apart (an_launcher sv) es \<Longrightarrow>
     load_residents (\<lambda>e. child_for fuel (an_surroundings sv) (an_launcher sv) sl es e (an_now sv)) es w = Done (failures, w') \<Longrightarrow>
     session sl es window w'"
| process_exits: "session sl es window w \<Longrightarrow> processes_exit w w' \<Longrightarrow> session sl es window w'"

section \<open>Every moment of one is reached\<close>

definition moment :: "slots \<Rightarrow> entry list \<Rightarrow> idle_window \<Rightarrow> world \<Rightarrow> bool" where
  "moment sl es window w \<longleftrightarrow>
     (\<exists>m. reachable (sl_budget sl) es window 1 m \<and> ms_threads m = [Resting] \<and> ms_admission m = None \<and> ms_world m = w)"

lemma run_moment:
  assumes "moment sl es window w" and "thread_run (sl_budget sl) es window processes_exit Resting w Resting w'"
  shows "moment sl es window w'"
proof -
  obtain m where m: "reachable (sl_budget sl) es window 1 m" "ms_threads m = [Resting]" "ms_admission m = None" "ms_world m = w"
    using assms(1) by (auto simp: moment_def)
  then have "brings_about (sl_budget sl) es window 1 0 m w'"
    using assms(2) by (intro run_brings_about) auto
  with m(2) show ?thesis by (auto simp: brings_about_def moment_def)
qed

lemma fair_calm: "fair sv w \<Longrightarrow> calm_around processes_exit (an_surroundings sv)"
  using exits_unused by (auto simp: fair_def calm_around_def)

lemma session_moment:
  assumes "session sl es window w" and "distinct (map e_id es)"
  shows "moment sl es window w"
  using assms(1)
proof (induction rule: session.induct)
  case opened
  have "reachable (sl_budget sl) es window 1 (at_rest 1)" by (rule begins)
  then show ?case unfolding moment_def by (intro exI [of _ "at_rest 1"]) (simp add: at_rest_def)
next
  case (connection w sv st sk a)
  have "\<forall>w. processes_exit w (an_meanwhile sv w)"
      "\<forall>e \<in> set (c_entries (an_catalog sv)). launches_fresh (an_launcher sv) e w"
    using connection(4) by (simp_all add: fair_def)
  from answer_run [OF connection(5) fair_calm [OF connection(4)] this, of window]
  have "thread_run (sl_budget sl) es window processes_exit Resting w Resting (aw_world a)"
    using connection(2,3) by simp
  with connection(6) show ?case by (rule run_moment)
next
  case (ticked w deadline now timeout s w')
  from ticked(3) sweep_run [OF ticked(2)] show ?case by (rule run_moment)
next
  case (loaded w sv fuel failures w')
  have "load_each (\<lambda>e. child_for fuel (an_surroundings sv) (an_launcher sv) sl es e (an_now sv))
      (filter (\<lambda>e. e_residency e = Resident) es) w = Done (failures, w')"
    using loaded(6) by (simp add: load_residents_def)
  then have "thread_run (sl_budget sl) es window processes_exit Resting w Resting w'"
    by (rule load_run [OF _ fair_calm [OF loaded(4)]])
      (use loaded(3-5) assms(2) in \<open>auto simp: launches_apart_def fair_def distinct_map\<close>)
  with loaded(7) show ?case by (rule run_moment)
next
  case (process_exits w w')
  from process_exits(3) run_meanwhile [where between = processes_exit, OF process_exits(2)] show ?case by (rule run_moment)
qed

lemma moment_refs:
  assumes "moment sl es window w" and "distinct (map e_id es)" and "length es < 2 ^ 30"
  shows "refs_ok (e_id ` set es) (\<lambda>_. 0) w" and "distinct (wd_ended w)"
proof -
  obtain m where m: "reachable (sl_budget sl) es window 1 m" "ms_threads m = [Resting]" "ms_world m = w"
    using assms(1) by (auto simp: moment_def)
  have "counted es m" "accounted m"
    using reachable_safe [OF m(1) assms(2,3)] by (simp_all add: safe_def machine_ok_def)
  then have "refs_ok (e_id ` set es) (readers [Resting]) w" and "distinct (wd_ended w)"
    using m(2,3) by (simp_all add: counted_def accounted_def)
  moreover from this(1) have "refs_ok (e_id ` set es) (\<lambda>_. 0) w" by (rule refs_cong) (simp add: readers_def)
  ultimately show "refs_ok (e_id ` set es) (\<lambda>_. 0) w" "distinct (wd_ended w)" by simp_all
qed

section \<open>What a clear does when nobody reads\<close>

lemma map_filter_other: "i \<notin> set ids \<Longrightarrow> List.map_filter (f(i := v)) ids = List.map_filter f ids"
  by (induction ids) (auto simp: map_filter_simps split: option.split)

lemma take_all_exact:
  "distinct ids \<Longrightarrow>
     take_all ids w = (List.map_filter (wd_slots w) ids, w\<lparr>wd_slots := (wd_slots w) |` (- set ids)\<rparr>)"
proof (induction ids arbitrary: w)
  case Nil
  then show ?case by (simp add: map_filter_simps)
next
  case (Cons i ids)
  show ?case
  proof (cases "wd_slots w i")
    case None
    then have "(wd_slots w) |` (- set (i # ids)) = (wd_slots w) |` (- set ids)"
      by (auto simp: restrict_map_def fun_eq_iff)
    then show ?thesis using Cons None by (simp add: map_filter_simps)
  next
    case (Some held)
    have "List.map_filter ((wd_slots w)(i := None)) ids = List.map_filter (wd_slots w) ids"
      using Cons.prems by (intro map_filter_other) simp
    moreover have "((wd_slots w)(i := None)) |` (- set ids) = (wd_slots w) |` (- set (i # ids))"
      by (auto simp: restrict_map_def fun_eq_iff)
    ultimately show ?thesis using Cons Some by (simp add: map_filter_simps put_slot_def)
  qed
qed

lemma drops_exact:
  "distinct (map handle_of taken) \<Longrightarrow> \<forall>held \<in> set taken. wd_strong w (handle_of held) = 1 \<Longrightarrow>
     fold (\<lambda>held. drop_child (sc_child held)) taken w =
       w\<lparr>wd_strong := (\<lambda>h. if h \<in> handle_of ` set taken then 0 else wd_strong w h),
         wd_ended := wd_ended w @ map handle_of taken\<rparr>"
proof (induction taken arbitrary: w)
  case Nil
  then show ?case by simp
next
  case (Cons held taken)
  let ?w = "drop_child (sc_child held) w"
  have w: "?w = w\<lparr>wd_strong := (wd_strong w)(handle_of held := 0), wd_ended := wd_ended w @ [handle_of held]\<rparr>"
    using Cons.prems(2) by (simp add: drop_child_def Let_def)
  have "handle_of x \<noteq> handle_of held" if "x \<in> set taken" for x
    using imageI [OF that, of handle_of] Cons.prems(1) by auto
  then have "\<forall>x \<in> set taken. wd_strong ?w (handle_of x) = 1" using Cons.prems(2) by (simp add: w)
  with Cons.IH Cons.prems(1) have "fold (\<lambda>held. drop_child (sc_child held)) taken ?w =
      ?w\<lparr>wd_strong := (\<lambda>h. if h \<in> handle_of ` set taken then 0 else wd_strong ?w h),
        wd_ended := wd_ended ?w @ map handle_of taken\<rparr>" by simp
  then show ?case by (simp add: w fun_eq_iff cong: if_cong)
qed

text \<open>The children in the slots, in the order the slots come in.\<close>

definition children :: "string list \<Rightarrow> world \<Rightarrow> slot_child list" where
  "children ids w = List.map_filter (wd_slots w) ids"

lemma set_children: "x \<in> set (children ids w) \<longleftrightarrow> (\<exists>i \<in> set ids. wd_slots w i = Some x)"
  by (force simp: children_def map_filter_def)

lemma children_held:
  assumes "refs_ok (set ids) ext w"
  shows "in_slot w h \<longleftrightarrow> h \<in> handle_of ` set (children ids w)"
proof
  assume "in_slot w h"
  then obtain i held where "wd_slots w i = Some held" "handle_of held = h" by (auto simp: in_slot_def)
  then show "h \<in> handle_of ` set (children ids w)"
    using refs_okD(1) [OF assms] set_children by blast
next
  assume "h \<in> handle_of ` set (children ids w)"
  then obtain x where "x \<in> set (children ids w)" "h = handle_of x" by blast
  then show "in_slot w h" unfolding set_children in_slot_def by blast
qed

lemma children_apart:
  assumes "refs_ok known_ids ext w" and "distinct ids"
  shows "distinct (map handle_of (children ids w))"
  using assms(2)
proof (induction ids)
  case Nil
  then show ?case by (simp add: children_def map_filter_simps)
next
  case (Cons j ids)
  show ?case
  proof (cases "wd_slots w j")
    case (Some held)
    have "handle_of x \<noteq> handle_of held" if "x \<in> set (children ids w)" for x
    proof
      assume same: "handle_of x = handle_of held"
      from that [unfolded set_children] obtain i where i: "i \<in> set ids" "wd_slots w i = Some x" by (rule bexE)
      then have "i = j" using refs_okD(2) [OF assms(1) i(2) Some same] by simp
      then show False using i(1) Cons.prems by auto
    qed
    then have "handle_of held \<notin> handle_of ` set (children ids w)" by (metis imageE)
    then show ?thesis using Cons Some by (simp add: children_def map_filter_simps)
  qed (use Cons in \<open>simp add: children_def map_filter_simps\<close>)
qed

lemma clear_exact:
  assumes "refs_ok (set ids) (\<lambda>_. 0) w" and "distinct ids"
  shows "wd_slots (clear ids w) = Map.empty" and "wd_strong (clear ids w) h = 0"
    and "wd_ended (clear ids w) = wd_ended w @ map handle_of (children ids w)"
proof -
  let ?w = "w\<lparr>wd_slots := (wd_slots w) |` (- set ids)\<rparr>"
  note held = children_held [OF assms(1)]
  have "wd_strong ?w (handle_of x) = 1" if "x \<in> set (children ids w)" for x
    using refs_okD(3) [OF assms(1), of "handle_of x"] held [of "handle_of x"] that by simp
  from drops_exact [OF children_apart [OF assms], of ?w] this
  have c: "clear ids w = ?w\<lparr>wd_strong := (\<lambda>h. if h \<in> handle_of ` set (children ids w) then 0 else wd_strong w h),
      wd_ended := wd_ended w @ map handle_of (children ids w)\<rparr>"
    by (simp add: clear_def take_all_exact [OF assms(2)] children_def [symmetric] cong: if_cong)
  show "wd_slots (clear ids w) = Map.empty"
    using refs_okD(1) [OF assms(1)] by (auto simp: c restrict_map_def fun_eq_iff) (metis not_None_eq)
  show "wd_strong (clear ids w) h = 0" using refs_okD(3) [OF assms(1), of h] held [of h] by (simp add: c)
  show "wd_ended (clear ids w) = wd_ended w @ map handle_of (children ids w)" by (simp add: c)
qed

text \<open>
  C12: Between two things it does a router holds every child once. At every moment of a session, whatever
  connections were answered and however they ended, the children in the slots are those of entries of the
  catalog, no two the same, each with one handle and not ended, and no other handle is left; and a
  clear ends each of them, nothing else, and nothing twice, in whatever order the slots come.
\<close>

theorem session_gives_back:
  assumes "session sl es window w" and "distinct (map e_id es)" and "length es < 2 ^ 30" and "slot_order es ids"
  shows "(\<forall>i held. wd_slots w i = Some held \<longrightarrow> i \<in> e_id ` set es \<and> handle_of held \<notin> set (wd_ended w)) \<and>
    (\<forall>h. wd_strong w h = (if h \<in> handle_of ` set (children ids w) then 1 else 0)) \<and>
    distinct (map handle_of (children ids w)) \<and>
    wd_slots (clear ids w) = Map.empty \<and> (\<forall>h. wd_strong (clear ids w) h = 0) \<and>
    set (wd_ended (clear ids w)) = set (wd_ended w) \<union> handle_of ` set (children ids w) \<and> distinct (wd_ended (clear ids w))"
proof (intro conjI allI impI)
  note moment = session_moment [OF assms(1,2)]
  note refs = moment_refs [OF moment assms(2,3), folded slot_order_set [OF assms(4)]]
  note apart = slot_order_distinct [OF assms(4,2)]
  show "distinct (map handle_of (children ids w))" by (rule children_apart [OF refs(1) apart])
  show "wd_slots (clear ids w) = Map.empty" "wd_strong (clear ids w) h = 0" for h
    by (rule clear_exact [OF refs(1) apart])+
  show "set (wd_ended (clear ids w)) = set (wd_ended w) \<union> handle_of ` set (children ids w)"
    by (simp add: clear_exact(3) [OF refs(1) apart])
  show "distinct (wd_ended (clear ids w))"
    by (rule moment_refs(2) [OF run_moment [OF moment clear_run [OF assms(4)]] assms(2,3)])
  {
    fix i held assume i: "wd_slots w i = Some held"
    show "i \<in> e_id ` set es" using refs_okD(1) [OF refs(1) i] slot_order_set [OF assms(4)] by simp
    have "in_slot w (handle_of held)" using i by (auto simp: in_slot_def)
    then show "handle_of held \<notin> set (wd_ended w)" using refs_ended [OF refs(1)] by blast
  next
    fix h
    show "wd_strong w h = (if h \<in> handle_of ` set (children ids w) then 1 else 0)"
      using refs_okD(3) [OF refs(1), of h] children_held [OF refs(1), of h] by simp
  }
qed

text \<open>A model is started for a connection and answers it; the slots then hold it once, and a clear ends it.\<close>

lemma cold_session:
  assumes "answer_to cold_serving sample_stream sample_caller (ms_world (at_rest 1)) = Done a"
  shows "session \<lparr>sl_budget = budget_new None, sl_wait = Wait 0\<rparr> [Answer_Laws.sample_model] (IdleWindow None) (aw_world a)"
proof (rule connection [OF opened, where sv = cold_serving])
  show "an_slots cold_serving = \<lparr>sl_budget = budget_new None, sl_wait = Wait 0\<rparr>"
    by (simp add: cold_serving_def sample_serving_def)
  show "c_entries (an_catalog cold_serving) = [Answer_Laws.sample_model]" by simp
  have closed: "ms_world (at_rest 1) = \<lparr>wd_slots = Map.empty, wd_strong = (\<lambda>_. 0), wd_process = (\<lambda>_. Running), wd_ended = []\<rparr>"
    by (simp add: at_rest_def)
  show "fair cold_serving \<lparr>wd_slots = Map.empty, wd_strong = (\<lambda>_. 0), wd_process = (\<lambda>_. Running), wd_ended = []\<rparr>"
    unfolding fair_def closed [symmetric] by (simp add: nothing_exits ready_fresh figure_ok_def)
  show "answer_to cold_serving sample_stream sample_caller
      \<lparr>wd_slots = Map.empty, wd_strong = (\<lambda>_. 0), wd_process = (\<lambda>_. Running), wd_ended = []\<rparr> = Done a"
    using assms by (simp only: closed)
qed

lemma cold_leaves:
  "\<exists>a. answer_to cold_serving sample_stream sample_caller (ms_world (at_rest 1)) = Done a \<and>
     map handle_of (children [''m''] (aw_world a)) = [7]"
proof -
  have "case answer_to cold_serving sample_stream sample_caller (ms_world (at_rest 1)) of
      Done a \<Rightarrow> map handle_of (children [''m''] (aw_world a)) = [7] | _ \<Rightarrow> False"
    by code_simp
  then show ?thesis by (auto split: run.splits)
qed

theorem session_gives_back_witness:
  "\<exists>w. session \<lparr>sl_budget = budget_new None, sl_wait = Wait 0\<rparr> [Answer_Laws.sample_model] (IdleWindow None) w \<and>
     map handle_of (children [''m''] w) = [7] \<and> wd_slots (clear [''m''] w) = Map.empty \<and>
     7 \<in> set (wd_ended (clear [''m''] w))"
proof -
  obtain a where a: "answer_to cold_serving sample_stream sample_caller (ms_world (at_rest 1)) = Done a"
      "map handle_of (children [''m''] (aw_world a)) = [7]" using cold_leaves by (elim exE conjE) (rule that)
  have one: "distinct (map e_id [Answer_Laws.sample_model])" "length [Answer_Laws.sample_model] < 2 ^ 30" by simp_all
  have order: "slot_order [Answer_Laws.sample_model] [''m'']" by (simp add: slot_order_def sample_model_def)
  note left = session_gives_back [OF cold_session [OF a(1)] one order]
  from left have "wd_slots (clear [''m''] (aw_world a)) = Map.empty" by (elim conjE)
  moreover have "set (wd_ended (clear [''m''] (aw_world a))) =
      set (wd_ended (aw_world a)) \<union> set (map handle_of (children [''m''] (aw_world a)))"
    using left unfolding set_map by (elim conjE)
  then have "7 \<in> set (wd_ended (clear [''m''] (aw_world a)))" unfolding a(2) by simp
  ultimately show ?thesis using cold_session [OF a(1)] a(2) by (intro exI [of _ "aw_world a"] conjI)
qed

end
