(* ===== verification/Spec2Isabelle.thy ===== *)
theory Spec2Isabelle
  imports
    Catalog_Laws
    Gguf_Laws
    Estimate_Laws
    Tool
    Admission_Laws
    Slots_Locks
    Discover_Laws
    Launch_Laws
    Http_Laws
    Answer_Laws
    Reaper_Laws
    Commands_Laws
    Bench_Laws
    Process_Laws
    Shared
    Stub_Laws
    Settings
    Right_Child
    Lending
    Sessions
begin

text \<open>
  A model of \<open>maestro-llamacpp\<close> (\<open>src/src/\<close>), the router that keeps several \<open>llama-server\<close> children behind one
  port, starts the one a request names, and unloads idle ones to make room. Definitions follow the Rust
  files in their order and under their names; each theory opens by naming the files it models.

  \<^bold>\<open>What the program does, and where it is modelled.\<close> A catalog (a TOML file) declares entries: a model file under a
  root, its runtime, its flags, and an estimate of the memory it needs. What is not declared may be derived
  from the model file's own header, and files nobody declared are found by walking the root. A request names
  an entry, in its path or in its body. If the entry's slot holds a live child the request is relayed to it; if
  not, admission decides over the machine's memory whether it fits, what must go first, or that it waits, and
  the child is started and polled until it answers. A reaper unloads what has not been used for a window of
  time; a termination signal clears the slots and exits. The theories, in the order they build on each other:

  \<^item> \<open>Rust_Prelude\<close>, \<open>Rust_Str\<close>: the standard library's part: words at their width with checked and saturating
    operations, \<open>BTreeMap\<close> as a sorted list, the monotonic clock, results (\<open>Inl\<close> the error), a \<open>run\<close> that is a
    value, a panic or too little fuel, and \<open>str\<close> over UTF-8 bytes.
  \<^item> \<open>Catalog\<close>, \<open>Catalog_Read\<close>, \<open>Catalog_Laws\<close>: \<open>catalog.rs\<close>, \<open>catalog/path.rs\<close>, \<open>catalog/capability.rs\<close>,
    \<open>catalog/field.rs\<close>, \<open>catalog/read.rs\<close>. The readers report into a state monad; the laws say the report is the whole
    list of faults, and that an accepted catalog is well formed.
  \<^item> \<open>Gguf\<close>, \<open>Gguf_Laws\<close>: \<open>gguf.rs\<close>, \<open>gguf/bytes.rs\<close>. The format is written down as an encoder; the reader gets back
    what was encoded, refuses every truncation, and keeps no more than its bounds.
  \<^item> \<open>Estimate\<close>, \<open>Estimate_Laws\<close>: \<open>catalog/estimate.rs\<close> and below. The derived cost, in 64 and 128-bit
    words, is the exact one for files of a credible size.
  \<^item> \<open>Discover\<close>, \<open>Discover_Laws\<close>: \<open>catalog/discover.rs\<close>, \<open>discover/name.rs\<close>, \<open>catalog/resolve.rs\<close>.
  \<^item> \<open>Memory\<close>, \<open>Tool\<close>: \<open>memory.rs\<close> and below: whose figures are read, how tables are parsed, and the bounded
    run of a tool.
  \<^item> \<open>Queue\<close>, \<open>Policy\<close>, \<open>Admission\<close>, \<open>Admission_Laws\<close>, \<open>Idle\<close>: \<open>queue.rs\<close>, \<open>admission.rs\<close> and below, \<open>idle.rs\<close>.
    \<open>Policy\<close> states as the locale \<open>coldest_first\<close> the order in which both admission and the idle window
    pick models; each of their lists is an interpretation.
  \<^item> \<open>Settings\<close>: what the three settings read from the environment have in common, as the locale \<open>setting\<close>.
  \<^item> \<open>Slots\<close>, \<open>Slots_Laws\<close>: \<open>proxy/loaded.rs\<close>, \<open>proxy/slots/\<close>. One function per stretch of code under one slot's lock,
    over a world that counts the strong references of every child. The locale \<open>slot_taking\<close> is the contract of the
    three ways a child is taken out of its slot (exited, stale, evicted), and \<open>slot_sweeping\<close> extends it for the two
    sweeps, which take all that is due.
  \<^item> \<open>Slots_Machine\<close>, \<open>Slots_Machine_Laws\<close>, \<open>Slots_Safety\<close>: the same operations as threads of an interleaved step
    relation, with invariants over every reachable machine, and what they promise callers. There one step is what is done
    under one acquisition of a slot's lock; \<open>Slots_Locks\<close> has every lock in sight, taken and let go of in steps of their
    own, shows each of its runs to be one of the machine, and that none of its threads waits for good. \<open>Lending\<close> is the abstract
    specification: a lending desk without locks or counts, which every step of the threads refines.
  \<^item> \<open>Slots_Runs\<close>: the functions of \<open>Slots\<close>, \<open>Reaper\<close> and \<open>Answer\<close> are runs of those threads: whatever answering, sweeping,
    clearing or loading makes of the slots is a world the interleaving reaches, so its invariants hold there.
    \<open>Sessions\<close> reads them off for a router's life: residents, connections, sweeps, and a clear at the end.
  \<^item> \<open>Launch\<close>, \<open>Launch_Laws\<close>: \<open>launch.rs\<close> and below: root, binary, command line, probe, start.
  \<^item> \<open>Server_Contract\<close>: the probe of \<open>launch/probe.rs\<close>, and as the locale \<open>server_contract\<close> what the router relies on a
    server for; a start succeeds exactly when such a server is ready in time.
  \<^item> \<open>Http\<close>, \<open>Http_Laws\<close>, \<open>Head_Laws\<close>: \<open>proxy/refusal.rs\<close>, \<open>proxy/endpoint.rs\<close>, \<open>proxy/head.rs\<close>, \<open>proxy/head/read.rs\<close>;
    the head that is sent on is text and reads back as the one received.
  \<^item> \<open>Reply\<close>, \<open>Answer\<close>, \<open>Answer_Laws\<close>: \<open>proxy/reply.rs\<close>, \<open>proxy/answer.rs\<close>, \<open>proxy/answer/own.rs\<close>,
    \<open>proxy/body.rs\<close>, \<open>proxy/relay.rs\<close>: a whole connection, from its first byte to its one answer.
  \<^item> \<open>Reaper\<close>, \<open>Reaper_Laws\<close>: \<open>proxy/reaper.rs\<close>, \<open>proxy/residents.rs\<close>, \<open>proxy.rs\<close>.
  \<^item> \<open>Shared\<close>, \<open>Right_Child\<close>: \<open>Shared::child\<close> of \<open>proxy/shared.rs\<close>, which gives the slots the launcher; what they rely on
    it for is the locale \<open>launcher_contract\<close>, and what follows is that an entry is answered for by its own process.
    The composition below rests on \<open>Shared\<close> too.
  \<^item> \<open>Commands\<close>, \<open>Commands_Laws\<close>, \<open>Bench\<close>, \<open>Bench_Laws\<close>: \<open>startup.rs\<close>, \<open>check.rs\<close>, the commands of \<open>main.rs\<close>, and
    \<open>bench.rs\<close> and below.
  \<^item> \<open>Process\<close>, \<open>Process_Laws\<close>: the argument table and the termination of \<open>main.rs\<close>, as one more thread of the
    interleaved machine.
  \<^item> \<open>Stub\<close>, \<open>Stub_Laws\<close>: \<open>bin/stub_llama_server/\<close>, the stand-in the repository tests itself with. It interprets
    \<open>server_contract\<close>, understands the router's command line, and its echo shows end to end what the router sends.

  \<^bold>\<open>State.\<close> A \<open>world\<close> of \<open>Slots\<close> holds what each slot contains (\<open>wd_slots\<close>), the strong count of each
  child (\<open>wd_strong\<close>, for \<open>Arc\<close>) and the children ended so far (\<open>wd_ended\<close>). A \<open>machine\<close> of \<open>Slots_Machine\<close> adds who is
  past the admission lock and where each thread is; a \<open>process\<close> adds the handler's flag and the stage of the
  stop. A connection's two sides are what arrives on it and a \<open>sink\<close> for what is written to it. Admission,
  estimates and catalogs have no state of their own.

  \<^bold>\<open>Parameters.\<close> The TOML and JSON crates (a function from text to a value or a complaint, and back); the
  disk; the tools of the machine, as what they print; the operating system around a launch, as the record of
  what it answers to each free port, spawn and poll; floating point; and what a child answers, as a function
  of the bytes it was sent. In \<open>Slots_Machine\<close> the clock and the exits of children may be
  anything at any step, and so may the free memory and what is measured of a child, short of \<open>2 ^ 32\<close> mebibytes: the sums
  admission makes of larger figures would wrap (\<open>figure_ok\<close>). A thread that pauses for room there may look again or give up at
  any moment, whatever its deadline: more runs than the code has, so what holds of all of them holds of its own. A hypothesis on a parameter says what its documentation says and is met by a concrete
  instance in the witness.

  \<^bold>\<open>Bounds and fuel.\<close> Loops that may not end take fuel and can answer \<open>Out_of_fuel\<close>; the theorems say they do
  not. \<open>make_room_loop\<close> needs one unit for each quarter second of its wait, a begun one counted, and one more (theory \<open>Slots_Laws\<close>);
  \<open>attempt_loop\<close> one for each tenth of a second of the startup budget and two more (\<open>start_fuel\<close>, \<open>starts_end\<close>
  below); \<open>tool_loop\<close> 251, one more than its bound has polls (theory \<open>Tool\<close>); the reaper runs until it is
  stopped, so its fuel is the number of ticks looked at; when each of them sweeps is worked out from the timeouts it computes and
  from how long the thread takes elsewhere (\<open>ticks\<close>). Walking a tree has the depth the code allows.
  Plain arithmetic on words wraps, as the released binary does.

  \<^bold>\<open>Not modelled.\<close> Accepting connections and spawning threads is the operating system's: the threads of
  \<open>Slots_Machine\<close> stand for them, in any number. Left out are the lines about
  progress printed for an operator while a model loads, and starting a tool and reading its
  pipe; what a tool prints is a parameter. Two calls that are taken not to fail or wait: the second handle of a
  connection (\<open>TcpStream::try_clone\<close> in \<open>proxy/answer.rs\<close>), and \<open>child.wait()\<close> on a tool that was to be killed
  (\<open>memory/command.rs\<close>), which returns at once in \<open>tool_loop\<close> also where the kill failed. The encoder of \<open>Gguf_Laws\<close> writes
  no empty array of numbers, no array of arrays, no key over 1024 bytes and no per layer array beyond the reader's limit, so its round trip says nothing of those.
\<close>

section \<open>From the request to the process\<close>

lemma starts_end:
  assumes "\<And>k n. n * poll_interval \<le> lo_elapsed (os e) k n"
  shows "\<exists>r. starts os sv root e = Done r"
proof -
  have "from_secs (ucast (e_startup_timeout_seconds e)) div poll_interval + 1 < start_fuel e" by (simp add: start_fuel_def)
  from attempt_loop_ends [OF assms this]
  have one: "\<exists>r. attempt_start (start_fuel e) (os e) k sv e root = Done r" for k
    by (auto simp: attempt_start_def split: sum.split)
  then obtain r0 s0 r1 s1 where "attempt_start (start_fuel e) (os e) 0 sv e root = Done (r0, s0)"
      "attempt_start (start_fuel e) (os e) 1 sv e root = Done (r1, s1)"
    by (metis surj_pair)
  then show ?thesis by (auto simp: starts_def server_start_def split: sum.split)
qed

text \<open>
  C6: A model file that is not there costs nobody anything. A request for a model that is not loaded and whose file
  is missing is told so, with the path, and nothing is unloaded, started or marked on its behalf, whatever the
  budget says and whatever would have been unloaded for it.
\<close>

theorem missing_file_refused:
  assumes "head_read st = Inr (ls, rest)" and "head_parse ls = Inr h" and "asks_for sv h rest e"
    and "an_launcher sv = shared_launcher os measuring server root"
    and "\<not> is_file (lo_disk (os e)) (path_resolve (e_path e) root)"
    and "wd_slots w (e_id e) = None" and "sk_takes sk = None"
  shows "\<exists>a interim message. answer_to sv st sk w = Done a \<and> aw_world a = w \<and> aw_relayed a = None \<and>
    interim \<in> {[], proceed_line} \<and>
    sk_written (aw_caller a) = sk_written sk @ interim
      @ reply_text (refusal_reply (an_json sv) (refusal_new ChildUnavailable message)) \<and>
    contains message (from_utf8_lossy (path_resolve (e_path e) root))"
proof -
  obtain buffered rest1 sk1 where run: "answer_to sv st sk w = answer_model sv h (e_id e) buffered rest1 sk1 w"
      "interim_written sk sk1" "sk_takes sk1 = None" "catalog_entry (an_catalog sv) (e_id e) = Some e"
    by (rule asked_answer [OF assms(1,2,3,7), of w]) blast
  define message where "message = entry_scope (e_id e) @ '': no model file at ''
      @ quoted (from_utf8_lossy (path_resolve (e_path e) root))"
  have there: "model_file (lo_disk (os e)) e root = Inl (Unavailable message)"
    using assms(5) by (simp add: model_file_def message_def)
  have "child_for (an_fuel sv) (an_surroundings sv) (an_launcher sv) (an_slots sv) (c_entries (an_catalog sv)) e
      (an_now sv) w = Done (Inl (Unavailable message), w)"
    using assms(6) there by (simp add: child_for_def admit_child_def live_child_def assms(4) shared_launcher_def)
  then have "answer_model sv h (e_id e) buffered rest1 sk1 w =
      Done (turn_away sv (refusal_new ChildUnavailable message) sk1 w)"
    using run(4) by (simp add: answer_model_def refusal_from_def)
  moreover obtain interim where "interim \<in> {[], proceed_line}" "sk1 = sk\<lparr>sk_written := sk_written sk @ interim\<rparr>"
    using interim_unlimited [OF run(2) assms(7)] by blast
  moreover have "contains message (from_utf8_lossy (path_resolve (e_path e) root))"
    unfolding contains_iff message_def quoted_def
    by (intro exI [of _ "entry_scope (e_id e) @ '': no model file at '' @ [CHR 0x27]"] exI [of _ "[CHR 0x27]"]) simp
  ultimately show ?thesis using run(1) assms(7)
    by (intro exI [of _ "turn_away sv (refusal_new ChildUnavailable message) sk1 w"] exI [of _ interim] exI [of _ message])
      (simp add: turn_away_def refuse_def reply_write_def)
qed

text \<open>
  C7: A request for a model that is not loaded starts it once and is answered by it. When the file is there,
  the model fits beside what is loaded and the server comes up, the caller's request goes to the process that was
  started for that entry; afterwards the slots hold it, with what it was measured to hold, last used when
  the answer was over, and held by nobody else; and nothing was unloaded.
\<close>

theorem cold_start_serves:
  assumes "head_read st = Inr (ls, rest)" and "head_parse ls = Inr h" and "asks_for sv h rest e"
    and "an_launcher sv = shared_launcher os measuring server root"
    and "is_file (lo_disk (os e)) (path_resolve (e_path e) root)"
    and "wd_slots w (e_id e) = None" and "sk_takes sk = None"
    and "admit (sl_budget (an_slots sv)) (held_now (c_entries (an_catalog sv)) w) (wanted_of e)
      (su_device_free (an_surroundings sv) 0) = Fits"
    and "instant_plus (su_clock (an_surroundings sv) 0) (wait_duration (sl_wait (an_slots sv))) \<noteq> None"
    and "0 < an_fuel sv" and "starts os server root e = Done (Inr c, killed)" and "an_meanwhile sv = (\<lambda>w. w)"
  shows "\<exists>a r. answer_to sv st sk w = Done a \<and> aw_relayed a = Some (c, r) \<and>
    wd_slots (aw_world a) = (wd_slots w)(e_id e \<mapsto>
      \<lparr>sc_child = c, sc_last_used = an_after sv, sc_measured = measuring (ch_pid c)\<rparr>) \<and>
    wd_strong (aw_world a) = (wd_strong w)(ch_handle c := 1) \<and> wd_ended (aw_world a) = wd_ended w"
proof -
  obtain buffered rest1 sk1 where run: "answer_to sv st sk w = answer_model sv h (e_id e) buffered rest1 sk1 w"
      "sk_takes sk1 = None" "catalog_entry (an_catalog sv) (e_id e) = Some e"
    by (rule asked_answer [OF assms(1,2,3,7), of w]) blast
  obtain fuel where fuel: "an_fuel sv = Suc fuel" using assms(10) by (cases "an_fuel sv") auto
  have there: "la_model_file (an_launcher sv) e = Inr ()"
    using assms(5) by (simp add: assms(4) shared_launcher_def model_file_def)
  have start: "la_start (an_launcher sv) e = Inr c" "la_measure (an_launcher sv) = measuring"
    using assms(11) by (simp_all add: assms(4) shared_launcher_def)
  have room: "make_room (an_fuel sv) (an_surroundings sv) (sl_wait (an_slots sv)) (sl_budget (an_slots sv))
      (c_entries (an_catalog sv)) e w = Done (Inr (), w)"
    using assms(8,9) by (auto simp: make_room_def fuel make_room_pass_def)
  let ?held = "\<lparr>sc_child = c, sc_last_used = an_now sv, sc_measured = measuring (ch_pid c)\<rparr>"
  let ?w = "w\<lparr>wd_strong := (wd_strong w)(ch_handle c := 1), wd_process := (wd_process w)(ch_handle c := Running)\<rparr>"
  have "child_for (an_fuel sv) (an_surroundings sv) (an_launcher sv) (an_slots sv) (c_entries (an_catalog sv)) e
      (an_now sv) w = Done (Inr c, put_slot (e_id e) (Some ?held) (clone_child c ?w))"
    using assms(6) by (simp add: child_for_def admit_child_def live_child_def there room start_child_def start
        insert_child_def Let_def clone_child_def)
  from answer_served [OF run(3,2) this] show ?thesis unfolding run(1) using assms(12)
    by (fastforce simp: touch_def put_slot_def clone_child_def drop_child_def Let_def fun_upd_idem)
qed

section \<open>A concrete router\<close>

lemma asks_for_launcher [simp]: "asks_for (sv\<lparr>an_launcher := la\<rparr>) = asks_for sv"
  by (intro ext) (simp add: asks_for_def names_model_def)

definition nothing_loaded :: world where
  "nothing_loaded = \<lparr>wd_slots = Map.empty, wd_strong = (\<lambda>_. 0), wd_process = (\<lambda>_. Running), wd_ended = []\<rparr>"

definition rooted :: "string \<Rightarrow> serving" where
  "rooted root = sample_serving\<lparr>an_launcher :=
     shared_launcher (\<lambda>_. sample_machine) (\<lambda>_. unknown_measurement) sample_server root\<rparr>"

lemma rooted_simps [simp]:
  "asks_for (rooted root) = asks_for sample_serving" "an_meanwhile (rooted root) = (\<lambda>w. w)"
  "an_launcher (rooted root) = shared_launcher (\<lambda>_. sample_machine) (\<lambda>_. unknown_measurement) sample_server root"
  "sk_takes sample_caller = None" "wd_slots nothing_loaded i = None" "0 < an_fuel (rooted root)"
  by (simp add: rooted_def) (simp_all add: rooted_def sample_serving_def sample_caller_def nothing_loaded_def)

lemma rooted_start:
  "starts (\<lambda>_. sample_machine) sample_server ''/r'' Answer_Laws.sample_model = Done (Inr Launch_Laws.sample_child, [0])"
  by code_simp

lemma rooted_files:
  "is_file (lo_disk sample_machine) (path_resolve (e_path Answer_Laws.sample_model) ''/r'')"
  "\<not> is_file (lo_disk sample_machine) (path_resolve (e_path Answer_Laws.sample_model) ''/s'')"
  by code_simp+

lemma rooted_room:
  "admit (sl_budget (an_slots (rooted ''/r''))) (held_now (c_entries (an_catalog (rooted ''/r''))) nothing_loaded)
     (wanted_of Answer_Laws.sample_model) (su_device_free (an_surroundings (rooted ''/r'')) 0) = Fits"
  "instant_plus (su_clock (an_surroundings (rooted ''/r'')) 0) (wait_duration (sl_wait (an_slots (rooted ''/r'')))) \<noteq> None"
  by code_simp+

theorem missing_file_refused_witness:
  "\<exists>a. answer_to (rooted ''/s'') sample_stream sample_caller nothing_loaded = Done a \<and> aw_world a = nothing_loaded"
  using missing_file_refused [OF sample_request(1,2), of "rooted ''/s''" Answer_Laws.sample_model "\<lambda>_. sample_machine"
      "\<lambda>_. unknown_measurement" sample_server "''/s''" nothing_loaded sample_caller] sample_request(3) rooted_files(2)
  by auto

theorem cold_start_serves_witness:
  "\<exists>a r. answer_to (rooted ''/r'') sample_stream sample_caller nothing_loaded = Done a \<and> aw_relayed a = Some (Launch_Laws.sample_child, r)"
  using cold_start_serves [OF sample_request(1,2), of "rooted ''/r''" Answer_Laws.sample_model "\<lambda>_. sample_machine"
      "\<lambda>_. unknown_measurement" sample_server "''/r''" nothing_loaded sample_caller Launch_Laws.sample_child "[0]"]
    sample_request(3) rooted_files(1) rooted_room rooted_start
  by auto

end
